(* ===== verification/Prelude.thy ===== *)
theory Prelude
  imports Main "HOL-Library.Word" "HOL-Library.Char_ord" "HOL-Library.List_Lexorder"
begin

text \<open>
  Shared vocabulary of the miniredis development: bytes and C strings, the C integer
  conversions the sources use, decimal formatting (the \<open>%d\<close>, \<open>%lld\<close> and \<open>%zu\<close> conversions
  of the C library), and the generic list and option lemmas of the component theories.

  A \<open>char *\<close> buffer with an explicit length is a \<open>bytes\<close> value (a list of \<open>char\<close>, each one
  byte). A NUL-terminated pointer is the same list read through \<open>cstr\<close>, which stops at the
  first NUL exactly as \<open>strlen\<close> does. Plain \<open>char\<close> is signed on the targets of the Makefile
  (x86 Linux and macOS), so comparisons of a plain \<open>char\<close> go through \<open>schar\<close>; comparisons of
  an \<open>unsigned char\<close> (and \<open>memcmp\<close>) go through \<open>uchar\<close>.
\<close>

section \<open>Bytes and C strings\<close>

type_synonym bytes = "char list"

named_theorems out_simps \<open>what the reply builders append to the output buffer\<close>
named_theorems cmd_defs \<open>definitions of the command handlers\<close>
named_theorems eval_simps \<open>rules for evaluating the model on closed inputs\<close>

definition uchar :: "char \<Rightarrow> int" where
  "uchar c = of_char c"

definition schar :: "char \<Rightarrow> int" where
  "schar c = (if uchar c < 128 then uchar c else uchar c - 256)"

definition crlf :: bytes where
  "crlf = [CHR 0x0D, CHR 0x0A]"

definition cstr :: "bytes \<Rightarrow> bytes" where
  "cstr s = takeWhile (\<lambda>c. c \<noteq> CHR 0x00) s"

text \<open>\<open>tolower\<close> in the C locale and the equality test \<open>!strcasecmp(a, b)\<close>.\<close>

definition to_lower :: "char \<Rightarrow> char" where
  "to_lower c = (if 65 \<le> uchar c \<and> uchar c \<le> 90 then char_of (nat (uchar c + 32)) else c)"

definition strcaseeq :: "bytes \<Rightarrow> bytes \<Rightarrow> bool" where
  "strcaseeq a b = (map to_lower (cstr a) = map to_lower (cstr b))"

lemma uchar_nat: "uchar c = int (of_char c)"
  by (simp only: uchar_def of_nat_of_char)

lemma uchar_ge_0 [simp]: "0 \<le> uchar c"
  by (simp add: uchar_nat)

lemma uchar_less_256 [simp]: "uchar c < 256"
  using nat_of_char_less_256 [of c] unfolding uchar_nat by linarith

lemma uchar_eq_iff [simp]: "uchar c = uchar d \<longleftrightarrow> c = d"
  by (simp add: uchar_nat)

lemma uchar_char_of: "n < 256 \<Longrightarrow> uchar (char_of n) = int n"
  by (simp add: uchar_nat)

lemma uchar_le_iff: "uchar c \<le> uchar d \<longleftrightarrow> c \<le> d"
  by (simp add: uchar_nat less_eq_char_def)

lemma cstr_Nil [simp]: "cstr [] = []"
  by (simp add: cstr_def)

lemma cstr_Cons: "cstr (c # s) = (if c = CHR 0x00 then [] else c # cstr s)"
  by (simp add: cstr_def)

lemma cstr_no_NUL [simp]: "CHR 0x00 \<notin> set (cstr s)"
  by (auto simp: cstr_def dest: set_takeWhileD)

lemma cstr_id [simp]: "CHR 0x00 \<notin> set s \<Longrightarrow> cstr s = s"
  by (auto simp: cstr_def takeWhile_eq_all_conv)

lemma cstr_idem [simp]: "cstr (cstr s) = cstr s"
  by simp

lemma cstr_append_NUL: "CHR 0x00 \<notin> set s \<Longrightarrow> cstr (s @ CHR 0x00 # t) = s"
  by (induction s) (auto simp: cstr_Cons)

lemma strcaseeq_refl [simp]: "strcaseeq a a"
  by (simp add: strcaseeq_def)

lemma strcaseeq_sym: "strcaseeq a b \<longleftrightarrow> strcaseeq b a"
  by (auto simp: strcaseeq_def)

lemma strcaseeq_trans: "strcaseeq a b \<Longrightarrow> strcaseeq b c \<Longrightarrow> strcaseeq a c"
  by (simp add: strcaseeq_def)


section \<open>C integers\<close>

text \<open>
  \<open>long long\<close> and \<open>int64_t\<close> values are \<open>int\<close>s in the range of the type. Signed overflow
  (undefined in C, and relied upon by the overflow checks of \<open>incr_decr\<close> and \<open>cmd_hincrby\<close>)
  is written out as two's complement wrap-around by \<open>wrap64\<close>; \<open>to_size_t\<close> is the conversion
  \<open>(size_t)x\<close> and \<open>wrap32\<close> the conversion \<open>(int)x\<close>.
\<close>

abbreviation LLONG_MAX :: int where
  "LLONG_MAX \<equiv> 9223372036854775807"

abbreviation LLONG_MIN :: int where
  "LLONG_MIN \<equiv> - 9223372036854775808"

definition wrap64 :: "int \<Rightarrow> int" where
  "wrap64 i = (i + 2 ^ 63) mod 2 ^ 64 - 2 ^ 63"

definition wrap32 :: "int \<Rightarrow> int" where
  "wrap32 i = (i + 2 ^ 31) mod 2 ^ 32 - 2 ^ 31"

definition to_size_t :: "int \<Rightarrow> nat" where
  "to_size_t i = nat (i mod 2 ^ 64)"

text \<open>Division of a \<open>long long\<close> by a positive one, which rounds towards zero.\<close>

definition c_div :: "int \<Rightarrow> int \<Rightarrow> int" where
  "c_div a b = (if a < 0 then - (- a div b) else a div b)"

lemma wrap64_id [simp]: "LLONG_MIN \<le> i \<Longrightarrow> i \<le> LLONG_MAX \<Longrightarrow> wrap64 i = i"
  by (simp add: wrap64_def)

lemma wrap64_range: "LLONG_MIN \<le> wrap64 i" "wrap64 i \<le> LLONG_MAX"
  unfolding wrap64_def
  using pos_mod_bound [of "2 ^ 64" "i + 2 ^ 63"] pos_mod_sign [of "2 ^ 64" "i + 2 ^ 63"]
  by simp_all

lemma wrap64_over: "LLONG_MAX < i \<Longrightarrow> i \<le> 2 * LLONG_MAX \<Longrightarrow> wrap64 i = i - 2 ^ 64"
proof -
  assume "LLONG_MAX < i" "i \<le> 2 * LLONG_MAX"
  then have "(i + 2 ^ 63) mod 2 ^ 64 = (i + 2 ^ 63 - 2 ^ 64) mod 2 ^ 64"
    by (metis minus_mod_self2)
  also have "\<dots> = i + 2 ^ 63 - 2 ^ 64"
    using \<open>LLONG_MAX < i\<close> \<open>i \<le> 2 * LLONG_MAX\<close> by (intro mod_pos_pos_trivial) auto
  finally show ?thesis by (simp add: wrap64_def)
qed

lemma wrap64_under: "i < LLONG_MIN \<Longrightarrow> 2 * LLONG_MIN \<le> i \<Longrightarrow> wrap64 i = i + 2 ^ 64"
proof -
  assume "i < LLONG_MIN" "2 * LLONG_MIN \<le> i"
  then have "(i + 2 ^ 63) mod 2 ^ 64 = (i + 2 ^ 63 + 2 ^ 64) mod 2 ^ 64"
    by (metis mod_add_self2)
  also have "\<dots> = i + 2 ^ 63 + 2 ^ 64"
    using \<open>i < LLONG_MIN\<close> \<open>2 * LLONG_MIN \<le> i\<close> by (intro mod_pos_pos_trivial) auto
  finally show ?thesis by (simp add: wrap64_def)
qed

text \<open>The overflow test of the increments, for a sum that has already wrapped around.\<close>

lemma add_overflow:
  assumes "LLONG_MIN \<le> i" "i \<le> LLONG_MAX" "LLONG_MIN \<le> delta" "delta \<le> LLONG_MAX"
  shows "(delta > 0 \<and> wrap64 (i + delta) < i \<or> delta < 0 \<and> wrap64 (i + delta) > i) \<longleftrightarrow>
    \<not> (LLONG_MIN \<le> i + delta \<and> i + delta \<le> LLONG_MAX)"
  using assms wrap64_over [of "i + delta"] wrap64_under [of "i + delta"]
  by (cases "LLONG_MIN \<le> i + delta \<and> i + delta \<le> LLONG_MAX") auto

lemma wrap32_id [simp]: "- (2 ^ 31) \<le> i \<Longrightarrow> i < 2 ^ 31 \<Longrightarrow> wrap32 i = i"
  by (simp add: wrap32_def)


section \<open>Decimal formatting\<close>

definition is_digit :: "char \<Rightarrow> bool" where
  "is_digit c = (48 \<le> uchar c \<and> uchar c \<le> 57)"

definition digit_char :: "nat \<Rightarrow> char" where
  "digit_char n = char_of (48 + n)"

fun show_nat :: "nat \<Rightarrow> bytes" where
  "show_nat n = (if n < 10 then [digit_char n] else show_nat (n div 10) @ [digit_char (n mod 10)])"

declare show_nat.simps [simp del]

definition show_int :: "int \<Rightarrow> bytes" where
  "show_int i = (if i < 0 then CHR ''-'' # show_nat (nat (- i)) else show_nat (nat i))"

text \<open>The value of a digit string, most significant digit first.\<close>

definition dec_val :: "bytes \<Rightarrow> nat" where
  "dec_val ds = foldl (\<lambda>v c. 10 * v + nat (uchar c - 48)) 0 ds"

lemma digit_char_eval [eval_simps]:
  "digit_char 0 = CHR ''0''" "digit_char (Suc 0) = CHR ''1''" "digit_char 1 = CHR ''1''"
  "digit_char 2 = CHR ''2''" "digit_char 3 = CHR ''3''" "digit_char 4 = CHR ''4''"
  "digit_char 5 = CHR ''5''" "digit_char 6 = CHR ''6''" "digit_char 7 = CHR ''7''"
  "digit_char 8 = CHR ''8''" "digit_char 9 = CHR ''9''"
  by (simp_all add: digit_char_def char_of_def bit_0)

lemma uchar_digit_char: "n < 10 \<Longrightarrow> uchar (digit_char n) = 48 + int n"
  by (simp add: digit_char_def uchar_char_of)

lemma is_digit_digit_char [simp]: "n < 10 \<Longrightarrow> is_digit (digit_char n)"
  by (simp add: is_digit_def uchar_digit_char)

lemma dec_val_snoc [simp]: "dec_val (ds @ [c]) = 10 * dec_val ds + nat (uchar c - 48)"
  by (simp add: dec_val_def)

lemma dec_val_show_nat [simp]: "dec_val (show_nat n) = n"
proof (induction n rule: show_nat.induct)
  case (1 n)
  show ?case
  proof (cases "n < 10")
    case True
    then show ?thesis
      by (simp add: show_nat.simps [of n] uchar_digit_char dec_val_def)
  next
    case False
    with 1 show ?thesis
      by (simp add: show_nat.simps [of n] uchar_digit_char)
  qed
qed

lemma show_nat_digits [simp]: "c \<in> set (show_nat n) \<Longrightarrow> is_digit c"
proof (induction n rule: show_nat.induct)
  case (1 n)
  then show ?case by (subst (asm) show_nat.simps) (auto split: if_splits)
qed

lemma show_nat_not_Nil [simp]: "show_nat n \<noteq> []"
  by (subst show_nat.simps) simp

lemma show_nat_inj: "show_nat m = show_nat n \<Longrightarrow> m = n"
  by (metis dec_val_show_nat)

lemma is_digit_not [simp]:
  "\<not> is_digit (CHR 0x0D)" "\<not> is_digit (CHR 0x0A)" "\<not> is_digit (CHR 0x00)"
  "\<not> is_digit (CHR ''-'')" "\<not> is_digit (CHR ''+'')"
  by (simp_all add: is_digit_def uchar_def)

lemma show_nat_no_ctl [simp]:
  "CHR 0x0D \<notin> set (show_nat n)" "CHR 0x0A \<notin> set (show_nat n)" "CHR 0x00 \<notin> set (show_nat n)"
  using show_nat_digits by fastforce+

lemma show_int_no_ctl [simp]:
  "CHR 0x0D \<notin> set (show_int i)" "CHR 0x0A \<notin> set (show_int i)" "CHR 0x00 \<notin> set (show_int i)"
  by (simp_all add: show_int_def)

lemma hd_show_nat_digit: "is_digit (hd (show_nat n))"
  by (meson hd_in_set show_nat_digits show_nat_not_Nil)

section \<open>Runs\<close>

text \<open>A sequence of operations, each with a result, from a start state.\<close>

fun run_ops :: "('o \<Rightarrow> 's \<Rightarrow> 'r \<times> 's) \<Rightarrow> 'o list \<Rightarrow> 's \<Rightarrow> 'r list \<times> 's" where
  "run_ops f [] s = ([], s)"
| "run_ops f (x # xs) s =
     (case f x s of (r, s') \<Rightarrow> case run_ops f xs s' of (rs, s'') \<Rightarrow> (r # rs, s''))"

end
