(* ===== verification/Util.thy ===== *)
theory Util
  imports Prelude
begin

text \<open>
  \<open>src/util.c\<close>: the strict integer parser behind every numeric argument, and the glob matcher
  behind \<open>KEYS\<close>. Each is translated statement by statement and then proved equal to a
  reference definition that does not mention the loops of the code.
\<close>

section \<open>Strict integer parsing (\<open>string_to_ll_n\<close>, \<open>string_to_ll\<close>)\<close>

fun ll_loop :: "bytes \<Rightarrow> int \<Rightarrow> int option" where
  "ll_loop [] v = Some v"
| "ll_loop (c # cs) v =
     (if schar c < 48 \<or> schar c > 57 then None
      else let d = schar c - 48
           in if v > (LLONG_MAX - d) div 10 then None else ll_loop cs (v * 10 + d))"

definition string_to_ll_n :: "bytes \<Rightarrow> int option" where
  "string_to_ll_n s =
     (case s of
        [] \<Rightarrow> None
      | c # cs \<Rightarrow>
          if c = CHR ''-'' then (if cs = [] then None else map_option uminus (ll_loop cs 0))
          else if c = CHR ''+'' then (if cs = [] then None else ll_loop cs 0)
          else ll_loop s 0)"

definition string_to_ll :: "bytes \<Rightarrow> int option" where
  "string_to_ll s = string_to_ll_n (cstr s)"

text \<open>The reference: an optional sign, then at least one digit, then nothing.\<close>

definition ll_digits :: "bytes \<Rightarrow> bytes" where
  "ll_digits s = (if s \<noteq> [] \<and> (hd s = CHR ''-'' \<or> hd s = CHR ''+'') then tl s else s)"

definition ll_syntax :: "bytes \<Rightarrow> bool" where
  "ll_syntax s = (ll_digits s \<noteq> [] \<and> list_all is_digit (ll_digits s))"

definition ll_value :: "bytes \<Rightarrow> int" where
  "ll_value s = (if s \<noteq> [] \<and> hd s = CHR ''-'' then - int (dec_val (ll_digits s))
                 else int (dec_val (ll_digits s)))"

definition acc_val :: "int \<Rightarrow> bytes \<Rightarrow> int" where
  "acc_val v ds = foldl (\<lambda>v c. 10 * v + (uchar c - 48)) v ds"

lemma acc_val_simps [simp]:
  "acc_val v [] = v" "acc_val v (c # cs) = acc_val (10 * v + (uchar c - 48)) cs"
  by (simp_all add: acc_val_def)

lemma acc_val_mono: "list_all is_digit cs \<Longrightarrow> 0 \<le> v \<Longrightarrow> v \<le> acc_val v cs"
proof (induction cs arbitrary: v)
  case (Cons c cs)
  from Cons.prems have "v \<le> 10 * v + (uchar c - 48)" "0 \<le> 10 * v + (uchar c - 48)"
    by (auto simp: is_digit_def)
  with Cons.IH [of "10 * v + (uchar c - 48)"] Cons.prems show ?case by simp
qed simp

lemma acc_val_dec_val:
  assumes "list_all is_digit cs"
  shows "acc_val (int v) cs = int (foldl (\<lambda>v c. 10 * v + nat (uchar c - 48)) v cs)"
  using assms
proof (induction cs arbitrary: v)
  case (Cons c cs)
  then have eq: "10 * int v + (uchar c - 48) = int (10 * v + nat (uchar c - 48))"
    by (simp add: is_digit_def)
  have "acc_val (int (10 * v + nat (uchar c - 48))) cs =
      int (foldl (\<lambda>v c. 10 * v + nat (uchar c - 48)) (10 * v + nat (uchar c - 48)) cs)"
    using Cons.prems by (intro Cons.IH) simp
  then show ?case by (simp only: acc_val_simps eq foldl_Cons)
qed simp

lemma acc_val_0: "list_all is_digit cs \<Longrightarrow> acc_val 0 cs = int (dec_val cs)"
  using acc_val_dec_val [of cs 0] by (simp add: dec_val_def)

lemma schar_digit: "(schar c < 48 \<or> schar c > 57) \<longleftrightarrow> \<not> is_digit c"
  using uchar_less_256 [of c] by (auto simp: schar_def is_digit_def simp del: uchar_less_256)

lemma ll_loop_eq:
  assumes "0 \<le> v" "v \<le> LLONG_MAX"
  shows "ll_loop cs v =
    (if list_all is_digit cs \<and> acc_val v cs \<le> LLONG_MAX then Some (acc_val v cs) else None)"
  using assms
proof (induction cs arbitrary: v)
  case (Cons c cs)
  show ?case
  proof (cases "is_digit c")
    case True
    then have sc: "schar c = uchar c" by (simp add: schar_def is_digit_def)
    have u: "48 \<le> uchar c" "uchar c \<le> 57" using True by (simp_all add: is_digit_def)
    let ?v = "v * 10 + (uchar c - 48)"
    have comm: "10 * v + (uchar c - 48) = ?v" by simp
    have v0: "0 \<le> ?v" using u Cons.prems by simp
    have guard: "v > (LLONG_MAX - (uchar c - 48)) div 10 \<longleftrightarrow> ?v > LLONG_MAX"
      by linarith
    have step: "ll_loop (c # cs) v = (if ?v > LLONG_MAX then None else ll_loop cs ?v)"
      using u sc guard by (simp add: Let_def)
    show ?thesis
    proof (cases "?v \<le> LLONG_MAX")
      case le: True
      with True Cons.IH [OF v0 le] show ?thesis
        unfolding step by (simp add: comm del: ll_loop.simps)
    next
      case False
      then have "list_all is_digit cs \<Longrightarrow> \<not> acc_val ?v cs \<le> LLONG_MAX"
        using acc_val_mono [OF _ v0, of cs] by linarith
      with False show ?thesis
        unfolding step by (auto simp: comm simp del: ll_loop.simps)
    qed
  next
    case False
    then show ?thesis using schar_digit [of c] by auto
  qed
qed simp

lemma ll_loop_0:
  "ll_loop cs 0 =
    (if list_all is_digit cs \<and> int (dec_val cs) \<le> LLONG_MAX then Some (int (dec_val cs)) else None)"
proof (cases "list_all is_digit cs")
  case True
  then have "acc_val 0 cs = int (dec_val cs)" by (rule acc_val_0)
  then show ?thesis by (simp only: ll_loop_eq [of 0 cs, simplified])
next
  case False
  then show ?thesis by (simp only: ll_loop_eq [of 0 cs, simplified] if_False simp_thms)
qed

lemma string_to_ll_n_eq:
  "string_to_ll_n s =
    (if ll_syntax s \<and> \<bar>ll_value s\<bar> \<le> LLONG_MAX then Some (ll_value s) else None)"
proof (cases s)
  case Nil
  then show ?thesis by (simp add: string_to_ll_n_def ll_syntax_def ll_digits_def)
next
  case (Cons c cs)
  consider (minus) "c = CHR ''-''" | (plus) "c = CHR ''+''" | (none) "c \<noteq> CHR ''-''" "c \<noteq> CHR ''+''"
    by blast
  then show ?thesis
  proof cases
    case minus
    with Cons have "ll_digits s = cs" "ll_value s = - int (dec_val cs)"
      by (simp_all add: ll_digits_def ll_value_def)
    with minus Cons show ?thesis
      by (simp add: string_to_ll_n_def ll_syntax_def ll_loop_0)
  next
    case plus
    with Cons have "ll_digits s = cs" "ll_value s = int (dec_val cs)"
      by (simp_all add: ll_digits_def ll_value_def)
    with plus Cons show ?thesis
      by (simp add: string_to_ll_n_def ll_syntax_def ll_loop_0)
  next
    case none
    with Cons have eqs: "ll_digits s = s" "ll_value s = int (dec_val s)"
      by (simp_all add: ll_digits_def ll_value_def)
    have "string_to_ll_n s = ll_loop s 0" using none Cons by (simp add: string_to_ll_n_def)
    moreover have "s \<noteq> []" using Cons by simp
    ultimately show ?thesis unfolding ll_loop_0 by (simp add: ll_syntax_def eqs)
  qed
qed

lemma string_to_ll_n_range: "string_to_ll_n s = Some v \<Longrightarrow> - LLONG_MAX \<le> v \<and> v \<le> LLONG_MAX"
  by (auto simp: string_to_ll_n_eq split: if_splits)

lemma string_to_ll_range: "string_to_ll s = Some v \<Longrightarrow> - LLONG_MAX \<le> v \<and> v \<le> LLONG_MAX"
  unfolding string_to_ll_def by (rule string_to_ll_n_range)

lemma ll_digits_show_int: "ll_digits (show_int i) = show_nat (nat \<bar>i\<bar>)"
proof (cases "i < 0")
  case False
  have "is_digit (hd (show_nat (nat i)))" by (rule hd_show_nat_digit)
  with False show ?thesis by (auto simp: show_int_def ll_digits_def)
qed (simp add: show_int_def ll_digits_def)

lemma ll_syntax_show_int: "ll_syntax (show_int i)"
  by (simp add: ll_syntax_def ll_digits_show_int list_all_iff)

lemma ll_value_show_int: "ll_value (show_int i) = i"
proof (cases "i < 0")
  case False
  have "is_digit (hd (show_nat (nat i)))" by (rule hd_show_nat_digit)
  with False have "hd (show_int i) \<noteq> CHR ''-''" by (auto simp: show_int_def)
  with False show ?thesis by (simp add: ll_value_def ll_digits_show_int)
qed (simp add: ll_value_def ll_digits_show_int, simp add: show_int_def)

lemma string_to_ll_n_show_int:
  "string_to_ll_n (show_int i) = (if \<bar>i\<bar> \<le> LLONG_MAX then Some i else None)"
  by (simp add: string_to_ll_n_eq ll_syntax_show_int ll_value_show_int)

lemma string_to_ll_n_show_nat:
  "int n \<le> LLONG_MAX \<Longrightarrow> string_to_ll_n (show_nat n) = Some (int n)"
  using string_to_ll_n_show_int [of "int n"] by (simp add: show_int_def)



section \<open>The glob matcher (\<open>glob_class\<close>, \<open>glob_rec\<close>, \<open>util_glob_match\<close>)\<close>

text \<open>
  The pattern is NUL-terminated, so the end of the list plays the NUL. \<open>class_loop\<close> is the
  \<open>while\<close> loop of \<open>glob_class\<close>; its result is the pattern position \<open>q\<close> and \<open>matched\<close>.
  The classes compare unsigned bytes. The last comparison of \<open>glob_rec\<close>, a plain \<open>char\<close> of the
  pattern against an \<open>unsigned char\<close> of the subject, is written with the two conversions the
  source makes.
\<close>

definition class_hi :: "bytes \<Rightarrow> char option \<times> bytes" where
  "class_hi q =
     (case q of
        d # hi # q' \<Rightarrow> if d = CHR ''-'' \<and> hi \<noteq> CHR '']'' then (Some hi, q') else (None, q)
      | _ \<Rightarrow> (None, q))"

lemma length_class_hi: "length (snd (class_hi q)) \<le> length q"
  by (auto simp: class_hi_def split: list.split)

lemma class_hi_less [termination_simp]: "(h, q') = class_hi q \<Longrightarrow> length q' < Suc (length q)"
  using length_class_hi [of q] by (metis less_Suc_eq_le snd_conv)

fun class_loop :: "bytes \<Rightarrow> bool \<Rightarrow> char \<Rightarrow> bool \<Rightarrow> bytes \<times> bool" where
  "class_loop [] first c matched = ([], matched)"
| "class_loop (lo # q) first c matched =
     (if \<not> first \<and> lo = CHR '']'' then (lo # q, matched)
      else (case class_hi q of
              (Some hi, q') \<Rightarrow>
                class_loop q' False c (matched \<or> uchar lo \<le> uchar c \<and> uchar c \<le> uchar hi)
            | (None, q') \<Rightarrow> class_loop q' False c (matched \<or> uchar c = uchar lo)))"

lemma length_class_loop: "length (fst (class_loop q first c m)) \<le> length q"
proof (induction q first c m rule: class_loop.induct)
  case (2 lo q first c m)
  obtain h q' where hq: "class_hi q = (h, q')" by fastforce
  have "length q' \<le> length q" using length_class_hi [of q] by (simp add: hq)
  moreover have "\<not> (\<not> first \<and> lo = CHR '']'') \<Longrightarrow>
      length (fst (class_loop (lo # q) first c m)) \<le> length q'"
    using 2(1) [OF _ hq [symmetric]] 2(2) [OF _ hq [symmetric]] by (cases h) (auto simp: hq)
  ultimately show ?case by (cases "\<not> first \<and> lo = CHR '']''") auto
qed simp

definition glob_class :: "bytes \<Rightarrow> char \<Rightarrow> bytes \<times> bool" where
  "glob_class p c =
     (let q = tl p;
          negate = (q \<noteq> [] \<and> (hd q = CHR ''!'' \<or> hd q = CHR ''^''));
          q = (if negate then tl q else q)
      in case class_loop q True c False of
           (r # q', matched) \<Rightarrow> if r = CHR '']'' then (q', matched \<noteq> negate) else (r # q', False)
         | ([], matched) \<Rightarrow> ([], False))"

lemma length_glob_class: "p \<noteq> [] \<Longrightarrow> length (fst (glob_class p c)) < length p"
proof -
  assume "p \<noteq> []"
  have *: "length (fst (class_loop q True c False)) < length p" if "length q \<le> length (tl p)" for q
    using that length_class_loop [of q True c False] \<open>p \<noteq> []\<close> by (cases p) auto
  have "length (fst (glob_class p c)) \<le> length (fst (class_loop
      (if tl p \<noteq> [] \<and> (hd (tl p) = CHR ''!'' \<or> hd (tl p) = CHR ''^'') then tl (tl p) else tl p) True c False))"
    by (auto simp: glob_class_def Let_def split: prod.splits list.splits)
  also have "\<dots> < length p" by (rule *) auto
  finally show ?thesis .
qed

function glob_rec :: "bytes \<Rightarrow> bytes \<Rightarrow> bool" where
  "glob_rec p s =
     (case p of
        [] \<Rightarrow> s = []
      | c # p1 \<Rightarrow>
          if c = CHR ''*'' then
            (let p' = dropWhile (\<lambda>c. c = CHR ''*'') p
             in if p' = [] then True
                else list_ex (\<lambda>i. glob_rec p' (drop i s)) [0..<Suc (length s)])
          else (case s of
                  [] \<Rightarrow> False
                | d # s1 \<Rightarrow>
                    if c = CHR ''?'' then glob_rec p1 s1
                    else if c = CHR ''['' then
                      (let (p', ok) = glob_class p d in if \<not> ok then False else glob_rec p' s1)
                    else if schar c = uchar d then glob_rec p1 s1
                    else False))"
  by pat_completeness auto
termination
proof (relation "measure (\<lambda>(p, s). length p)", goal_cases)
  case (2 p s c p1 p' i)
  then have "p' = dropWhile (\<lambda>c. c = CHR ''*'') p1" by simp
  then have "length p' \<le> length p1" by (simp only: length_dropWhile_le)
  with 2(1) show ?case by simp
next
  case (4 p s c p1 d s1 x p' ok)
  then have "p' = fst (glob_class p d)" by (metis fst_conv)
  moreover have "p \<noteq> []" using 4(1) by simp
  ultimately have "length p' < length p" using length_glob_class [of p d] by simp
  then show ?case by simp
next
  case (3 p s c p1 d s1)
  then show ?case by simp
next
  case (5 p s c p1 d s1)
  show ?case using 5(1) by simp
qed simp

declare glob_rec.simps [simp del]

definition util_glob_match :: "bytes \<Rightarrow> bytes \<Rightarrow> bool" where
  "util_glob_match pat s = glob_rec (cstr pat) s"


text \<open>
  The reference semantics: the pattern is first cut into tokens, and \<open>gmatch\<close> says which
  strings a token list describes. Nothing in it follows the control flow of \<open>glob_rec\<close>.
  \<open>GNever\<close> is an unterminated class. A literal matches its own byte, and only a 7-bit one.
\<close>

datatype gtok = GStar | GAny | GLit char | GClass bool "(char \<times> char) list" | GNever

fun class_ranges :: "bytes \<Rightarrow> bool \<Rightarrow> (char \<times> char) list \<times> bytes" where
  "class_ranges [] first = ([], [])"
| "class_ranges (lo # q) first =
     (if \<not> first \<and> lo = CHR '']'' then ([], lo # q)
      else if 2 \<le> length q \<and> q ! 0 = CHR ''-'' \<and> q ! 1 \<noteq> CHR '']''
      then apfst ((#) (lo, q ! 1)) (class_ranges (drop 2 q) False)
      else apfst ((#) (lo, lo)) (class_ranges q False))"

definition in_ranges :: "char \<Rightarrow> (char \<times> char) list \<Rightarrow> bool" where
  "in_ranges c rs = list_ex (\<lambda>(lo, hi). lo \<le> c \<and> c \<le> hi) rs"

definition parse_class :: "bytes \<Rightarrow> gtok \<times> bytes" where
  "parse_class q =
     (let neg = (q \<noteq> [] \<and> (hd q = CHR ''!'' \<or> hd q = CHR ''^''));
          (rs, r) = class_ranges (if neg then tl q else q) True
      in if r = [] then (GNever, []) else (GClass neg rs, tl r))"

lemma length_class_ranges: "length (snd (class_ranges q first)) \<le> length q"
  by (induction q first rule: class_ranges.induct) auto

lemma length_parse_class: "length (snd (parse_class q)) \<le> length q"
  using length_class_ranges [of q True] length_class_ranges [of "tl q" True]
  by (auto simp: parse_class_def Let_def split: prod.splits)

lemma parse_class_less [termination_simp]: "(t, r) = parse_class q \<Longrightarrow> length r < Suc (length q)"
  using length_parse_class [of q] by (metis less_Suc_eq_le snd_conv)

fun glob_tokens :: "bytes \<Rightarrow> gtok list" where
  "glob_tokens [] = []"
| "glob_tokens (c # p) =
     (if c = CHR ''*'' then GStar # glob_tokens p
      else if c = CHR ''?'' then GAny # glob_tokens p
      else if c = CHR ''['' then (case parse_class p of (t, r) \<Rightarrow> t # glob_tokens r)
      else GLit c # glob_tokens p)"

inductive gmatch :: "gtok list \<Rightarrow> bytes \<Rightarrow> bool" where
  nil: "gmatch [] []"
| star: "gmatch ts v \<Longrightarrow> gmatch (GStar # ts) (u @ v)"
| any: "gmatch ts s \<Longrightarrow> gmatch (GAny # ts) (c # s)"
| lit: "uchar c < 128 \<Longrightarrow> gmatch ts s \<Longrightarrow> gmatch (GLit c # ts) (c # s)"
| cls: "in_ranges c rs \<noteq> neg \<Longrightarrow> gmatch ts s \<Longrightarrow> gmatch (GClass neg rs # ts) (c # s)"

inductive_simps gmatch_simps [simp]:
  "gmatch [] s" "gmatch (GStar # ts) s" "gmatch (GAny # ts) s" "gmatch (GLit c # ts) s"
  "gmatch (GClass neg rs # ts) s" "gmatch (GNever # ts) s"

lemma class_ranges_hi:
  "class_ranges (lo # q) first =
     (if \<not> first \<and> lo = CHR '']'' then ([], lo # q)
      else (case class_hi q of (h, q') \<Rightarrow>
              (case class_ranges q' False of (rs, r) \<Rightarrow>
                 ((lo, case h of Some hi \<Rightarrow> hi | None \<Rightarrow> lo) # rs, r))))"
  by (cases q; cases "tl q") (auto simp: class_hi_def apfst_def map_prod_def split_def)

lemma class_ranges_end: "snd (class_ranges q first) = [] \<or> hd (snd (class_ranges q first)) = CHR '']''"
  by (induction q first rule: class_ranges.induct) auto

declare class_ranges.simps(2) [simp del]

lemma class_loop_ranges:
  "class_loop q first c m = (let (rs, r) = class_ranges q first in (r, m \<or> in_ranges c rs))"
proof (induction q first c m rule: class_loop.induct)
  case (2 lo q first c m)
  obtain h q' where hq: "class_hi q = (h, q')" by fastforce
  obtain rs r where rr: "class_ranges q' False = (rs, r)" by fastforce
  show ?case
  proof (cases "\<not> first \<and> lo = CHR '']''")
    case False
    have eq: "c = lo \<longleftrightarrow> lo \<le> c \<and> c \<le> lo" by auto
    have nf: "(\<not> first \<and> lo = CHR '']'') = False" using False by simp
    have "class_loop (lo # q) first c m =
        class_loop q' False c (m \<or> (case h of Some hi \<Rightarrow> lo \<le> c \<and> c \<le> hi | None \<Rightarrow> c = lo))"
      using hq by (cases h) (simp_all only: class_loop.simps nf if_False uchar_le_iff uchar_eq_iff
          prod.case option.case)
    also have "\<dots> = (r, (m \<or> (case h of Some hi \<Rightarrow> lo \<le> c \<and> c \<le> hi | None \<Rightarrow> c = lo)) \<or> in_ranges c rs)"
      using 2(1) [OF False hq [symmetric]] 2(2) [OF False hq [symmetric]] rr
      by (cases h) (simp_all add: uchar_le_iff)
    finally show ?thesis
      using hq rr eq
      by (cases h) (simp_all add: class_ranges_hi nf in_ranges_def disj_assoc)
  qed (simp add: class_ranges_hi in_ranges_def)
qed (simp add: in_ranges_def)

lemma glob_class_parse:
  "glob_class (c # p) d =
     (case parse_class p of
        (GClass neg rs, r) \<Rightarrow> (r, in_ranges d rs \<noteq> neg)
      | (_, r) \<Rightarrow> (r, False))"
proof -
  define neg where "neg = (p \<noteq> [] \<and> (hd p = CHR ''!'' \<or> hd p = CHR ''^''))"
  obtain rs r where rr: "class_ranges (if neg then tl p else p) True = (rs, r)" by fastforce
  have r: "r = [] \<or> hd r = CHR '']''"
    using class_ranges_end [of "if neg then tl p else p" True] by (simp add: rr)
  have "class_loop (if neg then tl p else p) True d False = (r, in_ranges d rs)"
    by (simp add: class_loop_ranges rr)
  then show ?thesis using r
    by (cases r) (simp_all add: glob_class_def parse_class_def Let_def rr neg_def [symmetric])
qed

lemma glob_tokens_stars:
  "gmatch (GStar # glob_tokens (dropWhile (\<lambda>c. c = CHR ''*'') p)) s = gmatch (GStar # glob_tokens p) s"
proof (induction p arbitrary: s)
  case (Cons c p)
  show ?case
  proof (cases "c = CHR ''*''")
    case True
    have "gmatch (GStar # glob_tokens p) s \<longleftrightarrow> gmatch (GStar # GStar # glob_tokens p) s"
      by simp (metis append.assoc append.left_neutral)
    with True Cons.IH show ?thesis by simp
  qed simp
qed simp

lemma schar_uchar_eq: "schar c = uchar d \<longleftrightarrow> c = d \<and> uchar c < 128"
proof (cases "uchar c < 128")
  case False
  have "uchar c - 256 < uchar d" using uchar_less_256 [of c] uchar_ge_0 [of d] by linarith
  with False show ?thesis by (simp add: schar_def)
qed (simp add: schar_def)

lemma gmatch_star_drop: "gmatch (GStar # ts) s \<longleftrightarrow> (\<exists>i\<le>length s. gmatch ts (drop i s))"
proof
  assume "gmatch (GStar # ts) s"
  then obtain u v where "s = u @ v" "gmatch ts v" by auto
  then have "length u \<le> length s" "gmatch ts (drop (length u) s)" by simp_all
  then show "\<exists>i\<le>length s. gmatch ts (drop i s)" by blast
next
  assume "\<exists>i\<le>length s. gmatch ts (drop i s)"
  then obtain i where "gmatch ts (drop i s)" by blast
  then have "gmatch (GStar # ts) (take i s @ drop i s)" by (rule gmatch.star)
  then show "gmatch (GStar # ts) s" by (simp only: append_take_drop_id)
qed

lemma gmatch_star_all: "gmatch (GStar # glob_tokens []) s"
  using gmatch.star [OF gmatch.nil, of s] by simp

lemma parse_class_kind: "parse_class q = (t, r) \<Longrightarrow> t = GNever \<or> (\<exists>neg rs. t = GClass neg rs)"
  by (auto simp: parse_class_def Let_def split: prod.splits if_splits)

lemma gmatch_class_nil: "parse_class q = (t, r) \<Longrightarrow> \<not> gmatch (t # ts) []"
  using parse_class_kind [of q t r] by auto

lemma glob_rec_iff: "glob_rec p s \<longleftrightarrow> gmatch (glob_tokens p) s"
proof (induction p s rule: glob_rec.induct)
  case (1 p s)
  show ?case
  proof (cases p)
    case Nil
    then show ?thesis by (simp add: glob_rec.simps)
  next
    case (Cons c p1)
    consider (star) "c = CHR ''*''" | (nil) "c \<noteq> CHR ''*''" "s = []"
      | (any) d s1 where "c = CHR ''?''" "s = d # s1"
      | (cls) d s1 where "c = CHR ''[''" "s = d # s1"
      | (lit) d s1 where "c \<noteq> CHR ''*''" "c \<noteq> CHR ''?''" "c \<noteq> CHR ''[''" "s = d # s1"
      by (cases s) blast+
    then show ?thesis
    proof cases
      case star
      define p' where "p' = dropWhile (\<lambda>c. c = CHR ''*'') p"
      have "glob_rec p s \<longleftrightarrow> p' = [] \<or> list_ex (\<lambda>i. glob_rec p' (drop i s)) [0..<Suc (length s)]"
        using Cons star by (subst glob_rec.simps) (auto simp: p'_def Let_def simp del: upt_Suc)
      also have "\<dots> \<longleftrightarrow> p' = [] \<or> (\<exists>i\<le>length s. glob_rec p' (drop i s))"
        by (auto simp: list_ex_iff less_Suc_eq_le simp del: upt_Suc)
      also have "\<dots> \<longleftrightarrow> p' = [] \<or> (\<exists>i\<le>length s. gmatch (glob_tokens p') (drop i s))"
      proof -
        have "glob_rec p' (drop i s) = gmatch (glob_tokens p') (drop i s)" if "p' \<noteq> []" "i \<le> length s" for i
          using 1(1) [OF Cons star p'_def that(1), of i] that(2) by (simp add: less_Suc_eq_le del: upt_Suc)
        then show ?thesis by blast
      qed
      also have "\<dots> \<longleftrightarrow> gmatch (GStar # glob_tokens p') s"
        using gmatch_star_all [of s] unfolding gmatch_star_drop by (cases "p' = []") (simp_all only: simp_thms)
      also have "\<dots> \<longleftrightarrow> gmatch (glob_tokens p) s"
        using glob_tokens_stars [of p1 s] Cons star by (simp add: p'_def del: gmatch_simps)
      finally show ?thesis .
    next
      case cls
      obtain t r where tr: "parse_class p1 = (t, r)" by fastforce
      then have "t = GNever \<or> (\<exists>neg rs. t = GClass neg rs)" by (rule parse_class_kind)
      then show ?thesis
        using Cons cls 1(3) [OF Cons _ cls(2) _ cls(1)] tr
        by (subst glob_rec.simps) (auto simp: glob_class_parse split: gtok.splits)
    next
      case nil
      then show ?thesis using Cons
        by (subst glob_rec.simps) (auto simp: gmatch_class_nil split: prod.splits)
    next
      case any
      then show ?thesis using Cons 1(2) [OF Cons _ any(2) any(1)] by (subst glob_rec.simps) auto
    next
      case lit
      then show ?thesis using Cons 1(4) [OF Cons _ lit(4) _ _ ]
        by (subst glob_rec.simps) (auto simp: schar_uchar_eq)
    qed
  qed
qed


section \<open>Properties\<close>

text \<open>
  C28. The strict integer parser accepts exactly the strings of an optional sign and at least
  one digit whose value lies between \<open>-LLONG_MAX\<close> and \<open>LLONG_MAX\<close>, and returns that value; its
  accumulating loop never exceeds \<open>LLONG_MAX\<close>, so it rejects every overflow. (The one
  representable value it also rejects is \<open>LLONG_MIN\<close>.)
\<close>

theorem string_to_ll_correct:
  "string_to_ll_n s =
     (if ll_syntax s \<and> \<bar>ll_value s\<bar> \<le> LLONG_MAX then Some (ll_value s) else None)"
  by (rule string_to_ll_n_eq)

text \<open>
  C29. Printing a \<open>long long\<close> with \<open>%lld\<close> and parsing it back is the identity, except at
  \<open>LLONG_MIN\<close>, whose printed form the parser refuses.
\<close>

theorem show_parse_roundtrip:
  assumes "LLONG_MIN \<le> i" "i \<le> LLONG_MAX"
  shows "string_to_ll_n (show_int i) = (if i = LLONG_MIN then None else Some i)"
  using assms by (auto simp: string_to_ll_n_show_int)

theorem show_parse_roundtrip_witness:
  "string_to_ll_n (show_int (- 42)) = Some (- 42) \<and> string_to_ll_n (show_int LLONG_MIN) = None"
  using show_parse_roundtrip [of "- 42"] show_parse_roundtrip [of LLONG_MIN] by simp

text \<open>
  C30. The glob matcher of \<open>KEYS\<close> accepts exactly the strings that the token semantics of its
  pattern describes: stars, single-byte wildcards, (negated) classes with ranges, and
  literals, where a literal byte of the pattern matches only when it is below 128.
\<close>

theorem util_glob_match_correct:
  "util_glob_match pat s \<longleftrightarrow> gmatch (glob_tokens (cstr pat)) s"
  unfolding util_glob_match_def by (rule glob_rec_iff)

text \<open>
  C31. A pattern of one literal byte of 128 or above (every byte of a non-ASCII UTF-8 key) does
  not match the key that consists of that very byte.
\<close>

theorem util_glob_match_high_byte:
  assumes "128 \<le> uchar c"
  shows "\<not> util_glob_match [c] [c]"
proof -
  have "c \<noteq> CHR 0x00" "c \<noteq> CHR ''*''" "c \<noteq> CHR ''?''" "c \<noteq> CHR ''[''"
    using assms by (auto simp: uchar_def)
  with assms show ?thesis
    by (simp add: util_glob_match_def glob_rec_iff cstr_Cons)
qed

theorem util_glob_match_high_byte_witness:
  "128 \<le> uchar (CHR 0xE9) \<and> \<not> util_glob_match [CHR 0xE9] [CHR 0xE9]"
  using util_glob_match_high_byte [of "CHR 0xE9"] by (simp add: uchar_def)

end
