(* ===== verification/Siphash.thy ===== *)
theory Siphash
  imports Prelude
begin

unbundle bit_operations_syntax

text \<open>
  \<open>src/siphash.c\<close>: SipHash-2-4 on 64-bit words, the keyed hash of every dictionary. The state
  \<open>(v0, v1, v2, v3)\<close> is a tuple, and the statements of the \<open>SIPROUND\<close> macro are the nine
  functions \<open>sip_a\<close> to \<open>sip_i\<close>, in order, each one assignment or an adjacent pair.
\<close>

type_synonym u64 = "64 word"
type_synonym sipstate = "u64 \<times> u64 \<times> u64 \<times> u64"

definition rotl :: "u64 \<Rightarrow> nat \<Rightarrow> u64" where
  "rotl x b = push_bit b x OR drop_bit (64 - b) x"

fun sip_a :: "sipstate \<Rightarrow> sipstate" where "sip_a (v0, v1, v2, v3) = (v0 + v1, rotl v1 13, v2, v3)"
fun sip_b :: "sipstate \<Rightarrow> sipstate" where "sip_b (v0, v1, v2, v3) = (rotl v0 32, v1 XOR v0, v2, v3)"
fun sip_c :: "sipstate \<Rightarrow> sipstate" where "sip_c (v0, v1, v2, v3) = (v0, v1, v2 + v3, rotl v3 16)"
fun sip_d :: "sipstate \<Rightarrow> sipstate" where "sip_d (v0, v1, v2, v3) = (v0, v1, v2, v3 XOR v2)"
fun sip_e :: "sipstate \<Rightarrow> sipstate" where "sip_e (v0, v1, v2, v3) = (v0 + v3, v1, v2, rotl v3 21)"
fun sip_f :: "sipstate \<Rightarrow> sipstate" where "sip_f (v0, v1, v2, v3) = (v0, v1, v2, v3 XOR v0)"
fun sip_g :: "sipstate \<Rightarrow> sipstate" where "sip_g (v0, v1, v2, v3) = (v0, rotl v1 17, v2 + v1, v3)"
fun sip_h :: "sipstate \<Rightarrow> sipstate" where "sip_h (v0, v1, v2, v3) = (v0, v1 XOR v2, v2, v3)"
fun sip_i :: "sipstate \<Rightarrow> sipstate" where "sip_i (v0, v1, v2, v3) = (v0, v1, rotl v2 32, v3)"

definition sipround :: "sipstate \<Rightarrow> sipstate" where
  "sipround v = sip_i (sip_h (sip_g (sip_f (sip_e (sip_d (sip_c (sip_b (sip_a v))))))))"

definition u8to64_le :: "bytes \<Rightarrow> u64" where
  "u8to64_le p =
     of_char (p ! 0) OR push_bit 8 (of_char (p ! 1)) OR push_bit 16 (of_char (p ! 2)) OR
     push_bit 24 (of_char (p ! 3)) OR push_bit 32 (of_char (p ! 4)) OR
     push_bit 40 (of_char (p ! 5)) OR push_bit 48 (of_char (p ! 6)) OR
     push_bit 56 (of_char (p ! 7))"

text \<open>\<open>v3 ^= m; SIPROUND; SIPROUND; v0 ^= m\<close>\<close>

fun xor_v3 :: "u64 \<Rightarrow> sipstate \<Rightarrow> sipstate" where "xor_v3 m (v0, v1, v2, v3) = (v0, v1, v2, v3 XOR m)"
fun xor_v0 :: "u64 \<Rightarrow> sipstate \<Rightarrow> sipstate" where "xor_v0 m (v0, v1, v2, v3) = (v0 XOR m, v1, v2, v3)"
fun xor_v2 :: "u64 \<Rightarrow> sipstate \<Rightarrow> sipstate" where "xor_v2 m (v0, v1, v2, v3) = (v0, v1, v2 XOR m, v3)"

definition sip_absorb :: "u64 \<Rightarrow> sipstate \<Rightarrow> sipstate" where
  "sip_absorb m v = xor_v0 m (sipround (sipround (xor_v3 m v)))"

text \<open>The loop over the whole 8-byte blocks; \<open>n\<close> counts the blocks left until \<open>end\<close>.\<close>

fun sip_blocks :: "nat \<Rightarrow> bytes \<Rightarrow> sipstate \<Rightarrow> sipstate" where
  "sip_blocks 0 inp v = v"
| "sip_blocks (Suc n) inp v = sip_blocks n (drop 8 inp) (sip_absorb (u8to64_le inp) v)"

text \<open>The \<open>switch (inlen & 7)\<close>, whose cases fall through from 7 down to 1.\<close>

fun sip_tail :: "nat \<Rightarrow> bytes \<Rightarrow> u64 \<Rightarrow> u64" where
  "sip_tail 0 inp b = b"
| "sip_tail (Suc n) inp b = sip_tail n inp (b OR push_bit (8 * n) (of_char (inp ! n)))"

definition sip_init :: "u64 \<Rightarrow> u64 \<Rightarrow> sipstate" where
  "sip_init k0 k1 =
     (0x736f6d6570736575 XOR k0, 0x646f72616e646f6d XOR k1,
      0x6c7967656e657261 XOR k0, 0x7465646279746573 XOR k1)"

fun sip_result :: "sipstate \<Rightarrow> u64" where
  "sip_result (v0, v1, v2, v3) = v0 XOR v1 XOR v2 XOR v3"

definition siphash :: "bytes \<Rightarrow> bytes \<Rightarrow> u64" where
  "siphash inp k =
     sip_result (sipround (sipround (sipround (sipround (xor_v2 0xff
       (sip_absorb
          (sip_tail (length inp mod 8) (drop (8 * (length inp div 8)) inp)
             (push_bit 56 (of_nat (length inp))))
          (sip_blocks (length inp div 8) inp
             (sip_init (u8to64_le k) (u8to64_le (drop 8 k))))))))))"


section \<open>Evaluation on closed inputs\<close>

text \<open>
  The simplifier computes the word operations on numerals; a rotation is computed on reduced
  operands, so that the numerals stay at 64 bits.
\<close>

lemma rotl_word_of_int:
  "rotl (word_of_int x) n =
     word_of_int (x * 2 ^ n mod 18446744073709551616 OR x mod 18446744073709551616 div 2 ^ (64 - n))"
proof -
  have "rotl (word_of_int x) n =
      word_of_int (take_bit 64 (push_bit n x) OR drop_bit (64 - n) (take_bit 64 x))"
    unfolding rotl_def by (rule bit_eqI) (auto simp: bit_simps)
  then show ?thesis by (simp add: take_bit_eq_mod push_bit_eq_mult drop_bit_eq_div)
qed

lemma rotl_eval [eval_simps]:
  "rotl 0 n = 0"
  "rotl 1 n = word_of_int (2 ^ n mod 18446744073709551616 OR 1 div 2 ^ (64 - n))"
  "rotl (numeral a) n =
     word_of_int (numeral a * 2 ^ n mod 18446744073709551616 OR
                  numeral a mod 18446744073709551616 div 2 ^ (64 - n))"
  using rotl_word_of_int [of 1 n] rotl_word_of_int [of "numeral a" n]
  by (simp_all add: rotl_def)

lemma sip_loops_eval [eval_simps]:
  "sip_tail (numeral k) inp b =
     sip_tail (pred_numeral k) inp (b OR push_bit (8 * pred_numeral k) (of_char (inp ! pred_numeral k)))"
  "sip_blocks (numeral k) inp v =
     sip_blocks (pred_numeral k) (drop 8 inp) (sip_absorb (u8to64_le inp) v)"
  by (simp_all add: numeral_eq_Suc)

lemmas sip_eval [eval_simps] =
  siphash_def sip_absorb_def sipround_def sip_init_def u8to64_le_def

text \<open>
  The published SipHash-2-4 test vector: key \<open>00 .. 0f\<close>, message \<open>00 .. 0e\<close>.
\<close>

lemma siphash_test_vector:
  "siphash [CHR 0x00, CHR 0x01, CHR 0x02, CHR 0x03, CHR 0x04, CHR 0x05, CHR 0x06, CHR 0x07,
            CHR 0x08, CHR 0x09, CHR 0x0A, CHR 0x0B, CHR 0x0C, CHR 0x0D, CHR 0x0E]
           [CHR 0x00, CHR 0x01, CHR 0x02, CHR 0x03, CHR 0x04, CHR 0x05, CHR 0x06, CHR 0x07,
            CHR 0x08, CHR 0x09, CHR 0x0A, CHR 0x0B, CHR 0x0C, CHR 0x0D, CHR 0x0E, CHR 0x0F]
   = 0xa129ca6149be45e5"
  by (simp add: eval_simps)

end
