(* ===== verification/Resp.thy ===== *)
theory Resp
  imports Util
begin

text \<open>
  \<open>src/resp.c\<close>: the parser of client commands. A cursor into the input buffer (\<open>buf + pos\<close>) is
  the suffix of the buffer from there on, so \<open>len - pos\<close> is the suffix's length. Every pushed
  argument is an owned NUL-terminated string whose length is not kept: what any reader of
  \<open>argv[i]\<close> can see of the copied payload is its \<open>cstr\<close>, which is what the model pushes.
\<close>

section \<open>The parser\<close>

type_synonym command = "bytes list"

definition MAX_ARGC :: int where "MAX_ARGC = 2 ^ 20"
definition MAX_BULK_LEN :: int where "MAX_BULK_LEN = 512 * 1024 * 1024"

fun get_line :: "bytes \<Rightarrow> (bytes \<times> bytes) option" where
  "get_line (a # b # r) =
     (if a = CHR 0x0D \<and> b = CHR 0x0A then Some ([], r)
      else map_option (\<lambda>(line, rest). (a # line, rest)) (get_line (b # r)))"
| "get_line _ = None"

text \<open>The three outcomes: \<open>0\<close>, \<open>-1\<close>, or a decoded command with the bytes after it.\<close>

datatype parse_result = Need_more | Protocol_error | Parsed command bytes

text \<open>One pass of the argument loop, at a cursor that is not at the end of the buffer.\<close>

datatype arg_result = Arg_more | Arg_error | Arg bytes bytes

definition parse_bulk :: "bytes \<Rightarrow> bytes \<Rightarrow> arg_result" where
  "parse_bulk line r =
     (case string_to_ll_n (tl line) of
        None \<Rightarrow> Arg_error
      | Some slen \<Rightarrow>
          if slen < 0 then Arg [] r
          else if slen > MAX_BULK_LEN then Arg_error
          else if nat slen + 2 > length r then Arg_more
          else if r ! nat slen \<noteq> CHR 0x0D \<or> r ! (nat slen + 1) \<noteq> CHR 0x0A then Arg_error
          else Arg (cstr (take (nat slen) r)) (drop (nat slen + 2) r))"

fun parse_arg :: "bytes \<Rightarrow> arg_result" where
  "parse_arg [] = Arg_more"
| "parse_arg (t # r) =
     (if t \<noteq> CHR ''$'' \<and> t \<noteq> CHR ''+'' then Arg_error
      else case get_line (t # r) of
             None \<Rightarrow> Arg_more
           | Some (line, rest) \<Rightarrow>
               if t = CHR ''$'' then parse_bulk line rest else Arg (cstr (tl line)) rest)"

fun parse_args :: "nat \<Rightarrow> bytes \<Rightarrow> command \<Rightarrow> parse_result" where
  "parse_args 0 r argv = Parsed argv r"
| "parse_args (Suc n) r argv =
     (case parse_arg r of
        Arg_more \<Rightarrow> Need_more
      | Arg_error \<Rightarrow> Protocol_error
      | Arg a r' \<Rightarrow> parse_args n r' (argv @ [a]))"

definition resp_parse :: "bytes \<Rightarrow> parse_result" where
  "resp_parse buf =
     (if buf = [] then Need_more
      else if hd buf \<noteq> CHR ''*'' then Protocol_error
      else case get_line buf of
             None \<Rightarrow> Need_more
           | Some (line, r) \<Rightarrow>
               if length line < 2 \<or> hd line \<noteq> CHR ''*'' then Protocol_error
               else case string_to_ll_n (tl line) of
                      None \<Rightarrow> Protocol_error
                    | Some count \<Rightarrow>
                        if count < 0 \<or> count > MAX_ARGC then Protocol_error
                        else parse_args (nat count) r [])"

text \<open>
  The C return value with the decoded command. \<open>(int)pos\<close> is the number of bytes consumed as a
  32-bit integer. On \<open>0\<close> and \<open>-1\<close> every caller frees the partial \<open>argv\<close> unread.
\<close>

definition resp_parse_command :: "bytes \<Rightarrow> int \<times> command" where
  "resp_parse_command buf =
     (case resp_parse buf of
        Need_more \<Rightarrow> (0, [])
      | Protocol_error \<Rightarrow> (-1, [])
      | Parsed argv r \<Rightarrow> (wrap32 (int (length buf - length r)), argv))"

section \<open>Incremental parsing\<close>

text \<open>
  What a reader that feeds a growing buffer to a parser relies on: a verdict never changes when
  more bytes arrive, and a decoded frame leaves exactly the bytes after it.
\<close>

locale incremental_parser =
  fixes parse :: "bytes \<Rightarrow> parse_result"
  assumes parsed_append: "parse b = Parsed argv r \<Longrightarrow> parse (b @ more) = Parsed argv (r @ more)"
    and error_append: "parse b = Protocol_error \<Longrightarrow> parse (b @ more) = Protocol_error"
    and parsed_suffix: "parse b = Parsed argv r \<Longrightarrow> \<exists>frame. frame \<noteq> [] \<and> b = frame @ r"
begin

lemma parsed_shorter: "parse b = Parsed argv r \<Longrightarrow> length r < length b"
  using parsed_suffix by fastforce

lemma strict_prefix_needs_more:
  assumes whole: "parse (p @ q) = Parsed argv []" and "q \<noteq> []"
  shows "parse p = Need_more"
proof (cases "parse p")
  case (Parsed a r)
  with whole \<open>q \<noteq> []\<close> show ?thesis using parsed_append [of p a r q] by simp
qed (use whole error_append in auto)

lemma need_more_prefix:
  "parse (b @ more) = Need_more \<Longrightarrow> parse b = Need_more"
  using parsed_append error_append by (metis parse_result.distinct(1,3) parse_result.exhaust)

end

lemma get_line_append:
  "get_line b = Some (l, r) \<Longrightarrow> get_line (b @ more) = Some (l, r @ more)"
proof (induction b arbitrary: l rule: get_line.induct)
  case (1 a b r')
  show ?case
  proof (cases "a = CHR 0x0D \<and> b = CHR 0x0A")
    case False
    with 1(2) obtain l' where "get_line (b # r') = Some (l', r)" "l = a # l'" by auto
    with 1(1) False show ?thesis by (auto split: if_splits)
  qed (use 1(2) in auto)
qed simp_all

lemma get_line_suffix: "get_line b = Some (l, r) \<Longrightarrow> b = l @ crlf @ r"
proof (induction b arbitrary: l rule: get_line.induct)
  case (1 a b r')
  show ?case
  proof (cases "a = CHR 0x0D \<and> b = CHR 0x0A")
    case False
    with 1(2) obtain l' where "get_line (b # r') = Some (l', r)" "l = a # l'" by auto
    with 1(1) False show ?thesis by (auto split: if_splits)
  qed (use 1(2) in \<open>auto simp: crlf_def\<close>)
qed simp_all

lemma get_line_crlf:
  "CHR 0x0D \<notin> set l \<Longrightarrow> get_line (l @ crlf @ r) = Some (l, r)"
proof (induction l)
  case (Cons a l)
  then obtain b r' where "l @ crlf @ r = b # r'" by (cases l) (auto simp: crlf_def)
  with Cons show ?case by auto
qed (simp add: crlf_def)

lemma parse_bulk_append:
  "parse_bulk l b = Arg a r \<Longrightarrow> parse_bulk l (b @ more) = Arg a (r @ more)"
  "parse_bulk l b = Arg_error \<Longrightarrow> parse_bulk l (b @ more) = Arg_error"
  by (auto simp: parse_bulk_def nth_append split: option.splits if_splits)

lemma get_line_append_Cons:
  "get_line (t # b) = Some (l, r) \<Longrightarrow> get_line (t # b @ more) = Some (l, r @ more)"
  using get_line_append [of "t # b"] by simp

lemma parse_arg_append:
  "parse_arg b = Arg a r \<Longrightarrow> parse_arg (b @ more) = Arg a (r @ more)"
  "parse_arg b = Arg_error \<Longrightarrow> parse_arg (b @ more) = Arg_error"
  by (cases b; auto simp: parse_bulk_append get_line_append_Cons simp del: get_line.simps
      split: option.splits if_splits)+

lemma parse_bulk_suffix: "parse_bulk l b = Arg a r \<Longrightarrow> \<exists>p. b = p @ r"
  by (auto simp: parse_bulk_def split: option.splits if_splits) (metis append_take_drop_id)

lemma parse_arg_suffix: "parse_arg b = Arg a r \<Longrightarrow> \<exists>p. b = p @ r"
  by (cases b; auto dest!: get_line_suffix parse_bulk_suffix split: option.splits if_splits)

lemma parse_args_append:
  "parse_args n b acc = Parsed argv r \<Longrightarrow> parse_args n (b @ more) acc = Parsed argv (r @ more)"
  "parse_args n b acc = Protocol_error \<Longrightarrow> parse_args n (b @ more) acc = Protocol_error"
  by (induction n arbitrary: b acc)
    (auto simp: parse_arg_append split: arg_result.splits)

lemma parse_args_suffix: "parse_args n b acc = Parsed argv r \<Longrightarrow> \<exists>p. b = p @ r"
proof (induction n arbitrary: b acc)
  case (Suc n)
  then obtain a r' where "parse_arg b = Arg a r'" "parse_args n r' (acc @ [a]) = Parsed argv r"
    by (auto split: arg_result.splits)
  with Suc.IH parse_arg_suffix show ?case by (metis append_assoc)
qed simp

interpretation rp: incremental_parser resp_parse
proof unfold_locales
  fix b argv r more
  assume "resp_parse b = Parsed argv r"
  then show "resp_parse (b @ more) = Parsed argv (r @ more)"
    by (auto simp: resp_parse_def parse_args_append get_line_append split: option.splits if_splits)
next
  fix b more
  assume "resp_parse b = Protocol_error"
  then show "resp_parse (b @ more) = Protocol_error"
    by (auto simp: resp_parse_def parse_args_append get_line_append split: option.splits if_splits)
next
  fix b argv r
  assume "resp_parse b = Parsed argv r"
  then obtain line r' n where "get_line b = Some (line, r')" "parse_args n r' [] = Parsed argv r"
    by (auto simp: resp_parse_def split: option.splits if_splits)
  then obtain p where "b = line @ crlf @ p @ r"
    using get_line_suffix parse_args_suffix by metis
  then show "\<exists>frame. frame \<noteq> [] \<and> b = frame @ r"
    by (intro exI [of _ "line @ crlf @ p"]) (simp add: crlf_def)
qed

section \<open>Frames: what the log writers produce\<close>

text \<open>
  The frame of a command with explicit argument lengths, as \<open>aw_write_command\<close> in \<open>src/aof.c\<close>
  builds it; \<open>command_to_resp\<close> builds the same frame from NUL-terminated arguments.
\<close>

definition bulk_frame :: "bytes \<Rightarrow> bytes" where
  "bulk_frame a = ''$'' @ show_nat (length a) @ crlf @ a @ crlf"

definition resp_frame :: "bytes list \<Rightarrow> bytes" where
  "resp_frame args = ''*'' @ show_nat (length args) @ crlf @ concat (map bulk_frame args)"

definition frame_ok :: "bytes list \<Rightarrow> bool" where
  "frame_ok args = (int (length args) \<le> MAX_ARGC \<and> (\<forall>a\<in>set args. int (length a) \<le> MAX_BULK_LEN))"

lemma parse_arg_bulk_frame:
  assumes "int (length a) \<le> MAX_BULK_LEN"
  shows "parse_arg (bulk_frame a @ more) = Arg (cstr a) more"
proof -
  have "get_line (CHR ''$'' # show_nat (length a) @ crlf @ a @ crlf @ more) =
      Some (CHR ''$'' # show_nat (length a), a @ crlf @ more)"
    using get_line_crlf [of "CHR ''$'' # show_nat (length a)"] by simp
  moreover have "string_to_ll_n (show_nat (length a)) = Some (int (length a))"
    using assms by (intro string_to_ll_n_show_nat) (simp add: MAX_BULK_LEN_def)
  ultimately show ?thesis
    using assms
    by (simp add: bulk_frame_def parse_bulk_def nth_append del: get_line.simps) (simp add: crlf_def)
qed

lemma parse_args_frames:
  "\<forall>a\<in>set args. int (length a) \<le> MAX_BULK_LEN \<Longrightarrow>
   parse_args (length args) (concat (map bulk_frame args) @ more) acc = Parsed (acc @ map cstr args) more"
  by (induction args arbitrary: acc) (simp_all add: parse_arg_bulk_frame)

lemma resp_parse_frame:
  assumes "frame_ok args"
  shows "resp_parse (resp_frame args @ more) = Parsed (map cstr args) more"
proof -
  let ?h = "CHR ''*'' # show_nat (length args)"
  have "get_line (?h @ crlf @ concat (map bulk_frame args) @ more) =
      Some (?h, concat (map bulk_frame args) @ more)"
    by (rule get_line_crlf) simp
  moreover have "string_to_ll_n (show_nat (length args)) = Some (int (length args))"
    using assms by (intro string_to_ll_n_show_nat) (simp add: frame_ok_def MAX_ARGC_def)
  moreover have "\<not> length ?h < 2" by (cases "show_nat (length args)") simp_all
  ultimately show ?thesis
    using assms parse_args_frames [of args more "[]"]
    by (simp add: resp_parse_def resp_frame_def frame_ok_def del: get_line.simps)
qed

lemma resp_frame_not_Nil [simp]: "resp_frame args \<noteq> []"
  by (simp add: resp_frame_def)

lemma resp_parse_command_cases:
  "resp_parse b = Need_more \<Longrightarrow> resp_parse_command b = (0, [])"
  "resp_parse b = Protocol_error \<Longrightarrow> resp_parse_command b = (-1, [])"
  "resp_parse b = Parsed argv r \<Longrightarrow> length b < 2 ^ 31 \<Longrightarrow>
     resp_parse_command b = (int (length b - length r), argv)"
  by (auto simp: resp_parse_command_def intro!: wrap32_id)

lemma resp_parse_command_iff:
  assumes "length b < 2 ^ 31"
  shows "0 < fst (resp_parse_command b) \<longleftrightarrow> (\<exists>argv r. resp_parse b = Parsed argv r)"
    "fst (resp_parse_command b) < 0 \<longleftrightarrow> resp_parse b = Protocol_error"
  using assms rp.parsed_shorter
  by (cases "resp_parse b"; force simp: resp_parse_command_cases)+

section \<open>Properties\<close>

text \<open>
  C25. The parser inverts the frame writers: a frame of at most \<open>MAX_ARGC\<close> arguments of at most
  \<open>MAX_BULK_LEN\<close> bytes each, followed by any other bytes, is decoded to exactly its arguments
  (each cut at its first NUL, since \<open>argv\<close> keeps no lengths), and exactly the frame is consumed.
\<close>

theorem resp_parse_command_frame:
  assumes "frame_ok args" and "length (resp_frame args @ more) < 2 ^ 31"
  shows "resp_parse_command (resp_frame args @ more) =
    (int (length (resp_frame args)), map cstr args)"
  using resp_parse_command_cases(3) [OF resp_parse_frame [OF assms(1), of more] assms(2)] by simp

theorem resp_parse_command_frame_witness:
  "resp_parse_command (resp_frame [''GET'', ''a'' @ [CHR 0x00] @ ''b''] @ ''*1'') =
    (int (length (resp_frame [''GET'', ''a'' @ [CHR 0x00] @ ''b''])), [''GET'', ''a''])"
proof -
  have "frame_ok [''GET'', ''a'' @ [CHR 0x00] @ ''b'']"
    by (simp add: frame_ok_def MAX_ARGC_def MAX_BULK_LEN_def)
  moreover have "length (resp_frame [''GET'', ''a'' @ [CHR 0x00] @ ''b''] @ ''*1'') < 2 ^ 31"
    by (simp add: resp_frame_def bulk_frame_def crlf_def show_nat.simps)
  ultimately show ?thesis
    using resp_parse_command_frame [of "[''GET'', ''a'' @ [CHR 0x00] @ ''b'']" "''*1''"]
    by (simp add: cstr_Cons)
qed

text \<open>
  C26. Parsing is incremental. On a buffer \<open>b\<close> that later grows by \<open>more\<close>: a decoded command and
  its byte count stay the same, a protocol error stays an error, what is consumed is never more
  than what is there, and every strict prefix of a complete frame asks for more data.
\<close>

theorem resp_parse_command_incremental:
  assumes "length (b @ more) < 2 ^ 31"
  shows "(fst (resp_parse_command b) \<noteq> 0 \<longrightarrow>
            resp_parse_command (b @ more) = resp_parse_command b) \<and>
         fst (resp_parse_command b) \<le> int (length b) \<and>
         (fst (resp_parse_command (b @ more)) = int (length (b @ more)) \<and> b @ more \<noteq> b \<longrightarrow>
            resp_parse_command b = (0, []))"
proof (cases "resp_parse b")
  case Need_more
  then show ?thesis by (simp add: resp_parse_command_cases)
next
  case Protocol_error
  then show ?thesis using rp.error_append [of b more] by (simp add: resp_parse_command_cases)
next
  case (Parsed argv r)
  have "length b < 2 ^ 31" "length r < length b" using assms rp.parsed_shorter [OF Parsed] by auto
  with Parsed rp.parsed_append [OF Parsed, of more] assms show ?thesis
    by (simp add: resp_parse_command_cases)
qed

theorem resp_parse_command_incremental_witness:
  "resp_parse_command (''*1'' @ crlf @ ''$4'' @ crlf @ ''PI'') = (0, [])"
proof -
  let ?b = "''*1'' @ crlf @ ''$4'' @ crlf @ ''PI''"
  have "?b @ ''NG'' @ crlf = resp_frame [''PING'']"
    by (simp add: resp_frame_def bulk_frame_def crlf_def show_nat.simps digit_char_def
        char_of_def bit_0)
  moreover have "frame_ok [''PING'']"
    by (simp add: frame_ok_def MAX_ARGC_def MAX_BULK_LEN_def)
  moreover have small: "length (?b @ ''NG'' @ crlf) < 2 ^ 31" by (simp add: crlf_def)
  ultimately have "fst (resp_parse_command (?b @ ''NG'' @ crlf)) = int (length (?b @ ''NG'' @ crlf))"
    using resp_parse_command_cases(3) [OF resp_parse_frame [of "[''PING'']" "[]"]] by simp
  with resp_parse_command_incremental [OF small] show ?thesis by simp
qed

end
