(* ===== verification/Kv_Store.thy ===== *)
theory Kv_Store
  imports Prelude
begin

text \<open>
  The interface of a string-keyed store, as its clients use it: the keyspace of \<open>src/db.c\<close>, the
  hash and set objects, the member index of a sorted set, and the channel registry. \<open>set\<close> and
  \<open>delete\<close> return the previous value (NULL is \<open>None\<close>) together with the new store. What the
  command loops over several keys do is proved here once, from the laws alone; \<open>Dict\<close>
  interprets the locale with the hash table.
\<close>

text \<open>
  The loops of the multi-key commands. \<open>del_loop\<close>: delete each key and count the hits (\<open>DEL\<close>,
  \<open>HDEL\<close>, \<open>SREM\<close>). \<open>put_loop\<close>: set each pair and count the keys that were absent (\<open>HSET\<close>,
  \<open>MSET\<close>). \<open>add_loop\<close>: set each absent key to one fixed value and count (\<open>SADD\<close>).
\<close>

fun del_loop :: "('d \<Rightarrow> bytes \<Rightarrow> 'v option \<times> 'd) \<Rightarrow> bytes list \<Rightarrow> nat \<Rightarrow> 'd \<Rightarrow> nat \<times> 'd" where
  "del_loop delete [] n d = (n, d)"
| "del_loop delete (k # ks) n d =
     (case delete d k of
        (Some v, d') \<Rightarrow> del_loop delete ks (n + 1) d'
      | (None, d') \<Rightarrow> del_loop delete ks n d')"

fun put_loop :: "('d \<Rightarrow> bytes \<Rightarrow> 'v option) \<Rightarrow> ('d \<Rightarrow> bytes \<Rightarrow> 'v \<Rightarrow> 'v option \<times> 'd)
    \<Rightarrow> (bytes \<times> 'v) list \<Rightarrow> nat \<Rightarrow> 'd \<Rightarrow> nat \<times> 'd" where
  "put_loop get put [] n d = (n, d)"
| "put_loop get put ((k, v) # kvs) n d =
     put_loop get put kvs (if get d k = None then n + 1 else n) (snd (put d k v))"

fun add_loop :: "('d \<Rightarrow> bytes \<Rightarrow> 'v option) \<Rightarrow> ('d \<Rightarrow> bytes \<Rightarrow> 'v \<Rightarrow> 'v option \<times> 'd)
    \<Rightarrow> 'v \<Rightarrow> bytes list \<Rightarrow> nat \<Rightarrow> 'd \<Rightarrow> nat \<times> 'd" where
  "add_loop get put v [] n d = (n, d)"
| "add_loop get put v (k # ks) n d =
     (if get d k = None then add_loop get put v ks (n + 1) (snd (put d k v))
      else add_loop get put v ks n d)"

lemma dom_if_Some: "dom (\<lambda>a. if a = k then Some v else m a) = insert k (dom m)"
  by (auto split: if_splits)

lemma dom_if_None: "dom (\<lambda>a. if a = k then None else m a) = dom m - {k}"
  by (auto split: if_splits)

locale kv_store =
  fixes get :: "'d \<Rightarrow> bytes \<Rightarrow> 'v option"
    and put :: "'d \<Rightarrow> bytes \<Rightarrow> 'v \<Rightarrow> 'v option \<times> 'd"
    and delete :: "'d \<Rightarrow> bytes \<Rightarrow> 'v option \<times> 'd"
    and pairs :: "'d \<Rightarrow> (bytes \<times> 'v) list"
    and count :: "'d \<Rightarrow> nat"
    and invar :: "'d \<Rightarrow> bool"
  assumes put_old: "invar d \<Longrightarrow> fst (put d k v) = get d k"
    and put_get: "invar d \<Longrightarrow> get (snd (put d k v)) = (get d)(k \<mapsto> v)"
    and put_invar: "invar d \<Longrightarrow> invar (snd (put d k v))"
    and delete_old: "invar d \<Longrightarrow> fst (delete d k) = get d k"
    and delete_get: "invar d \<Longrightarrow> get (snd (delete d k)) = (get d)(k := None)"
    and delete_invar: "invar d \<Longrightarrow> invar (snd (delete d k))"
    and pairs_get: "invar d \<Longrightarrow> map_of (pairs d) = get d"
    and pairs_distinct: "invar d \<Longrightarrow> distinct (map fst (pairs d))"
    and count_pairs: "invar d \<Longrightarrow> count d = length (pairs d)"
begin

lemma put_eq: "invar d \<Longrightarrow> put d k v = (get d k, snd (put d k v))"
  using put_old by (metis prod.collapse)

lemma delete_eq: "invar d \<Longrightarrow> delete d k = (get d k, snd (delete d k))"
  using delete_old by (metis prod.collapse)

lemma pairs_iff: "invar d \<Longrightarrow> (k, v) \<in> set (pairs d) \<longleftrightarrow> get d k = Some v"
  using pairs_get pairs_distinct by (metis map_of_eq_Some_iff)

lemma keys_dom: "invar d \<Longrightarrow> set (map fst (pairs d)) = dom (get d)"
  using pairs_get [of d] by (metis dom_map_of_conv_image_fst list.set_map)

lemma finite_dom: "invar d \<Longrightarrow> finite (dom (get d))"
  by (metis keys_dom List.finite_set)

lemma count_card: "invar d \<Longrightarrow> count d = card (dom (get d))"
  by (metis count_pairs distinct_card keys_dom length_map pairs_distinct)

lemma count_zero: "invar d \<Longrightarrow> count d = 0 \<longleftrightarrow> get d = Map.empty"
  by (simp add: count_card finite_dom)

lemma put_count:
  "invar d \<Longrightarrow> count (snd (put d k v)) = (if get d k = None then count d + 1 else count d)"
  by (auto simp: count_card put_invar put_get finite_dom card_insert_if)

lemma delete_count:
  "invar d \<Longrightarrow> count (snd (delete d k)) = (if get d k = None then count d else count d - 1)"
  by (auto simp: count_card delete_invar delete_get finite_dom card_Diff_singleton_if)

lemma get_put: "invar d \<Longrightarrow> get (snd (put d k v)) k' = (if k' = k then Some v else get d k')"
  by (simp add: put_get)

lemma get_delete: "invar d \<Longrightarrow> get (snd (delete d k)) k' = (if k' = k then None else get d k')"
  by (simp add: delete_get)

lemma del_loop_correct:
  "invar d \<Longrightarrow>
     fst (del_loop delete ks n d) = n + card (set ks \<inter> dom (get d)) \<and>
     get (snd (del_loop delete ks n d)) = get d |` (- set ks) \<and>
     invar (snd (del_loop delete ks n d))"
proof (induction ks arbitrary: n d)
  case (Cons k ks)
  let ?d = "snd (delete d k)"
  have fin: "finite (set ks \<inter> dom (get d))" by simp
  have step: "del_loop delete (k # ks) n d =
      del_loop delete ks (if get d k = None then n else n + 1) ?d"
    by (subst del_loop.simps, subst delete_eq [OF Cons.prems]) (auto split: option.split)
  have dom: "set ks \<inter> dom (get ?d) = (set ks \<inter> dom (get d)) - {k}"
    using delete_get [OF Cons.prems] by auto
  have "card (set (k # ks) \<inter> dom (get d)) =
      (if get d k = None then 0 else 1) + card (set ks \<inter> dom (get ?d))"
  proof (cases "get d k")
    case None
    then have "set (k # ks) \<inter> dom (get d) = set ks \<inter> dom (get d)" "k \<notin> dom (get d)" by auto
    with None dom show ?thesis by simp
  next
    case (Some v)
    then have "set (k # ks) \<inter> dom (get d) = insert k ((set ks \<inter> dom (get d)) - {k})" by auto
    with Some dom fin show ?thesis by (simp add: card.insert_remove)
  qed
  moreover have "(get d)(k := None) |` (- set ks) = get d |` (- set (k # ks))"
    by (auto simp: restrict_map_def fun_eq_iff)
  moreover have "get ?d = (get d)(k := None)" using delete_get [OF Cons.prems] .
  moreover note Cons.IH [OF delete_invar [OF Cons.prems, of k],
      of "if get d k = None then n else n + 1"]
  ultimately show ?case
    unfolding step by (simp only:) (auto simp: dom_if_None)
qed (simp add: restrict_map_def)

lemma put_loop_correct:
  "invar d \<Longrightarrow>
     fst (put_loop get put kvs n d) = n + card (fst ` set kvs - dom (get d)) \<and>
     get (snd (put_loop get put kvs n d)) = get d ++ map_of (rev kvs) \<and>
     invar (snd (put_loop get put kvs n d))"
proof (induction kvs arbitrary: n d)
  case (Cons kv kvs)
  obtain k v where kv: "kv = (k, v)" by fastforce
  let ?d = "snd (put d k v)"
  have dom: "fst ` set kvs - dom (get ?d) = (fst ` set kvs - dom (get d)) - {k}"
    using put_get [OF Cons.prems] by auto
  have "card (fst ` set (kv # kvs) - dom (get d)) =
      (if get d k = None then 1 else 0) + card (fst ` set kvs - dom (get ?d))"
  proof (cases "get d k")
    case None
    then have "fst ` set (kv # kvs) - dom (get d) = insert k ((fst ` set kvs - dom (get d)) - {k})"
      using kv by auto
    with None dom show ?thesis by (simp add: card.insert_remove)
  next
    case (Some w)
    then have "fst ` set (kv # kvs) - dom (get d) = fst ` set kvs - dom (get d)"
      "k \<notin> fst ` set kvs - dom (get d)" using kv by auto
    with Some dom show ?thesis by simp
  qed
  moreover have "(get d)(k \<mapsto> v) ++ map_of (rev kvs) = get d ++ map_of (rev (kv # kvs))"
    by (auto simp: kv map_add_def fun_eq_iff split: option.split)
  moreover have "put_loop get put (kv # kvs) n d =
      put_loop get put kvs (if get d k = None then n + 1 else n) ?d" by (simp add: kv)
  moreover note put_get [OF Cons.prems, of k v]
    Cons.IH [OF put_invar [OF Cons.prems, of k v], of "if get d k = None then n + 1 else n"]
  ultimately show ?case by (simp only:) (auto simp: dom_if_Some)
qed simp

lemma add_loop_correct:
  "invar d \<Longrightarrow>
     fst (add_loop get put v ks n d) = n + card (set ks - dom (get d)) \<and>
     get (snd (add_loop get put v ks n d)) =
       (\<lambda>k. if get d k = None \<and> k \<in> set ks then Some v else get d k) \<and>
     invar (snd (add_loop get put v ks n d))"
proof (induction ks arbitrary: n d)
  case (Cons k ks)
  show ?case
  proof (cases "get d k")
    case None
    let ?d = "snd (put d k v)"
    have "set (k # ks) - dom (get d) = insert k ((set ks - dom (get d)) - {k})" using None by auto
    moreover have "set ks - dom (get ?d) = (set ks - dom (get d)) - {k}"
      using put_get [OF Cons.prems] by auto
    ultimately have "card (set (k # ks) - dom (get d)) = 1 + card (set ks - dom (get ?d))"
      by (simp add: card.insert_remove)
    moreover have "add_loop get put v (k # ks) n d = add_loop get put v ks (n + 1) ?d"
      using None by simp
    moreover note put_get [OF Cons.prems, of k v]
      Cons.IH [OF put_invar [OF Cons.prems, of k v], of "n + 1"]
    ultimately show ?thesis using None by (simp only:) (auto simp: fun_eq_iff dom_if_Some)
  next
    case (Some w)
    then have "set (k # ks) - dom (get d) = set ks - dom (get d)" by auto
    with Some Cons.IH [OF Cons.prems] show ?thesis by (auto simp: fun_eq_iff)
  qed
qed simp

end

end
