(* ===== verification/Dict.thy ===== *)
theory Dict
  imports Siphash Kv_Store
begin

unbundle bit_operations_syntax

text \<open>
  \<open>src/dict.c\<close>: the chained hash table behind the keyspace, the hash and set objects, the
  member index of sorted sets and the channel registry. \<open>dtable\<close> is the array of chains, each
  chain the list of its entries from the head; an owned \<open>char *key\<close> with its \<open>klen\<close> is a
  \<open>bytes\<close> value. The seed drawn by \<open>util_random_bytes\<close> is an argument of \<open>dict_create\<close>.
  Sizes are \<open>nat\<close>: a table whose \<open>size_t\<close> arithmetic could wrap does not fit in memory.
\<close>

section \<open>The hash table\<close>

record 'v dict_entry =
  ekey :: bytes
  evalue :: 'v
  ehash :: u64

record 'v dict =
  dtable :: "'v dict_entry list list"
  dsize :: nat
  dused :: nat
  dseed :: bytes

definition INITIAL_SIZE :: nat where "INITIAL_SIZE = 16"
definition LOAD_FACTOR_NUM :: nat where "LOAD_FACTOR_NUM = 3"
definition LOAD_FACTOR_DEN :: nat where "LOAD_FACTOR_DEN = 4"

definition dict_hash :: "bytes \<Rightarrow> bytes \<Rightarrow> u64" where
  "dict_hash key seed = siphash key seed"

definition key_equal :: "'v dict_entry \<Rightarrow> bytes \<Rightarrow> u64 \<Rightarrow> bool" where
  "key_equal e key hash = (ehash e = hash \<and> length (ekey e) = length key \<and> ekey e = key)"

definition dict_create :: "bytes \<Rightarrow> 'v dict" where
  "dict_create seed = \<lparr>dtable = [], dsize = 0, dused = 0, dseed = seed\<rparr>"

text \<open>\<open>hash & (size - 1)\<close>\<close>

definition bucket_index :: "u64 \<Rightarrow> nat \<Rightarrow> nat" where
  "bucket_index h n = unat h AND (n - 1)"

definition move_entry :: "nat \<Rightarrow> 'v dict_entry \<Rightarrow> 'v dict_entry list list \<Rightarrow> 'v dict_entry list list" where
  "move_entry new_size e t =
     (let idx = bucket_index (ehash e) new_size in t[idx := e # t ! idx])"

definition dict_resize :: "'v dict \<Rightarrow> nat \<Rightarrow> 'v dict" where
  "dict_resize d new_size =
     d\<lparr>dtable := fold (fold (move_entry new_size)) (dtable d) (replicate new_size []),
       dsize := new_size\<rparr>"

definition dict_grow :: "'v dict \<Rightarrow> 'v dict" where
  "dict_grow d =
     (if dsize d = 0 then dict_resize d INITIAL_SIZE
      else if dused d * LOAD_FACTOR_DEN \<ge> dsize d * LOAD_FACTOR_NUM then dict_resize d (dsize d * 2)
      else d)"

definition dict_get :: "'v dict \<Rightarrow> bytes \<Rightarrow> 'v option" where
  "dict_get d key =
     (if dsize d = 0 then None
      else let h = dict_hash key (dseed d); idx = bucket_index h (dsize d)
           in map_option evalue (find (\<lambda>e. key_equal e key h) (dtable d ! idx)))"

text \<open>The loop of \<open>dict_set\<close> over a chain: replace the value of the first equal entry.\<close>

fun chain_set :: "bytes \<Rightarrow> u64 \<Rightarrow> 'v \<Rightarrow> 'v dict_entry list \<Rightarrow> ('v \<times> 'v dict_entry list) option" where
  "chain_set key h val [] = None"
| "chain_set key h val (e # es) =
     (if key_equal e key h then Some (evalue e, e\<lparr>evalue := val\<rparr> # es)
      else map_option (\<lambda>(old, es'). (old, e # es')) (chain_set key h val es))"

definition dict_set :: "'v dict \<Rightarrow> bytes \<Rightarrow> 'v \<Rightarrow> 'v option \<times> 'v dict" where
  "dict_set d0 key val =
     (let d = dict_grow d0;
          h = dict_hash key (dseed d);
          idx = bucket_index h (dsize d);
          chain = dtable d ! idx
      in case chain_set key h val chain of
           Some (old, chain') \<Rightarrow> (Some old, d\<lparr>dtable := (dtable d)[idx := chain']\<rparr>)
         | None \<Rightarrow>
             (None, d\<lparr>dtable := (dtable d)[idx := \<lparr>ekey = key, evalue = val, ehash = h\<rparr> # chain],
                      dused := dused d + 1\<rparr>))"

text \<open>The loop of \<open>dict_delete\<close>: unlink the first equal entry.\<close>

fun chain_delete :: "bytes \<Rightarrow> u64 \<Rightarrow> 'v dict_entry list \<Rightarrow> ('v \<times> 'v dict_entry list) option" where
  "chain_delete key h [] = None"
| "chain_delete key h (e # es) =
     (if key_equal e key h then Some (evalue e, es)
      else map_option (\<lambda>(val, es'). (val, e # es')) (chain_delete key h es))"

definition dict_delete :: "'v dict \<Rightarrow> bytes \<Rightarrow> 'v option \<times> 'v dict" where
  "dict_delete d key =
     (if dsize d = 0 then (None, d)
      else let h = dict_hash key (dseed d); idx = bucket_index h (dsize d)
           in case chain_delete key h (dtable d ! idx) of
                Some (val, chain') \<Rightarrow>
                  (Some val, d\<lparr>dtable := (dtable d)[idx := chain'], dused := dused d - 1\<rparr>)
              | None \<Rightarrow> (None, d))"

definition dict_size :: "'v dict \<Rightarrow> nat" where
  "dict_size d = dused d"

text \<open>
  What a client that keeps the pointer \<open>dict_get\<close> returned does when it changes the object behind
  it: the value of the entry changes in place, with no resize.
\<close>

definition dict_assign :: "'v dict \<Rightarrow> bytes \<Rightarrow> 'v \<Rightarrow> 'v dict" where
  "dict_assign d key val =
     (if dsize d = 0 then d
      else let h = dict_hash key (dseed d); idx = bucket_index h (dsize d)
           in case chain_set key h val (dtable d ! idx) of
                Some (old, chain') \<Rightarrow> d\<lparr>dtable := (dtable d)[idx := chain']\<rparr>
              | None \<Rightarrow> d)"

text \<open>
  The iterator: \<open>ichain\<close> is the chain from the current entry on (empty for a NULL \<open>entry\<close>).
\<close>

record 'v dict_iter =
  ibucket :: nat
  ichain :: "'v dict_entry list"

definition dict_iter_init :: "'v dict_iter" where
  "dict_iter_init = \<lparr>ibucket = 0, ichain = []\<rparr>"

function iter_scan :: "'v dict \<Rightarrow> nat \<Rightarrow> 'v dict_entry option \<times> 'v dict_iter" where
  "iter_scan d b =
     (if b < dsize d then
        (case dtable d ! b of
           e # es \<Rightarrow> (Some e, \<lparr>ibucket = b, ichain = e # es\<rparr>)
         | [] \<Rightarrow> iter_scan d (Suc b))
      else (None, \<lparr>ibucket = b, ichain = []\<rparr>))"
  by pat_completeness auto
termination
  by (relation "measure (\<lambda>(d, b). dsize d - b)") auto

declare iter_scan.simps [simp del]

definition dict_iter_next :: "'v dict \<Rightarrow> 'v dict_iter \<Rightarrow> 'v dict_entry option \<times> 'v dict_iter" where
  "dict_iter_next d it =
     (case ichain it of
        _ # e # es \<Rightarrow> (Some e, it\<lparr>ichain := e # es\<rparr>)
      | [_] \<Rightarrow> iter_scan d (Suc (ibucket it))
      | [] \<Rightarrow> iter_scan d (ibucket it))"

text \<open>The sequence of entries a client sees: \<open>n\<close> calls of \<open>dict_iter_next\<close> from the start.\<close>

fun iter_collect :: "nat \<Rightarrow> 'v dict \<Rightarrow> 'v dict_iter \<Rightarrow> 'v dict_entry list" where
  "iter_collect 0 d it = []"
| "iter_collect (Suc n) d it =
     (case dict_iter_next d it of (None, it') \<Rightarrow> [] | (Some e, it') \<Rightarrow> e # iter_collect n d it')"

definition dict_entries :: "'v dict \<Rightarrow> 'v dict_entry list" where
  "dict_entries d = iter_collect (Suc (length (concat (dtable d)))) d dict_iter_init"

text \<open>
  \<open>dict_random_entry\<close>: one pass of reservoir sampling. \<open>rand i\<close> is the result of the \<open>i\<close>-th
  call of \<open>rand()\<close>; the pass starts at call \<open>pos\<close> and returns the position it has reached.
\<close>

fun reservoir :: "(nat \<Rightarrow> nat) \<Rightarrow> nat \<Rightarrow> nat \<Rightarrow> 'v dict_entry option \<Rightarrow> 'v dict_entry list
    \<Rightarrow> 'v dict_entry option \<times> nat" where
  "reservoir rand pos i pick [] = (pick, pos)"
| "reservoir rand pos i pick (e # es) =
     reservoir rand (Suc pos) (Suc i) (if rand pos mod (i + 1) = 0 then Some e else pick) es"

definition dict_random_entry ::
    "(nat \<Rightarrow> nat) \<Rightarrow> nat \<Rightarrow> 'v dict \<Rightarrow> 'v dict_entry option \<times> nat" where
  "dict_random_entry rand pos d =
     (if dused d = 0 then (None, pos) else reservoir rand pos 0 None (concat (dtable d)))"


section \<open>Representation invariant and abstraction\<close>

definition pair_of :: "'v dict_entry \<Rightarrow> bytes \<times> 'v" where
  "pair_of e = (ekey e, evalue e)"

definition key_bucket :: "bytes \<Rightarrow> nat \<Rightarrow> bytes \<Rightarrow> nat" where
  "key_bucket seed n k = bucket_index (dict_hash k seed) n"

definition chain_ok :: "bytes \<Rightarrow> nat \<Rightarrow> nat \<Rightarrow> 'v dict_entry list \<Rightarrow> bool" where
  "chain_ok seed n i es =
     ((\<forall>e\<in>set es. ehash e = dict_hash (ekey e) seed \<and> key_bucket seed n (ekey e) = i) \<and>
      distinct (map ekey es))"

definition table_ok :: "bytes \<Rightarrow> nat \<Rightarrow> 'v dict_entry list list \<Rightarrow> bool" where
  "table_ok seed n t = (length t = n \<and> (\<forall>i<n. chain_ok seed n i (t ! i)))"

text \<open>
  Well-formed tables: the number of buckets is zero or a power of two, every entry sits in the
  bucket of its (cached) hash, no key occurs twice, \<open>used\<close> counts the entries, and the load
  stays within one entry of the growth threshold of three quarters.
\<close>

definition dict_ok :: "'v dict \<Rightarrow> bool" where
  "dict_ok d =
     ((dsize d = 0 \<or> (\<exists>k>0. dsize d = 2 ^ k)) \<and>
      table_ok (dseed d) (dsize d) (dtable d) \<and>
      dused d = length (concat (dtable d)) \<and>
      dused d * LOAD_FACTOR_DEN < dsize d * LOAD_FACTOR_NUM + LOAD_FACTOR_DEN)"

definition dict_pairs :: "'v dict \<Rightarrow> (bytes \<times> 'v) list" where
  "dict_pairs d = map pair_of (concat (dtable d))"

definition dict_map :: "'v dict \<Rightarrow> bytes \<Rightarrow> 'v option" where
  "dict_map d = map_of (dict_pairs d)"

lemma fst_pair_of [simp]: "fst (pair_of e) = ekey e" "snd (pair_of e) = evalue e"
  by (simp_all add: pair_of_def)

lemma map_fst_pair_of [simp]: "map fst (map pair_of es) = map ekey es" "fst \<circ> pair_of = ekey"
  by (simp_all add: fun_eq_iff)

lemma bucket_index_less: "bucket_index h (2 ^ k) < 2 ^ k"
proof -
  have "bucket_index h (2 ^ k) = take_bit k (unat h)"
    by (simp add: bucket_index_def take_bit_eq_mask mask_eq_exp_minus_1)
  then show ?thesis by (simp add: take_bit_nat_less_exp)
qed

lemma key_bucket_less: "key_bucket seed (2 ^ k) key < 2 ^ k"
  by (simp add: key_bucket_def bucket_index_less)

subsection \<open>Chains\<close>

lemma chain_get:
  assumes "\<forall>e\<in>set es. ehash e = dict_hash (ekey e) seed"
  shows "map_option evalue (find (\<lambda>e. key_equal e key (dict_hash key seed)) es) =
         map_of (map pair_of es) key"
  using assms by (induction es) (auto simp: key_equal_def pair_of_def)

lemma chain_set_None:
  assumes "\<forall>e\<in>set es. ehash e = dict_hash (ekey e) seed"
  shows "chain_set key (dict_hash key seed) val es = None \<longleftrightarrow> key \<notin> set (map ekey es)"
  using assms by (induction es) (auto simp: key_equal_def)

lemma chain_set_Some:
  assumes "\<forall>e\<in>set es. ehash e = dict_hash (ekey e) seed"
    and "chain_set key (dict_hash key seed) val es = Some (old, es')"
  shows "map_of (map pair_of es) key = Some old \<and>
         map_of (map pair_of es') = (map_of (map pair_of es))(key \<mapsto> val) \<and>
         map ekey es' = map ekey es \<and> map ehash es' = map ehash es"
  using assms
proof (induction es arbitrary: es')
  case (Cons e es)
  show ?case
  proof (cases "key_equal e key (dict_hash key seed)")
    case False
    then have ne: "ekey e \<noteq> key" using Cons.prems by (auto simp: key_equal_def)
    from False Cons.prems obtain es1 where "chain_set key (dict_hash key seed) val es = Some (old, es1)"
      "es' = e # es1" by auto
    with Cons ne show ?thesis by (auto simp: pair_of_def)
  qed (use Cons.prems in \<open>auto simp: key_equal_def pair_of_def\<close>)
qed simp

lemma chain_delete_None:
  assumes "\<forall>e\<in>set es. ehash e = dict_hash (ekey e) seed"
  shows "chain_delete key (dict_hash key seed) es = None \<longleftrightarrow> key \<notin> set (map ekey es)"
  using assms by (induction es) (auto simp: key_equal_def)

lemma chain_delete_Some:
  assumes "\<forall>e\<in>set es. ehash e = dict_hash (ekey e) seed"
    and "chain_delete key (dict_hash key seed) es = Some (val, es')"
  shows "\<exists>e us vs. es = us @ e # vs \<and> es' = us @ vs \<and> ekey e = key \<and> evalue e = val \<and>
           key \<notin> set (map ekey us)"
  using assms
proof (induction es arbitrary: es')
  case (Cons e es)
  show ?case
  proof (cases "key_equal e key (dict_hash key seed)")
    case True
    with Cons.prems have "es' = es" "evalue e = val" "ekey e = key" by (auto simp: key_equal_def)
    then show ?thesis by (intro exI [of _ e] exI [of _ "[]"] exI [of _ es]) simp
  next
    case False
    then have ne: "ekey e \<noteq> key" using Cons.prems by (auto simp: key_equal_def)
    from False Cons.prems obtain es1 where "chain_delete key (dict_hash key seed) es = Some (val, es1)"
      "es' = e # es1" by auto
    with Cons obtain e0 us vs where "es = us @ e0 # vs" "es1 = us @ vs" "ekey e0 = key"
      "evalue e0 = val" "key \<notin> set (map ekey us)" by auto
    with ne \<open>es' = e # es1\<close> show ?thesis
      by (intro exI [of _ e0] exI [of _ "e # us"] exI [of _ vs]) simp
  qed
qed simp

subsection \<open>Tables\<close>

lemma concat_nth_split:
  "i < length t \<Longrightarrow> concat t = concat (take i t) @ t ! i @ concat (drop (Suc i) t)"
  by (metis concat.simps(2) concat_append id_take_nth_drop)

lemma concat_list_update:
  "i < length t \<Longrightarrow> concat (t[i := c]) = concat (take i t) @ c @ concat (drop (Suc i) t)"
  by (simp add: upd_conv_take_nth_drop)

lemma table_ok_bucket:
  assumes "table_ok seed n t" "i < n" "e \<in> set (t ! i)"
  shows "key_bucket seed n (ekey e) = i"
  using assms by (auto simp: table_ok_def chain_ok_def)

lemma set_concat_nth: "x \<in> set (concat t) \<longleftrightarrow> (\<exists>j<length t. x \<in> set (t ! j))"
  by simp (metis in_set_conv_nth)

lemma table_ok_outside:
  assumes "table_ok seed n t" "key_bucket seed n k = i"
  shows "k \<notin> ekey ` set (concat (take i t))" "k \<notin> ekey ` set (concat (drop (Suc i) t))"
proof -
  have other: "ekey e \<noteq> k" if "e \<in> set (t ! j)" "j < length t" "j \<noteq> i" for e j
    using table_ok_bucket [OF assms(1), of j e] that assms by (auto simp: table_ok_def)
  have "x \<in> set (concat (take i t)) \<Longrightarrow> ekey x \<noteq> k" for x
    unfolding set_concat_nth using other [of x] by force
  moreover have "x \<in> set (concat (drop (Suc i) t)) \<Longrightarrow> ekey x \<noteq> k" for x
    unfolding set_concat_nth using other [of x] by force
  ultimately show "k \<notin> ekey ` set (concat (take i t))" "k \<notin> ekey ` set (concat (drop (Suc i) t))"
    by blast+
qed

lemma table_ok_hashes:
  "table_ok seed n t \<Longrightarrow> i < n \<Longrightarrow> \<forall>e\<in>set (t ! i). ehash e = dict_hash (ekey e) seed"
  by (auto simp: table_ok_def chain_ok_def)

lemma table_map_of:
  assumes "table_ok seed n t" "key_bucket seed n k = i" "i < n"
  shows "map_of (map pair_of (concat t)) k = map_of (map pair_of (t ! i)) k"
proof -
  have "i < length t" using assms by (simp add: table_ok_def)
  have "map_of (map pair_of (concat (take i t))) k = None"
    "map_of (map pair_of (concat (drop (Suc i) t))) k = None"
    using table_ok_outside [OF assms(1,2)] by (simp_all add: map_of_eq_None_iff image_image)
  then show ?thesis
    by (subst concat_nth_split [OF \<open>i < length t\<close>]) (auto simp: map_add_def split: option.split)
qed

lemma distinct_concat_classes:
  assumes "\<And>i. i < length t \<Longrightarrow> distinct (t ! i)"
    and "\<And>i x. i < length t \<Longrightarrow> x \<in> set (t ! i) \<Longrightarrow> f x = off + i"
  shows "distinct (concat t)"
  using assms
proof (induction t arbitrary: off)
  case (Cons c t)
  have "distinct (concat t)"
  proof (rule Cons.IH [of "Suc off"])
    fix i assume "i < length t"
    then show "distinct (t ! i)" using Cons.prems(1) [of "Suc i"] by simp
    fix x assume "x \<in> set (t ! i)"
    then show "f x = Suc off + i" using Cons.prems(2) [of "Suc i" x] \<open>i < length t\<close> by simp
  qed
  moreover have "distinct c" using Cons.prems(1) [of 0] by simp
  moreover have "x \<notin> set (concat t)" if "x \<in> set c" for x
  proof
    assume "x \<in> set (concat t)"
    then obtain i where "i < length t" "x \<in> set (t ! i)" unfolding set_concat_nth by blast
    then have "f x = off + Suc i" using Cons.prems(2) [of "Suc i" x] by simp
    moreover have "f x = off" using Cons.prems(2) [of 0 x] that by simp
    ultimately show False by simp
  qed
  ultimately show ?case by auto
qed simp

lemma table_distinct:
  assumes "table_ok seed n t"
  shows "distinct (map ekey (concat t))"
proof -
  have "distinct (concat (map (map ekey) t))"
  proof (rule distinct_concat_classes [where f = "key_bucket seed n" and off = 0])
    fix i assume "i < length (map (map ekey) t)"
    then show "distinct (map (map ekey) t ! i)"
      using assms by (simp add: table_ok_def chain_ok_def)
    fix k assume "k \<in> set (map (map ekey) t ! i)"
    then obtain e where "e \<in> set (t ! i)" "k = ekey e" using \<open>i < length (map (map ekey) t)\<close> by auto
    then show "key_bucket seed n k = 0 + i"
      using table_ok_bucket [OF assms, of i e] assms \<open>i < length (map (map ekey) t)\<close>
      by (simp add: table_ok_def)
  qed
  then show ?thesis by (simp add: map_concat)
qed

lemma chain_ok_Cons:
  "chain_ok seed n i (e # c) \<longleftrightarrow>
     ehash e = dict_hash (ekey e) seed \<and> i = key_bucket seed n (ekey e) \<and>
     ekey e \<notin> ekey ` set c \<and> chain_ok seed n i c"
  unfolding chain_ok_def list.set list.map distinct.simps by auto

lemma table_ok_update:
  "table_ok seed n t \<Longrightarrow> chain_ok seed n i c \<Longrightarrow> table_ok seed n (t[i := c])"
  by (cases "i < length t") (auto simp: table_ok_def nth_list_update)

lemma table_ok_empty: "table_ok seed n (replicate n [])"
  by (simp add: table_ok_def chain_ok_def)

subsection \<open>Growing\<close>

lemma move_entry_ok:
  assumes "table_ok seed n t" "n = 2 ^ k" "ehash e = dict_hash (ekey e) seed"
    and "ekey e \<notin> ekey ` set (concat t)"
  shows "table_ok seed n (move_entry n e t)"
    and "set (concat (move_entry n e t)) = insert e (set (concat t))"
    and "length (concat (move_entry n e t)) = Suc (length (concat t))"
proof -
  define i where "i = bucket_index (ehash e) n"
  have i: "i < n" "i < length t" using assms by (simp_all add: i_def bucket_index_less table_ok_def)
  have me: "move_entry n e t = t[i := e # t ! i]" by (simp add: move_entry_def i_def Let_def)
  have "set (t ! i) \<subseteq> set (concat t)" using i(2) unfolding subset_iff set_concat_nth by blast
  then have "ekey e \<notin> ekey ` set (t ! i)" using assms(4) by blast
  moreover have "chain_ok seed n i (t ! i)" using assms(1) i(1) unfolding table_ok_def by blast
  ultimately have "chain_ok seed n i (e # t ! i)"
    using assms(3) i_def by (simp add: chain_ok_Cons key_bucket_def)
  then show "table_ok seed n (move_entry n e t)" unfolding me by (rule table_ok_update [OF assms(1)])
  show "set (concat (move_entry n e t)) = insert e (set (concat t))"
    "length (concat (move_entry n e t)) = Suc (length (concat t))"
    unfolding me concat_list_update [OF i(2)] concat_nth_split [OF i(2)] by auto
qed

lemma move_entries_ok:
  assumes "table_ok seed n t" "n = 2 ^ k" "\<forall>e\<in>set es. ehash e = dict_hash (ekey e) seed"
    and "distinct (map ekey es)" "ekey ` set es \<inter> ekey ` set (concat t) = {}"
  shows "table_ok seed n (fold (move_entry n) es t) \<and>
         set (concat (fold (move_entry n) es t)) = set es \<union> set (concat t) \<and>
         length (concat (fold (move_entry n) es t)) = length es + length (concat t)"
  using assms
proof (induction es arbitrary: t)
  case (Cons e es)
  have e: "ekey e \<notin> ekey ` set (concat t)" "ehash e = dict_hash (ekey e) seed"
    using Cons.prems by auto
  note m = move_entry_ok [OF Cons.prems(1,2) e(2) e(1)]
  have "ekey ` set es \<inter> ekey ` set (concat (move_entry n e t)) = {}"
    using Cons.prems(4,5) unfolding m(2) by auto
  with Cons.IH [OF m(1)] Cons.prems m show ?case by auto
qed simp

lemma fold_fold_concat: "fold (fold f) xss s = fold f (concat xss) s"
  by (induction xss arbitrary: s) auto

lemma dict_resize_ok:
  assumes "table_ok (dseed d) (dsize d) (dtable d)" "new_size = 2 ^ k"
  shows "table_ok (dseed d) new_size (dtable (dict_resize d new_size)) \<and>
         set (concat (dtable (dict_resize d new_size))) = set (concat (dtable d)) \<and>
         length (concat (dtable (dict_resize d new_size))) = length (concat (dtable d))"
proof -
  have "\<forall>e\<in>set (concat (dtable d)). ehash e = dict_hash (ekey e) (dseed d)"
    using assms(1) unfolding Ball_def set_concat_nth table_ok_def chain_ok_def by metis
  with move_entries_ok [OF table_ok_empty assms(2), of "concat (dtable d)" "dseed d"]
    table_distinct [OF assms(1)]
  show ?thesis by (simp add: dict_resize_def fold_fold_concat)
qed

lemma dict_resize_fields [simp]:
  "dsize (dict_resize d n) = n" "dused (dict_resize d n) = dused d" "dseed (dict_resize d n) = dseed d"
  by (simp_all add: dict_resize_def)

lemma dict_map_resize:
  assumes "table_ok (dseed d) (dsize d) (dtable d)" "new_size = 2 ^ k"
  shows "dict_map (dict_resize d new_size) = dict_map d"
proof -
  note r = dict_resize_ok [OF assms]
  have "distinct (map ekey (concat (dtable (dict_resize d new_size))))"
    "distinct (map ekey (concat (dtable d)))"
    using r table_distinct assms(1) by blast+
  then show ?thesis
    unfolding dict_map_def dict_pairs_def using r by (subst map_of_inject_set) simp_all
qed

text \<open>After \<open>dict_grow\<close> there is room: the invariant, a non-empty table, and a load below 3/4.\<close>

definition dict_room :: "'v dict \<Rightarrow> bool" where
  "dict_room d = ((\<exists>k>0. dsize d = 2 ^ k) \<and> table_ok (dseed d) (dsize d) (dtable d) \<and>
     dused d = length (concat (dtable d)) \<and> dused d * LOAD_FACTOR_DEN < dsize d * LOAD_FACTOR_NUM)"

lemma dict_grow_room:
  assumes "dict_ok d"
  shows "dict_room (dict_grow d) \<and> dict_map (dict_grow d) = dict_map d \<and>
         dseed (dict_grow d) = dseed d \<and> dused (dict_grow d) = dused d"
proof -
  have t: "table_ok (dseed d) (dsize d) (dtable d)" and u: "dused d = length (concat (dtable d))"
    using assms by (auto simp: dict_ok_def)
  consider (zero) "dsize d = 0" | (grow) k where "k > 0" "dsize d = 2 ^ k"
    "dused d * LOAD_FACTOR_DEN \<ge> dsize d * LOAD_FACTOR_NUM"
    | (keep) k where "k > 0" "dsize d = 2 ^ k" "dused d * LOAD_FACTOR_DEN < dsize d * LOAD_FACTOR_NUM"
    using assms unfolding dict_ok_def by (metis not_le)
  then show ?thesis
  proof cases
    case zero
    then have d0: "dused d = 0" using t u by (simp add: table_ok_def)
    have p: "INITIAL_SIZE = 2 ^ 4" by (simp add: INITIAL_SIZE_def)
    show ?thesis
      using zero d0 u [symmetric] dict_resize_ok [OF t p] dict_map_resize [OF t p]
      unfolding dict_grow_def dict_room_def p LOAD_FACTOR_NUM_def LOAD_FACTOR_DEN_def
      by (auto intro: exI [of _ 4] simp del: length_concat)
  next
    case grow
    then have p: "dsize d * 2 = 2 ^ Suc k" by simp
    have "2 \<le> (2::nat) ^ k" using \<open>k > 0\<close> by (cases k) auto
    then have load: "dused d * LOAD_FACTOR_DEN < dsize d * 2 * LOAD_FACTOR_NUM"
      using assms grow by (auto simp: dict_ok_def LOAD_FACTOR_NUM_def LOAD_FACTOR_DEN_def)
    have nz: "dsize d \<noteq> 0" using grow by simp
    then have "dict_grow d = dict_resize d (dsize d * 2)" using grow by (simp add: dict_grow_def)
    moreover have "\<exists>k>0. dsize d * 2 = 2 ^ k" using p by blast
    ultimately show ?thesis
      using load u dict_resize_ok [OF t p] dict_map_resize [OF t p] by (auto simp: dict_room_def)
  next
    case keep
    then show ?thesis using t u by (auto simp: dict_grow_def dict_room_def)
  qed
qed


section \<open>Correctness of the operations\<close>

lemma dict_room_bucket:
  assumes "dict_room d"
  shows "key_bucket (dseed d) (dsize d) k < dsize d"
  using assms key_bucket_less by (auto simp: dict_room_def)

lemma dict_ok_create: "dict_ok (dict_create seed)"
  by (simp add: dict_ok_def dict_create_def table_ok_def LOAD_FACTOR_DEN_def)

lemma dict_map_create [simp]: "dict_map (dict_create seed) = Map.empty"
  by (simp add: dict_map_def dict_pairs_def dict_create_def)

lemma dict_ok_bucket:
  assumes "dict_ok d" "dsize d \<noteq> 0"
  shows "key_bucket (dseed d) (dsize d) k < dsize d"
  using assms key_bucket_less by (auto simp: dict_ok_def)

lemma dict_get_correct:
  assumes "dict_ok d"
  shows "dict_get d key = dict_map d key"
proof (cases "dsize d = 0")
  case True
  then show ?thesis
    using assms by (simp add: dict_get_def dict_map_def dict_pairs_def dict_ok_def table_ok_def)
next
  case False
  let ?i = "key_bucket (dseed d) (dsize d) key"
  have t: "table_ok (dseed d) (dsize d) (dtable d)" using assms by (simp add: dict_ok_def)
  have i: "?i < dsize d" by (rule dict_ok_bucket [OF assms False])
  have "dict_get d key = map_of (map pair_of (dtable d ! ?i)) key"
    using False chain_get [OF table_ok_hashes [OF t i]]
    by (simp add: dict_get_def key_bucket_def Let_def)
  then show ?thesis
    using table_map_of [OF t refl i] by (simp add: dict_map_def dict_pairs_def)
qed

text \<open>Replacing one chain changes the abstract map only at the keys of that bucket.\<close>

lemma table_map_update:
  assumes t: "table_ok seed n t" and c: "chain_ok seed n i c" and "i < n" "n = 2 ^ k"
  shows "map_of (map pair_of (concat (t[i := c]))) key =
    (if key_bucket seed n key = i then map_of (map pair_of c) key
     else map_of (map pair_of (concat t)) key)"
proof -
  have b: "key_bucket seed n key < n" by (simp add: assms(4) key_bucket_less)
  have "i < length t" using t \<open>i < n\<close> by (simp add: table_ok_def)
  then show ?thesis
    using table_map_of [OF table_ok_update [OF t c] refl b] table_map_of [OF t refl b]
    by (auto simp: nth_list_update)
qed

lemma table_replace:
  assumes t: "table_ok seed n tab" and k: "n = 2 ^ k" and i: "i = key_bucket seed n key"
    and cs: "chain_set key (dict_hash key seed) val (tab ! i) = Some (old, c')"
  shows "table_ok seed n (tab[i := c'])"
    and "length (concat (tab[i := c'])) = length (concat tab)"
    and "map_of (map pair_of (concat tab)) key = Some old"
    and "map_of (map pair_of (concat (tab[i := c']))) = (map_of (map pair_of (concat tab)))(key \<mapsto> val)"
proof -
  have il: "i < n" "i < length tab" using t i k key_bucket_less by (auto simp: table_ok_def)
  have h: "\<forall>e\<in>set (tab ! i). ehash e = dict_hash (ekey e) seed" by (rule table_ok_hashes [OF t il(1)])
  note c = chain_set_Some [OF h cs]
  have ce: "chain_ok seed n i c'"
    using t il c unfolding table_ok_def chain_ok_def
    by (metis (no_types, lifting) in_set_conv_nth length_map nth_map)
  then show "table_ok seed n (tab[i := c'])" using table_ok_update [OF t] by blast
  have "length c' = length (tab ! i)" using c by (metis length_map)
  then show "length (concat (tab[i := c'])) = length (concat tab)"
    by (simp add: concat_list_update [OF il(2)] concat_nth_split [OF il(2)])
  show "map_of (map pair_of (concat tab)) key = Some old"
    using table_map_of [OF t i [symmetric] il(1)] c by simp
  show "map_of (map pair_of (concat (tab[i := c']))) = (map_of (map pair_of (concat tab)))(key \<mapsto> val)"
  proof
    fix k'
    show "map_of (map pair_of (concat (tab[i := c']))) k' =
        ((map_of (map pair_of (concat tab)))(key \<mapsto> val)) k'"
      using table_map_update [OF t ce il(1) k, of k'] table_map_of [OF t refl, of k'] il i c by auto
  qed
qed

lemma dict_set_correct:
  assumes "dict_ok d0"
  shows "fst (dict_set d0 key val) = dict_map d0 key \<and>
         dict_map (snd (dict_set d0 key val)) = (dict_map d0)(key \<mapsto> val) \<and>
         dict_ok (snd (dict_set d0 key val))"
proof -
  define d where "d = dict_grow d0"
  note g = dict_grow_room [OF assms, folded d_def]
  let ?i = "key_bucket (dseed d) (dsize d) key"
  let ?h = "dict_hash key (dseed d)"
  let ?c = "dtable d ! ?i"
  have room: "dict_room d" and map0: "dict_map d = dict_map d0" using g by simp_all
  have t: "table_ok (dseed d) (dsize d) (dtable d)" using room by (simp add: dict_room_def)
  obtain k where k: "k > 0" "dsize d = 2 ^ k" using room by (auto simp: dict_room_def)
  have i: "?i < dsize d" by (rule dict_room_bucket [OF room])
  then have il: "?i < length (dtable d)" using t by (simp add: table_ok_def)
  have h: "\<forall>e\<in>set ?c. ehash e = dict_hash (ekey e) (dseed d)" by (rule table_ok_hashes [OF t i])
  have co: "chain_ok (dseed d) (dsize d) ?i ?c" using t i by (simp add: table_ok_def)
  have cmap: "map_of (map pair_of ?c) key = dict_map d key"
    using table_map_of [OF t refl i] by (simp add: dict_map_def dict_pairs_def)
  show ?thesis
  proof (cases "chain_set key ?h val ?c")
    case None
    let ?e = "\<lparr>ekey = key, evalue = val, ehash = ?h\<rparr>"
    have new: "dict_set d0 key val =
        (None, d\<lparr>dtable := (dtable d)[?i := ?e # ?c], dused := dused d + 1\<rparr>)"
      using None by (simp add: dict_set_def d_def [symmetric] key_bucket_def Let_def)
    have notin: "key \<notin> set (map ekey ?c)" using chain_set_None [OF h] None by blast
    then have none: "dict_map d key = None"
      using cmap by (simp add: map_of_eq_None_iff image_image flip: cmap)
    have ce: "chain_ok (dseed d) (dsize d) ?i (?e # ?c)"
      using co notin by (auto simp: chain_ok_Cons)
    have "length (concat ((dtable d)[?i := ?e # ?c])) = Suc (length (concat (dtable d)))"
      by (simp add: concat_list_update [OF il] concat_nth_split [OF il])
    then have ok: "dict_ok (snd (dict_set d0 key val))"
      using room k table_ok_update [OF t ce] unfolding new dict_ok_def dict_room_def
      by (auto simp: LOAD_FACTOR_NUM_def LOAD_FACTOR_DEN_def)
    have "dict_map (snd (dict_set d0 key val)) k' = ((dict_map d)(key \<mapsto> val)) k'" for k'
      using table_map_update [OF t ce i k(2), of k'] table_map_of [OF t refl, of k'] i
      unfolding new dict_map_def dict_pairs_def by (auto simp: pair_of_def)
    with ok none map0 new show ?thesis by (auto simp: fun_eq_iff)
  next
    case (Some r)
    obtain old c' where r: "r = (old, c')" by fastforce
    have new: "dict_set d0 key val = (Some old, d\<lparr>dtable := (dtable d)[?i := c']\<rparr>)"
      using Some r by (simp add: dict_set_def d_def [symmetric] key_bucket_def Let_def)
    note rep = table_replace [OF t k(2) refl Some [unfolded r]]
    have ok: "dict_ok (snd (dict_set d0 key val))"
      using room k rep(1,2) unfolding new dict_ok_def dict_room_def
      by (auto simp: LOAD_FACTOR_NUM_def LOAD_FACTOR_DEN_def)
    with rep(3,4) map0 new show ?thesis
      by (simp add: dict_map_def dict_pairs_def)
  qed
qed

lemma dict_delete_correct:
  assumes "dict_ok d"
  shows "fst (dict_delete d key) = dict_map d key \<and>
         dict_map (snd (dict_delete d key)) = (dict_map d)(key := None) \<and>
         dict_ok (snd (dict_delete d key))"
proof (cases "dsize d = 0")
  case True
  then have "dict_map d = Map.empty"
    using assms by (simp add: dict_map_def dict_pairs_def dict_ok_def table_ok_def)
  with True assms show ?thesis by (simp add: dict_delete_def)
next
  case False
  let ?i = "key_bucket (dseed d) (dsize d) key"
  let ?h = "dict_hash key (dseed d)"
  let ?c = "dtable d ! ?i"
  have t: "table_ok (dseed d) (dsize d) (dtable d)" using assms by (simp add: dict_ok_def)
  obtain k where k: "k > 0" "dsize d = 2 ^ k" using assms False by (auto simp: dict_ok_def)
  have i: "?i < dsize d" by (rule dict_ok_bucket [OF assms False])
  then have il: "?i < length (dtable d)" using t by (simp add: table_ok_def)
  have h: "\<forall>e\<in>set ?c. ehash e = dict_hash (ekey e) (dseed d)" by (rule table_ok_hashes [OF t i])
  have co: "chain_ok (dseed d) (dsize d) ?i ?c" using t i by (simp add: table_ok_def)
  have cmap: "map_of (map pair_of ?c) key = dict_map d key"
    using table_map_of [OF t refl i] by (simp add: dict_map_def dict_pairs_def)
  show ?thesis
  proof (cases "chain_delete key ?h ?c")
    case None
    then have "dict_map d key = None"
      using chain_delete_None [OF h] by (simp add: map_of_eq_None_iff image_image flip: cmap)
    moreover have "dict_delete d key = (None, d)"
      using None False by (simp add: dict_delete_def key_bucket_def Let_def)
    ultimately show ?thesis using assms by (simp add: fun_upd_idem)
  next
    case (Some r)
    obtain val c' where r: "r = (val, c')" by fastforce
    have new: "dict_delete d key =
        (Some val, d\<lparr>dtable := (dtable d)[?i := c'], dused := dused d - 1\<rparr>)"
      using Some r False by (simp add: dict_delete_def key_bucket_def Let_def)
    obtain e us vs where c: "?c = us @ e # vs" "c' = us @ vs" "ekey e = key" "evalue e = val"
      "key \<notin> set (map ekey us)"
      using chain_delete_Some [OF h, of key val c'] Some r by auto
    have ce: "chain_ok (dseed d) (dsize d) ?i c'" using co unfolding chain_ok_def c by auto
    have kvs: "key \<notin> ekey ` set vs" using co c by (auto simp: chain_ok_def)
    have len: "length (concat (dtable d)) = Suc (length (concat ((dtable d)[?i := c'])))"
      by (simp only: concat_list_update [OF il] concat_nth_split [OF il] c) simp
    have ok: "dict_ok (snd (dict_delete d key))"
      using assms k table_ok_update [OF t ce] len unfolding new dict_ok_def
      by (auto simp: LOAD_FACTOR_NUM_def LOAD_FACTOR_DEN_def simp del: length_concat)
    have usn: "map_of (map pair_of us) key = None" and vsn: "map_of (map pair_of vs) key = None"
      using c kvs by (simp_all add: map_of_eq_None_iff image_image)
    have pe: "pair_of e = (key, val)" using c by (simp add: pair_of_def)
    have m1: "map_of (map pair_of ?c) k' = (if k' = key then Some val else map_of (map pair_of c') k')" for k'
      using usn vsn pe c by (auto simp: map_add_def split: option.split)
    have m2: "map_of (map pair_of c') key = None"
      using usn vsn c by (simp add: map_add_def)
    have "dict_map (snd (dict_delete d key)) k' = ((dict_map d)(key := None)) k'" for k'
      using table_map_update [OF t ce i k(2), of k'] table_map_of [OF t refl, of k'] i m1 [of k'] m2
      unfolding new dict_map_def dict_pairs_def by auto
    with ok m1 [of key] cmap new show ?thesis by (auto simp: fun_eq_iff)
  qed
qed

lemma dict_size_correct: "dict_ok d \<Longrightarrow> dict_size d = length (dict_pairs d)"
  by (simp add: dict_size_def dict_ok_def dict_pairs_def)

lemma dict_pairs_distinct: "dict_ok d \<Longrightarrow> distinct (map fst (dict_pairs d))"
  using table_distinct by (auto simp: dict_ok_def dict_pairs_def)


section \<open>Iteration\<close>

text \<open>What is left to visit from an iterator state.\<close>

definition iter_rest :: "'v dict \<Rightarrow> 'v dict_iter \<Rightarrow> 'v dict_entry list" where
  "iter_rest d it =
     (if ichain it = [] then concat (drop (ibucket it) (dtable d))
      else tl (ichain it) @ concat (drop (Suc (ibucket it)) (dtable d)))"

lemma iter_scan_rest:
  assumes "length (dtable d) = dsize d"
  shows "case iter_scan d b of
           (None, it) \<Rightarrow> concat (drop b (dtable d)) = []
         | (Some e, it) \<Rightarrow> concat (drop b (dtable d)) = e # iter_rest d it"
  using assms
proof (induction d b rule: iter_scan.induct)
  case (1 d b)
  show ?case
  proof (cases "b < dsize d")
    case True
    then have dr: "drop b (dtable d) = dtable d ! b # drop (Suc b) (dtable d)"
      using 1(2) by (simp add: Cons_nth_drop_Suc)
    show ?thesis
    proof (cases "dtable d ! b")
      case Nil
      then have "iter_scan d b = iter_scan d (Suc b)"
        "concat (drop b (dtable d)) = concat (drop (Suc b) (dtable d))"
        using True dr by (simp_all add: iter_scan.simps [of d b])
      with 1(1) [OF True Nil] 1(2) show ?thesis by (simp only:)
    next
      case (Cons e es)
      with True dr show ?thesis by (simp add: iter_scan.simps [of d b] iter_rest_def)
    qed
  next
    case False
    with 1(2) show ?thesis by (simp add: iter_scan.simps [of d b])
  qed
qed

lemma dict_iter_next_rest:
  assumes "length (dtable d) = dsize d"
  shows "case dict_iter_next d it of
           (None, it') \<Rightarrow> iter_rest d it = []
         | (Some e, it') \<Rightarrow> iter_rest d it = e # iter_rest d it'"
proof -
  consider "ichain it = []" | x where "ichain it = [x]" | x e es where "ichain it = x # e # es"
    by (metis neq_Nil_conv)
  then show ?thesis
  proof cases
    case 1
    then show ?thesis using iter_scan_rest [OF assms, of "ibucket it"]
      by (auto simp: dict_iter_next_def iter_rest_def [of d it] split: prod.splits option.splits)
  next
    case 2
    then show ?thesis using iter_scan_rest [OF assms, of "Suc (ibucket it)"]
      by (auto simp: dict_iter_next_def iter_rest_def [of d it] split: prod.splits option.splits)
  next
    case 3
    then show ?thesis by (simp add: dict_iter_next_def iter_rest_def)
  qed
qed

lemma iter_collect_rest:
  assumes "length (dtable d) = dsize d"
  shows "length (iter_rest d it) < n \<Longrightarrow> iter_collect n d it = iter_rest d it"
proof (induction n arbitrary: it)
  case (Suc n)
  then show ?case
    using dict_iter_next_rest [OF assms, of it]
    by (auto split: prod.splits option.splits)
qed simp

text \<open>The iterator visits every chain in bucket order and then stops.\<close>

lemma dict_entries_eq: "dict_ok d \<Longrightarrow> dict_entries d = concat (dtable d)"
  using iter_collect_rest [of d dict_iter_init "Suc (length (concat (dtable d)))"]
  by (simp add: dict_entries_def dict_ok_def table_ok_def iter_rest_def dict_iter_init_def
      del: iter_collect.simps)

lemma pairs_of_entries: "dict_ok d \<Longrightarrow> map pair_of (dict_entries d) = dict_pairs d"
  by (simp add: dict_entries_eq dict_pairs_def)


section \<open>Random choice\<close>

lemma reservoir_in:
  "fst (reservoir rand pos i pick es) \<in> insert pick (Some ` set es)"
  by (induction rand pos i pick es rule: reservoir.induct) auto

lemma dict_random_entry_correct:
  assumes "dict_ok d"
  shows "case fst (dict_random_entry rand pos d) of
           None \<Rightarrow> dict_map d = Map.empty
         | Some e \<Rightarrow> dict_map d (ekey e) = Some (evalue e) \<and> e \<in> set (concat (dtable d))"
proof (cases "concat (dtable d)")
  case Nil
  with assms show ?thesis
    by (simp add: dict_random_entry_def dict_ok_def dict_map_def dict_pairs_def del: concat_eq_Nil_conv)
next
  case (Cons e es)
  then have u: "dused d \<noteq> 0" using assms by (simp add: dict_ok_def del: length_concat)
  have "fst (reservoir rand pos 0 None (concat (dtable d))) \<in> Some ` set (concat (dtable d))"
    using reservoir_in [of rand "Suc pos" "Suc 0" "Some e" es] by (auto simp: Cons)
  then obtain x where x: "x \<in> set (concat (dtable d))" "fst (dict_random_entry rand pos d) = Some x"
    using u by (auto simp: dict_random_entry_def)
  then have "(ekey x, evalue x) \<in> set (dict_pairs d)" by (auto simp: dict_pairs_def pair_of_def)
  then have "dict_map d (ekey x) = Some (evalue x)"
    using dict_pairs_distinct [OF assms] by (simp add: dict_map_def)
  with x show ?thesis by simp
qed

section \<open>The table as a string-keyed store\<close>

lemma dict_get_map: "dict_ok d \<Longrightarrow> dict_get d = dict_map d"
  using dict_get_correct by blast

lemma dict_set_eqs:
  assumes "dict_ok d"
  shows "fst (dict_set d k v) = dict_get d k"
    and "dict_get (snd (dict_set d k v)) = (dict_get d)(k \<mapsto> v)"
    and "dict_ok (snd (dict_set d k v))"
  using dict_set_correct [OF assms, of k v] assms by (simp_all add: dict_get_map)

lemma dict_delete_eqs:
  assumes "dict_ok d"
  shows "fst (dict_delete d k) = dict_get d k"
    and "dict_get (snd (dict_delete d k)) = (dict_get d)(k := None)"
    and "dict_ok (snd (dict_delete d k))"
  using dict_delete_correct [OF assms, of k] assms by (simp_all add: dict_get_map)

lemma dict_pairs_get: "dict_ok d \<Longrightarrow> map_of (dict_pairs d) = dict_get d"
  by (simp add: dict_get_map dict_map_def)

lemma dict_assign_eqs:
  assumes ok: "dict_ok d" and old: "dict_get d k = Some w"
  shows "dict_get (dict_assign d k v) = (dict_get d)(k \<mapsto> v)" and "dict_ok (dict_assign d k v)"
proof -
  let ?i = "key_bucket (dseed d) (dsize d) k"
  have t: "table_ok (dseed d) (dsize d) (dtable d)" and n0: "dsize d \<noteq> 0"
    using ok old by (auto simp: dict_ok_def dict_get_def)
  then obtain e where e: "dsize d = 2 ^ e" using ok by (auto simp: dict_ok_def)
  have i: "?i < dsize d" by (simp add: e key_bucket_less)
  have "map_of (map pair_of (dtable d ! ?i)) k = Some w"
    using old table_map_of [OF t refl i] unfolding dict_get_map [OF ok]
    by (simp add: dict_map_def dict_pairs_def)
  then have "k \<in> fst ` set (map pair_of (dtable d ! ?i))"
    by (metis domI dom_map_of_conv_image_fst)
  then have "k \<in> set (map ekey (dtable d ! ?i))" by (simp add: image_image)
  then have "chain_set k (dict_hash k (dseed d)) v (dtable d ! ?i) \<noteq> None"
    using chain_set_None [OF table_ok_hashes [OF t i], of k v] by simp
  then obtain old' c' where cs: "chain_set k (dict_hash k (dseed d)) v (dtable d ! ?i) = Some (old', c')"
    by (cases "chain_set k (dict_hash k (dseed d)) v (dtable d ! ?i)") auto
  note rep = table_replace [OF t e refl cs]
  have eq: "dict_assign d k v = d\<lparr>dtable := (dtable d)[?i := c']\<rparr>"
    using cs n0 by (simp add: dict_assign_def Let_def key_bucket_def)
  show ok': "dict_ok (dict_assign d k v)"
    using ok rep(1,2) unfolding eq dict_ok_def by (elim conjE) simp
  show "dict_get (dict_assign d k v) = (dict_get d)(k \<mapsto> v)"
    unfolding dict_get_map [OF ok] dict_get_map [OF ok'] using rep(4)
    by (simp add: eq dict_map_def dict_pairs_def)
qed

interpretation ds: kv_store dict_get dict_set dict_delete dict_pairs dict_size dict_ok
  by unfold_locales
    (simp_all add: dict_set_eqs dict_delete_eqs dict_pairs_distinct dict_size_correct dict_pairs_get)

lemma dict_create_eqs [simp]:
  "dict_get (dict_create s) = Map.empty" "dict_ok (dict_create s)" "dict_size (dict_create s) = 0"
  by (simp_all add: dict_get_map dict_ok_create dict_size_def) (simp add: dict_create_def)

lemma dict_entries_iff:
  "dict_ok d \<Longrightarrow> (k, v) \<in> set (map pair_of (dict_entries d)) \<longleftrightarrow> dict_get d k = Some v"
  by (simp only: pairs_of_entries ds.pairs_iff)

lemma dict_entries_set:
  "dict_ok d \<Longrightarrow> set (map pair_of (dict_entries d)) = {(k, v). dict_get d k = Some v}"
  by (simp only: pairs_of_entries set_eq_iff split_paired_All ds.pairs_iff mem_Collect_eq prod.case
      simp_thms)

lemma dict_entries_distinct: "dict_ok d \<Longrightarrow> distinct (map ekey (dict_entries d))"
  using ds.pairs_distinct [of d] by (metis map_fst_pair_of(1) pairs_of_entries)

lemma dict_load: "dict_ok d \<Longrightarrow> 4 * dict_size d < 3 * dsize d + 4"
  by (simp add: dict_ok_def dict_size_def LOAD_FACTOR_DEN_def LOAD_FACTOR_NUM_def)

section \<open>Runs of operations\<close>

text \<open>
  A client's view of a table is a sequence of calls and their results. The same sequence on a
  finite map is the specification.
\<close>

datatype 'v dict_op = Op_set bytes 'v | Op_delete bytes | Op_get bytes

fun dict_step :: "'v dict_op \<Rightarrow> 'v dict \<Rightarrow> 'v option \<times> 'v dict" where
  "dict_step (Op_set k v) d = dict_set d k v"
| "dict_step (Op_delete k) d = dict_delete d k"
| "dict_step (Op_get k) d = (dict_get d k, d)"

fun map_step :: "'v dict_op \<Rightarrow> (bytes \<Rightarrow> 'v option) \<Rightarrow> 'v option \<times> (bytes \<Rightarrow> 'v option)" where
  "map_step (Op_set k v) m = (m k, m(k \<mapsto> v))"
| "map_step (Op_delete k) m = (m k, m(k := None))"
| "map_step (Op_get k) m = (m k, m)"

lemma dict_step_refines:
  "dict_ok d \<Longrightarrow>
     map_step x (dict_get d) = (fst (dict_step x d), dict_get (snd (dict_step x d))) \<and>
     dict_ok (snd (dict_step x d))"
  by (cases x) (simp_all add: dict_set_eqs dict_delete_eqs)

lemma dict_run_refines:
  "dict_ok d \<Longrightarrow>
     run_ops map_step ops (dict_get d) =
       (fst (run_ops dict_step ops d), dict_get (snd (run_ops dict_step ops d))) \<and>
     dict_ok (snd (run_ops dict_step ops d))"
proof (induction ops arbitrary: d)
  case (Cons x ops)
  obtain r d' where step: "dict_step x d = (r, d')" by fastforce
  with dict_step_refines [OF Cons.prems, of x]
  have "map_step x (dict_get d) = (r, dict_get d')" and ok: "dict_ok d'" by simp_all
  with step Cons.IH [OF ok] show ?case by (simp add: split_def)
qed simp

text \<open>
  C12. Any sequence of \<open>dict_set\<close>, \<open>dict_delete\<close> and \<open>dict_get\<close> on a fresh table, whatever its
  seed, returns exactly what a finite map returns and ends in a table that represents the map's
  final state: lookups agree, \<open>dict_size\<close> is the number of keys, the iterator visits every
  binding once and nothing else, and the load stays within one entry of three quarters of the
  buckets, through every rehash on the way.
\<close>

theorem dict_run_correct:
  "let (results, d) = run_ops dict_step ops (dict_create seed);
       (expected, m) = run_ops map_step ops Map.empty
   in results = expected \<and>
      dict_get d = m \<and>
      dict_size d = card (dom m) \<and>
      distinct (map ekey (dict_entries d)) \<and>
      set (map pair_of (dict_entries d)) = {(k, v). m k = Some v} \<and>
      4 * dict_size d < 3 * dsize d + 4"
proof -
  obtain results d where run: "run_ops dict_step ops (dict_create seed) = (results, d)" by fastforce
  have "run_ops map_step ops Map.empty = (results, dict_get d) \<and> dict_ok d"
    using dict_run_refines [OF dict_create_eqs(2), of ops seed] run by simp
  with run dict_load [of d] show ?thesis
    by (simp add: dict_entries_set dict_entries_distinct ds.count_card del: set_map)
qed

end
