(* ===== verification/Double.thy ===== *)
theory Double
  imports Prelude
begin

unbundle bit_operations_syntax

text \<open>
  The C type \<open>double\<close>, an IEEE 754 binary64 value kept as its 64 bits. The order of the values that
  are numbers is the order of the signed magnitudes, which identifies the two zeros; every
  comparison with a NaN is false.
\<close>

type_synonym double = "64 word"

definition d_sign :: "double \<Rightarrow> bool" where
  "d_sign d = bit d 63"

definition d_mag :: "double \<Rightarrow> nat" where
  "d_mag d = unat (d AND 0x7FFFFFFFFFFFFFFF)"

definition d_inf_mag :: nat where "d_inf_mag = 0x7FF0000000000000"

definition d_isnan :: "double \<Rightarrow> bool" where
  "d_isnan d = (d_inf_mag < d_mag d)"

definition d_ord :: "double \<Rightarrow> int" where
  "d_ord d = (if d_sign d then - int (d_mag d) else int (d_mag d))"

text \<open>The C operators \<open>==\<close> and \<open><\<close>.\<close>

definition d_eq :: "double \<Rightarrow> double \<Rightarrow> bool" where
  "d_eq a b = (\<not> d_isnan a \<and> \<not> d_isnan b \<and> d_ord a = d_ord b)"

definition d_less :: "double \<Rightarrow> double \<Rightarrow> bool" where
  "d_less a b = (\<not> d_isnan a \<and> \<not> d_isnan b \<and> d_ord a < d_ord b)"

lemma d_eq_refl: "d_eq a a \<longleftrightarrow> \<not> d_isnan a"
  by (simp add: d_eq_def)

lemma d_trichotomy:
  "\<not> d_isnan a \<Longrightarrow> \<not> d_isnan b \<Longrightarrow> d_less a b \<or> d_eq a b \<or> d_less b a"
  by (auto simp: d_less_def d_eq_def)

lemma d_less_ord: "\<not> d_isnan a \<Longrightarrow> \<not> d_isnan b \<Longrightarrow> d_less a b \<longleftrightarrow> d_ord a < d_ord b"
  by (simp add: d_less_def)

lemma d_eq_ord: "\<not> d_isnan a \<Longrightarrow> \<not> d_isnan b \<Longrightarrow> d_eq a b \<longleftrightarrow> d_ord a = d_ord b"
  by (simp add: d_eq_def)

end
