(* ===== verification/Zskiplist.thy ===== *)
theory Zskiplist
  imports Double
begin

text \<open>
  The skip list of \<open>src/zskiplist.c\<close>, with spans, which keeps the members of a sorted set in
  order. As in \<open>Linked_List\<close>, a skip list carries the store
  of its own nodes, the header among them. Spans and ranks (\<open>unsigned long\<close>) are integers. The
  search loops run along forward pointers and are given the list's length as a bound on their steps.
\<close>

section \<open>The skip list\<close>

definition ZSKIPLIST_MAXLEVEL :: nat where "ZSKIPLIST_MAXLEVEL = 32"

text \<open>\<open>(unsigned)(ZSKIPLIST_P * 0xFFFF)\<close> with \<open>ZSKIPLIST_P\<close> = 0.25.\<close>

definition ZSKIPLIST_THRESHOLD :: nat where "ZSKIPLIST_THRESHOLD = 16383"

record zlevel =
  forward :: "nat option"
  span :: int

record znode =
  zmember :: bytes
  zscore :: double
  backward :: "nat option"
  levels :: "zlevel list"

record zskiplist =
  znodes :: "nat \<Rightarrow> znode option"
  zfresh :: nat
  zheader :: nat
  ztail :: "nat option"
  zlength :: nat
  zlevels :: nat

text \<open>\<open>member_cmp (...) < 0\<close>: bytes compare as \<open>unsigned char\<close>, a proper prefix comes first.\<close>

fun member_less :: "bytes \<Rightarrow> bytes \<Rightarrow> bool" where
  "member_less [] [] = False"
| "member_less [] (b # bs) = True"
| "member_less (a # as) [] = False"
| "member_less (a # as) (b # bs) = (if a = b then member_less as bs else uchar a < uchar b)"

text \<open>The level of a new node: \<open>rand i\<close> is the \<open>i\<close>-th result of \<open>rand()\<close>.\<close>

function random_level_loop :: "(nat \<Rightarrow> nat) \<Rightarrow> nat \<Rightarrow> nat \<Rightarrow> nat \<times> nat" where
  "random_level_loop rand pos level =
     (if level < ZSKIPLIST_MAXLEVEL then
        if rand pos mod 2 ^ 16 < ZSKIPLIST_THRESHOLD then random_level_loop rand (Suc pos) (Suc level)
        else (level, Suc pos)
      else (level, pos))"
  by pat_completeness auto
termination
  by (relation "measure (\<lambda>(rand, pos, level). ZSKIPLIST_MAXLEVEL - level)") auto

declare random_level_loop.simps [simp del]

definition zsl_random_level :: "(nat \<Rightarrow> nat) \<Rightarrow> nat \<Rightarrow> nat \<times> nat" where
  "zsl_random_level rand pos = random_level_loop rand pos 1"

definition znode_of :: "zskiplist \<Rightarrow> nat \<Rightarrow> znode" where
  "znode_of z a = the (znodes z a)"

definition level_of :: "zskiplist \<Rightarrow> nat \<Rightarrow> nat \<Rightarrow> zlevel" where
  "level_of z a i = levels (znode_of z a) ! i"

definition upd_node :: "zskiplist \<Rightarrow> nat \<Rightarrow> (znode \<Rightarrow> znode) \<Rightarrow> zskiplist" where
  "upd_node z a f = z\<lparr>znodes := (znodes z)(a \<mapsto> f (znode_of z a))\<rparr>"

text \<open>Assignments to \<open>a->level[i].forward\<close> and \<open>a->level[i].span\<close>.\<close>

definition upd_level :: "zskiplist \<Rightarrow> nat \<Rightarrow> nat \<Rightarrow> (zlevel \<Rightarrow> zlevel) \<Rightarrow> zskiplist" where
  "upd_level z a i f = upd_node z a (\<lambda>n. n\<lparr>levels := (levels n)[i := f (levels n ! i)]\<rparr>)"

definition empty_level :: zlevel where
  "empty_level = \<lparr>forward = None, span = 0\<rparr>"

definition zsl_create_node :: "zskiplist \<Rightarrow> nat \<Rightarrow> double \<Rightarrow> bytes \<Rightarrow> nat \<times> zskiplist" where
  "zsl_create_node z level score member =
     (zfresh z,
      z\<lparr>znodes := (znodes z)(zfresh z \<mapsto>
           \<lparr>zmember = member, zscore = score, backward = None, levels = replicate level empty_level\<rparr>),
        zfresh := zfresh z + 1\<rparr>)"

definition zsl_create :: zskiplist where
  "zsl_create =
     \<lparr>znodes = [0 \<mapsto> \<lparr>zmember = [], zscore = 0, backward = None,
                        levels = replicate ZSKIPLIST_MAXLEVEL empty_level\<rparr>],
      zfresh = 1, zheader = 0, ztail = None, zlength = 0, zlevels = 1\<rparr>"

definition zsl_len :: "zskiplist \<Rightarrow> nat" where
  "zsl_len z = zlength z"

text \<open>
  The \<open>while\<close> loop at one level, from node \<open>x\<close> having passed \<open>r\<close> nodes: follow the link while the
  node it leads to, and the count on arriving there, satisfy the condition.
\<close>

fun advance :: "nat \<Rightarrow> zskiplist \<Rightarrow> (znode \<Rightarrow> int \<Rightarrow> bool) \<Rightarrow> nat \<Rightarrow> nat \<Rightarrow> int \<Rightarrow> nat \<times> int" where
  "advance 0 z cond i x r = (x, r)"
| "advance (Suc fuel) z cond i x r =
     (case forward (level_of z x i) of
        None \<Rightarrow> (x, r)
      | Some y \<Rightarrow>
          if cond (znode_of z y) (r + span (level_of z x i))
          then advance fuel z cond i y (r + span (level_of z x i))
          else (x, r))"

text \<open>
  The \<open>for\<close> loop over the levels from the top: entry \<open>i\<close> of the result is \<open>(update[i], rank[i])\<close>.
\<close>

fun descend :: "zskiplist \<Rightarrow> (znode \<Rightarrow> int \<Rightarrow> bool) \<Rightarrow> nat \<Rightarrow> nat \<Rightarrow> int \<Rightarrow> (nat \<times> int) list" where
  "descend z cond 0 x r = []"
| "descend z cond (Suc i) x r =
     (case advance (zlength z) z cond i x r of (x', r') \<Rightarrow> descend z cond i x' r' @ [(x', r')])"

definition search_path :: "zskiplist \<Rightarrow> (znode \<Rightarrow> int \<Rightarrow> bool) \<Rightarrow> (nat \<times> int) list" where
  "search_path z cond = descend z cond (zlevels z) (zheader z) 0"

definition node_before :: "double \<Rightarrow> bytes \<Rightarrow> znode \<Rightarrow> bool" where
  "node_before score member n =
     (d_less (zscore n) score \<or> d_eq (zscore n) score \<and> member_less (zmember n) member)"

text \<open>
  Insertion. \<open>raise_levels\<close>: levels above the current one start at the header. \<open>link_level\<close>: the
  body of the loop over the levels of the new node \<open>x\<close>.
\<close>

definition raise_levels :: "zskiplist \<Rightarrow> nat \<Rightarrow> (nat \<times> int) list \<Rightarrow> (nat \<times> int) list \<times> zskiplist" where
  "raise_levels z level path =
     (if level > zlevels z then
        (path @ replicate (level - zlevels z) (zheader z, 0),
         (fold (\<lambda>i z. upd_level z (zheader z) i (\<lambda>l. l\<lparr>span := int (zlength z)\<rparr>))
            [zlevels z..<level] z)\<lparr>zlevels := level\<rparr>)
      else (path, z))"

definition link_level :: "(nat \<times> int) list \<Rightarrow> nat \<Rightarrow> nat \<Rightarrow> zskiplist \<Rightarrow> zskiplist" where
  "link_level path x i z =
     (let u = fst (path ! i); before = snd (path ! 0) - snd (path ! i);
          z1 = upd_level z x i (\<lambda>l. l\<lparr>forward := forward (level_of z u i)\<rparr>);
          z2 = upd_level z1 u i (\<lambda>l. l\<lparr>forward := Some x\<rparr>);
          z3 = upd_level z2 x i (\<lambda>l. l\<lparr>span := span (level_of z2 u i) - before\<rparr>)
      in upd_level z3 u i (\<lambda>l. l\<lparr>span := before + 1\<rparr>))"

definition zsl_insert ::
    "(nat \<Rightarrow> nat) \<Rightarrow> nat \<Rightarrow> zskiplist \<Rightarrow> double \<Rightarrow> bytes \<Rightarrow> nat \<times> zskiplist \<times> nat" where
  "zsl_insert rand pos z score member =
     (let path0 = search_path z (\<lambda>n r. node_before score member n) in
      case zsl_random_level rand pos of (level, pos') \<Rightarrow>
      case raise_levels z level path0 of (path, z1) \<Rightarrow>
      case zsl_create_node z1 level score member of (x, z2) \<Rightarrow>
        let z3 = fold (link_level path x) [0..<level] z2;
            z4 = fold (\<lambda>i z. upd_level z (fst (path ! i)) i (\<lambda>l. l\<lparr>span := span l + 1\<rparr>))
                   [level..<zlevels z3] z3;
            u0 = fst (path ! 0);
            z5 = upd_node z4 x (\<lambda>n. n\<lparr>backward := if u0 = zheader z4 then None else Some u0\<rparr>);
            z6 = (case forward (level_of z5 x 0) of
                    Some y \<Rightarrow> upd_node z5 y (\<lambda>n. n\<lparr>backward := Some x\<rparr>)
                  | None \<Rightarrow> z5\<lparr>ztail := Some x\<rparr>)
        in (x, z6\<lparr>zlength := zlength z6 + 1\<rparr>, pos'))"

text \<open>Deletion.\<close>

definition unlink_level :: "(nat \<times> int) list \<Rightarrow> nat \<Rightarrow> nat \<Rightarrow> zskiplist \<Rightarrow> zskiplist" where
  "unlink_level path x i z =
     (let u = fst (path ! i)
      in if forward (level_of z u i) = Some x
         then let z1 = upd_level z u i (\<lambda>l. l\<lparr>span := span l + (span (level_of z x i) - 1)\<rparr>)
              in upd_level z1 u i (\<lambda>l. l\<lparr>forward := forward (level_of z1 x i)\<rparr>)
         else upd_level z u i (\<lambda>l. l\<lparr>span := span l - 1\<rparr>))"

fun lower_levels :: "zskiplist \<Rightarrow> nat \<Rightarrow> nat" where
  "lower_levels z 0 = 0"
| "lower_levels z (Suc l) =
     (if Suc l > 1 \<and> forward (level_of z (zheader z) l) = None then lower_levels z l else Suc l)"

definition zsl_delete_node :: "zskiplist \<Rightarrow> nat \<Rightarrow> (nat \<times> int) list \<Rightarrow> zskiplist" where
  "zsl_delete_node z x path =
     (let z1 = fold (unlink_level path x) [0..<zlevels z] z;
          z2 = (case forward (level_of z1 x 0) of
                  Some y \<Rightarrow> upd_node z1 y (\<lambda>n. n\<lparr>backward := backward (znode_of z1 x)\<rparr>)
                | None \<Rightarrow> z1\<lparr>ztail := backward (znode_of z1 x)\<rparr>);
          z3 = z2\<lparr>zlevels := lower_levels z2 (zlevels z2)\<rparr>
      in z3\<lparr>zlength := zlength z3 - 1\<rparr>)"

definition zsl_free_node :: "zskiplist \<Rightarrow> nat \<Rightarrow> zskiplist" where
  "zsl_free_node z x = z\<lparr>znodes := (znodes z)(x := None)\<rparr>"

text \<open>The node after the end of the search, when it is the one looked for.\<close>

definition found_node :: "zskiplist \<Rightarrow> (nat \<times> int) list \<Rightarrow> double \<Rightarrow> bytes \<Rightarrow> nat option" where
  "found_node z path score member =
     (case forward (level_of z (fst (path ! 0)) 0) of
        None \<Rightarrow> None
      | Some x \<Rightarrow> if d_eq (zscore (znode_of z x)) score \<and> zmember (znode_of z x) = member
                  then Some x else None)"

definition zsl_delete :: "zskiplist \<Rightarrow> double \<Rightarrow> bytes \<Rightarrow> bool \<times> zskiplist" where
  "zsl_delete z score member =
     (let path = search_path z (\<lambda>n r. node_before score member n)
      in case found_node z path score member of
           Some x \<Rightarrow> (True, zsl_free_node (zsl_delete_node z x path) x)
         | None \<Rightarrow> (False, z))"

definition zsl_get_rank :: "zskiplist \<Rightarrow> double \<Rightarrow> bytes \<Rightarrow> int" where
  "zsl_get_rank z score member =
     (let path = search_path z (\<lambda>n r. node_before score member n)
      in case found_node z path score member of Some x \<Rightarrow> snd (path ! 0) + 1 | None \<Rightarrow> 0)"

fun rank_loop :: "zskiplist \<Rightarrow> int \<Rightarrow> nat \<Rightarrow> nat \<Rightarrow> int \<Rightarrow> nat option" where
  "rank_loop z rank 0 x traversed = None"
| "rank_loop z rank (Suc i) x traversed =
     (case advance (zlength z) z (\<lambda>n r. r \<le> rank) i x traversed of
        (x', t') \<Rightarrow> if t' = rank then Some x' else rank_loop z rank i x' t')"

definition zsl_get_element_by_rank :: "zskiplist \<Rightarrow> int \<Rightarrow> nat option" where
  "zsl_get_element_by_rank z rank =
     (if rank = 0 then None else rank_loop z rank (zlevels z) (zheader z) 0)"

definition zsl_first_in_score_range :: "zskiplist \<Rightarrow> double \<Rightarrow> bool \<Rightarrow> nat option" where
  "zsl_first_in_score_range z mn minex =
     (let path = search_path z (\<lambda>n r. d_less (zscore n) mn \<or> minex \<and> d_eq (zscore n) mn)
      in forward (level_of z (fst (path ! 0)) 0))"

definition zsl_last_in_score_range :: "zskiplist \<Rightarrow> double \<Rightarrow> bool \<Rightarrow> nat option" where
  "zsl_last_in_score_range z mx maxex =
     (let path = search_path z (\<lambda>n r. d_less (zscore n) mx \<or> \<not> maxex \<and> d_eq (zscore n) mx);
          x = fst (path ! 0)
      in if x = zheader z then None else Some x)"

section \<open>Nodes, heights and links\<close>

definition height :: "zskiplist \<Rightarrow> nat \<Rightarrow> nat" where
  "height z a = length (levels (znode_of z a))"

lemma node_field_upd [simp]:
  "znode_of (z\<lparr>zlevels := l\<rparr>) = znode_of z" "znode_of (z\<lparr>zlength := n\<rparr>) = znode_of z"
  "znode_of (z\<lparr>ztail := t\<rparr>) = znode_of z"
  "height (z\<lparr>zlevels := l\<rparr>) = height z" "height (z\<lparr>zlength := n\<rparr>) = height z"
  "height (z\<lparr>ztail := t\<rparr>) = height z"
  "level_of (z\<lparr>zlevels := l\<rparr>) = level_of z" "level_of (z\<lparr>zlength := n\<rparr>) = level_of z"
  "level_of (z\<lparr>ztail := t\<rparr>) = level_of z"
  by (simp_all add: fun_eq_iff znode_of_def height_def level_of_def)

lemma upd_level_fields [simp]:
  "zheader (upd_level z a i f) = zheader z" "zfresh (upd_level z a i f) = zfresh z"
  "ztail (upd_level z a i f) = ztail z" "zlength (upd_level z a i f) = zlength z"
  "zlevels (upd_level z a i f) = zlevels z"
  by (simp_all add: upd_level_def upd_node_def)

lemma upd_node_fields [simp]:
  "zheader (upd_node z a f) = zheader z" "zfresh (upd_node z a f) = zfresh z"
  "ztail (upd_node z a f) = ztail z" "zlength (upd_node z a f) = zlength z"
  "zlevels (upd_node z a f) = zlevels z"
  by (simp_all add: upd_node_def)

lemma znode_of_upd_node: "znode_of (upd_node z a f) b = (if b = a then f (znode_of z a) else znode_of z b)"
  by (simp add: upd_node_def znode_of_def)

lemma dom_upd [simp]:
  "dom (znodes (upd_node z a f)) = insert a (dom (znodes z))"
  "dom (znodes (upd_level z a i g)) = insert a (dom (znodes z))"
  by (simp_all add: upd_level_def upd_node_def)

lemma znode_of_upd_level [simp]:
  "zmember (znode_of (upd_level z a i f) b) = zmember (znode_of z b)"
  "zscore (znode_of (upd_level z a i f) b) = zscore (znode_of z b)"
  "backward (znode_of (upd_level z a i f) b) = backward (znode_of z b)"
  by (simp_all add: upd_level_def znode_of_upd_node)

lemma height_upd_level [simp]: "height (upd_level z a i f) b = height z b"
  by (simp add: height_def upd_level_def znode_of_upd_node)

lemma level_of_upd_level:
  "level_of (upd_level z a i f) b j =
     (if b = a \<and> j = i \<and> i < height z a then f (level_of z a i) else level_of z b j)"
  by (cases "i < height z a")
    (auto simp: level_of_def upd_level_def znode_of_upd_node height_def nth_list_update
      list_update_beyond)

text \<open>
  The link at level \<open>i\<close> of a node followed by the nodes \<open>ys\<close>, for node heights \<open>h\<close>: it leads to the
  first of them that reaches level \<open>i\<close>, and its span is the distance to it, or to the last node
  when there is none.
\<close>

fun first_with :: "(nat \<Rightarrow> nat) \<Rightarrow> nat \<Rightarrow> nat list \<Rightarrow> nat option" where
  "first_with h i [] = None"
| "first_with h i (a # as) = (if i < h a then Some a else first_with h i as)"

fun dist :: "(nat \<Rightarrow> nat) \<Rightarrow> nat \<Rightarrow> nat list \<Rightarrow> int" where
  "dist h i [] = 0"
| "dist h i (a # as) = (if i < h a then 1 else 1 + dist h i as)"

definition zlink :: "(nat \<Rightarrow> nat) \<Rightarrow> nat \<Rightarrow> nat list \<Rightarrow> zlevel" where
  "zlink h i ys = \<lparr>forward = first_with h i ys, span = dist h i ys\<rparr>"

lemma zlink_simps [simp]:
  "forward (zlink h i ys) = first_with h i ys" "span (zlink h i ys) = dist h i ys"
  by (simp_all add: zlink_def)

lemma first_with_append:
  "first_with h i (xs @ ys) = (case first_with h i xs of Some a \<Rightarrow> Some a | None \<Rightarrow> first_with h i ys)"
  by (induction xs) auto

lemma first_with_None: "first_with h i xs = None \<longleftrightarrow> (\<forall>a\<in>set xs. h a \<le> i)"
  by (induction xs) auto

lemma first_with_Some:
  "first_with h i xs = Some a \<Longrightarrow> \<exists>us vs. xs = us @ a # vs \<and> i < h a \<and> (\<forall>b\<in>set us. h b \<le> i)"
proof (induction xs)
  case (Cons b xs)
  show ?case
  proof (cases "i < h b")
    case True
    with Cons.prems show ?thesis by (intro exI [of _ "[]"] exI [of _ xs]) simp
  next
    case False
    with Cons obtain us vs where "xs = us @ a # vs" "i < h a" "\<forall>b\<in>set us. h b \<le> i" by auto
    with False show ?thesis by (intro exI [of _ "b # us"] exI [of _ vs]) simp
  qed
qed simp

lemma dist_low: "\<forall>a\<in>set xs. h a \<le> i \<Longrightarrow> dist h i (xs @ ys) = int (length xs) + dist h i ys"
  by (induction xs) auto

lemma dist_found: "i < h a \<Longrightarrow> \<forall>b\<in>set us. h b \<le> i \<Longrightarrow> dist h i (us @ a # vs) = int (length us) + 1"
  by (simp add: dist_low)

lemma dist_none: "\<forall>a\<in>set xs. h a \<le> i \<Longrightarrow> dist h i xs = int (length xs)"
  using dist_low [of xs h i "[]"] by simp

lemma zlink_cong: "(\<And>a. a \<in> set ys \<Longrightarrow> h a = h' a) \<Longrightarrow> zlink h i ys = zlink h' i ys"
proof -
  assume "\<And>a. a \<in> set ys \<Longrightarrow> h a = h' a"
  then have "first_with h i ys = first_with h' i ys \<and> dist h i ys = dist h' i ys"
    by (induction ys) auto
  then show ?thesis by (simp add: zlink_def)
qed

text \<open>
  A node that reaches level \<open>i\<close> later in the list hides what follows it.
\<close>

lemma zlink_hidden: "\<exists>b\<in>set xs. i < h b \<Longrightarrow> zlink h i (xs @ ys) = zlink h i xs"
proof -
  assume "\<exists>b\<in>set xs. i < h b"
  then have "first_with h i (xs @ ys) = first_with h i xs \<and> dist h i (xs @ ys) = dist h i xs"
    by (induction xs) auto
  then show ?thesis by (simp add: zlink_def)
qed

text \<open>All links of the nodes \<open>S\<close> (the header first) are right at the levels below \<open>m\<close>.\<close>

definition links_ok :: "zskiplist \<Rightarrow> nat \<Rightarrow> nat list \<Rightarrow> bool" where
  "links_ok z m S =
     (\<forall>xs a ys i. S = xs @ a # ys \<longrightarrow> i < height z a \<longrightarrow> i < m \<longrightarrow>
        level_of z a i = zlink (height z) i ys)"

lemma links_okD:
  "links_ok z m (xs @ a # ys) \<Longrightarrow> i < height z a \<Longrightarrow> i < m \<Longrightarrow>
   level_of z a i = zlink (height z) i ys"
  by (auto simp: links_ok_def)

section \<open>Searching\<close>

text \<open>
  \<open>reaches z i us x k\<close>: among the nodes \<open>us\<close>, the last one that reaches level \<open>i\<close> is \<open>x\<close>, at
  position \<open>k\<close>.
\<close>

definition reaches :: "zskiplist \<Rightarrow> nat \<Rightarrow> nat list \<Rightarrow> nat \<Rightarrow> int \<Rightarrow> bool" where
  "reaches z i us x k =
     (\<exists>as bs. us = as @ x # bs \<and> k = int (length as) \<and> i < height z x \<and> (\<forall>b\<in>set bs. height z b \<le> i))"

lemma reachesI:
  "us = as @ x # bs \<Longrightarrow> i < height z x \<Longrightarrow> \<forall>b\<in>set bs. height z b \<le> i \<Longrightarrow>
   reaches z i us x (int (length as))"
  by (auto simp: reaches_def)

text \<open>The search condition holds exactly on the positions of \<open>us\<close>, a prefix of \<open>us @ ws\<close>.\<close>

definition cuts :: "zskiplist \<Rightarrow> (znode \<Rightarrow> int \<Rightarrow> bool) \<Rightarrow> nat list \<Rightarrow> nat list \<Rightarrow> bool" where
  "cuts z cond us ws =
     (\<forall>xs a ys. us @ ws = xs @ a # ys \<longrightarrow> xs \<noteq> [] \<longrightarrow>
        (cond (znode_of z a) (int (length xs)) \<longleftrightarrow> length xs < length us))"

lemma cutsD:
  "cuts z cond us ws \<Longrightarrow> us @ ws = xs @ a # ys \<Longrightarrow> xs \<noteq> [] \<Longrightarrow>
   cond (znode_of z a) (int (length xs)) \<longleftrightarrow> length xs < length us"
  by (auto simp: cuts_def)

lemma advance_reaches:
  assumes "links_ok z m (us @ ws)" "cuts z cond us ws" "i < m"
  shows "us = as @ x # bs \<Longrightarrow> i < height z x \<Longrightarrow> length bs \<le> fuel \<Longrightarrow>
    reaches z i us (fst (advance fuel z cond i x (int (length as))))
      (snd (advance fuel z cond i x (int (length as))))"
proof (induction fuel arbitrary: as x bs)
  case 0
  then show ?case by (simp add: reachesI)
next
  case (Suc fuel)
  have lv: "level_of z x i = zlink (height z) i (bs @ ws)"
    using assms(1,3) Suc.prems by (intro links_okD [of z m as]) simp_all
  show ?case
  proof (cases "first_with (height z) i bs")
    case (Some y)
    then obtain cs ds where bs: "bs = cs @ y # ds" and y: "i < height z y" "\<forall>b\<in>set cs. height z b \<le> i"
      using first_with_Some by metis
    let ?as = "as @ x # cs"
    have us: "us = ?as @ y # ds" using Suc.prems bs by simp
    have fw: "forward (level_of z x i) = Some y" using lv Some by (simp add: first_with_append)
    have sp: "int (length as) + span (level_of z x i) = int (length ?as)"
      using lv bs y by (simp add: dist_found)
    have "cond (znode_of z y) (int (length ?as))"
      using cutsD [OF assms(2), of ?as y "ds @ ws"] us by simp
    then have "advance (Suc fuel) z cond i x (int (length as)) = advance fuel z cond i y (int (length ?as))"
      by (simp only: advance.simps fw option.case sp if_True)
    with Suc.IH [OF us y(1)] bs Suc.prems show ?thesis by simp
  next
    case None
    then have low: "\<forall>b\<in>set bs. height z b \<le> i" by (simp add: first_with_None)
    have "advance (Suc fuel) z cond i x (int (length as)) = (x, int (length as))"
    proof (cases "first_with (height z) i ws")
      case None
      with \<open>first_with (height z) i bs = None\<close> have "forward (level_of z x i) = None"
        using lv by (simp add: first_with_append)
      then show ?thesis by simp
    next
      case (Some y)
      then obtain cs ds where ws: "ws = cs @ y # ds" and y: "i < height z y" "\<forall>b\<in>set cs. height z b \<le> i"
        using first_with_Some by metis
      let ?as = "us @ cs"
      have fw: "forward (level_of z x i) = Some y"
        using lv None Some by (simp add: first_with_append)
      have "dist (height z) i ((bs @ cs) @ y # ds) = int (length (bs @ cs)) + 1"
        using low y by (intro dist_found) auto
      then have sp: "int (length as) + span (level_of z x i) = int (length ?as)"
        using lv ws Suc.prems by simp
      have "\<not> cond (znode_of z y) (int (length ?as))"
        using cutsD [OF assms(2), of ?as y ds] ws Suc.prems by simp
      then show ?thesis by (simp only: advance.simps fw option.case sp if_False)
    qed
    with low Suc.prems show ?thesis by (simp add: reachesI)
  qed
qed

lemma descend_reaches:
  assumes "links_ok z m (us @ ws)" "cuts z cond us ws" "length us \<le> Suc (zlength z)"
  shows "l \<le> m \<Longrightarrow> us = as @ x # bs \<Longrightarrow> l \<le> height z x \<Longrightarrow>
    length (descend z cond l x (int (length as))) = l \<and>
    (\<forall>i<l. reaches z i us (fst (descend z cond l x (int (length as)) ! i))
              (snd (descend z cond l x (int (length as)) ! i)))"
proof (induction l arbitrary: as x bs)
  case (Suc l)
  obtain x' r' where ad: "advance (zlength z) z cond l x (int (length as)) = (x', r')" by fastforce
  have "reaches z l us x' r'"
    using advance_reaches [OF assms(1,2), of l as x bs "zlength z"] Suc.prems assms(3) ad by simp
  then obtain as' bs' where r: "us = as' @ x' # bs'" "r' = int (length as')" "l < height z x'"
    and rch: "reaches z l us x' r'"
    by (auto simp: reaches_def)
  have "length (descend z cond l x' r') = l \<and>
      (\<forall>i<l. reaches z i us (fst (descend z cond l x' r' ! i)) (snd (descend z cond l x' r' ! i)))"
    using Suc.IH [of as' x' bs'] r Suc.prems by simp
  with ad rch show ?case by (auto simp: nth_append less_Suc_eq)
qed simp

section \<open>The order of the nodes\<close>

lemma member_less_lex: "member_less a b \<longleftrightarrow> map uchar a < map uchar b"
  by (induction a b rule: member_less.induct) auto

definition zkey_less :: "znode \<Rightarrow> znode \<Rightarrow> bool" where
  "zkey_less m n = node_before (zscore n) (zmember n) m"

definition zkey :: "double \<Rightarrow> bytes \<Rightarrow> int \<times> int list" where
  "zkey score member = (d_ord score, map uchar member)"

definition lex_less :: "int \<times> int list \<Rightarrow> int \<times> int list \<Rightarrow> bool" where
  "lex_less p q = (fst p < fst q \<or> fst p = fst q \<and> snd p < snd q)"

lemma lex_less_order:
  "\<not> lex_less p p" "lex_less p q \<Longrightarrow> lex_less q r \<Longrightarrow> lex_less p r"
  "lex_less p q \<or> p = q \<or> lex_less q p"
  by (auto simp: lex_less_def prod_eq_iff)

lemma node_before_key:
  "\<not> d_isnan score \<Longrightarrow> \<not> d_isnan (zscore n) \<Longrightarrow>
   node_before score member n \<longleftrightarrow> lex_less (zkey (zscore n) (zmember n)) (zkey score member)"
  by (simp add: node_before_def lex_less_def zkey_def d_less_def d_eq_def member_less_lex)

section \<open>The invariant\<close>

definition zsl_ok :: "zskiplist \<Rightarrow> nat list \<Rightarrow> bool" where
  "zsl_ok z ns =
     (distinct (zheader z # ns) \<and> dom (znodes z) = set (zheader z # ns) \<and>
      (\<forall>a\<in>set (zheader z # ns). a < zfresh z) \<and>
      zlength z = length ns \<and> 1 \<le> zlevels z \<and> zlevels z \<le> ZSKIPLIST_MAXLEVEL \<and>
      height z (zheader z) = ZSKIPLIST_MAXLEVEL \<and>
      (\<forall>a\<in>set ns. 1 \<le> height z a \<and> height z a \<le> zlevels z) \<and>
      links_ok z (zlevels z) (zheader z # ns) \<and>
      (\<forall>i<ZSKIPLIST_MAXLEVEL. zlevels z \<le> i \<longrightarrow> forward (level_of z (zheader z) i) = None) \<and>
      (\<forall>xs a ys. ns = xs @ a # ys \<longrightarrow>
         backward (znode_of z a) = (if xs = [] then None else Some (last xs))) \<and>
      ztail z = (if ns = [] then None else Some (last ns)) \<and>
      sorted_wrt (\<lambda>a b. zkey_less (znode_of z a) (znode_of z b)) ns \<and>
      (\<forall>a\<in>set ns. \<not> d_isnan (zscore (znode_of z a))))"

lemma cuts_prefix:
  assumes "\<forall>a\<in>set as. P (znode_of z a)" "\<forall>a\<in>set ws. \<not> P (znode_of z a)"
  shows "cuts z (\<lambda>n r. P n) (h # as) ws"
  unfolding cuts_def
proof (intro allI impI)
  fix xs a ys
  assume eq: "(h # as) @ ws = xs @ a # ys" and "xs \<noteq> []"
  then obtain xs' where xs: "xs = h # xs'" "as @ ws = xs' @ a # ys" by (cases xs) auto
  have a: "a = (as @ ws) ! length xs'" "length xs' < length (as @ ws)" by (simp_all add: xs(2))
  have "P (znode_of z a) \<longleftrightarrow> length xs' < length as"
  proof (cases "length xs' < length as")
    case True
    then have "a \<in> set as" using a by (simp add: nth_append)
    with True assms show ?thesis by blast
  next
    case False
    then have "a \<in> set ws" using a by (auto simp: nth_append)
    with False assms show ?thesis by blast
  qed
  then show "P (znode_of z a) \<longleftrightarrow> length xs < length (h # as)" by (simp add: xs(1))
qed

lemma cuts_rank:
  assumes "length us = Suc k \<or> ws = [] \<and> length us \<le> Suc k"
  shows "cuts z (\<lambda>n r. r \<le> int k) us ws"
  unfolding cuts_def
proof (intro allI impI)
  fix xs a ys
  assume "us @ ws = xs @ a # ys"
  then have "length us + length ws = Suc (length xs + length ys)" by (metis length_append add_Suc_right length_Cons)
  with assms show "int (length xs) \<le> int k \<longleftrightarrow> length xs < length us" by auto
qed

lemma split_at_nth:
  assumes "us = xs @ a # bs" "us = as @ u # cs" "length xs < length as"
  shows "u \<in> set bs"
proof -
  have u: "u = (xs @ a # bs) ! length as" unfolding assms(1) [symmetric] assms(2) by simp
  have len: "length as < length (xs @ a # bs)" unfolding assms(1) [symmetric] assms(2) by simp
  have "u = bs ! (length as - Suc (length xs))"
    unfolding u using assms(3) by (simp add: nth_append nth_Cons')
  moreover have "length as - Suc (length xs) < length bs" using len assms(3) by simp
  ultimately show ?thesis by simp
qed

lemma reaches_unique:
  assumes "reaches z i us u k" "distinct us" "us = xs @ a # bs" "i < height z a"
  shows "(\<forall>b\<in>set bs. height z b \<le> i) \<longleftrightarrow> a = u"
    and "a = u \<Longrightarrow> k = int (length xs)"
proof -
  obtain as cs where r: "us = as @ u # cs" "k = int (length as)" "i < height z u"
    "\<forall>b\<in>set cs. height z b \<le> i"
    using assms(1) by (auto simp: reaches_def)
  have "u \<notin> set cs" using assms(2) unfolding r(1) by simp
  moreover have "a \<notin> set bs" using assms(2) unfolding assms(3) by simp
  ultimately have notin: "u \<notin> set cs" "a \<notin> set bs" .
  have same: "length xs = length as \<and> bs = cs" if "a = u"
  proof -
    have "\<not> length xs < length as" "\<not> length as < length xs"
      using split_at_nth [OF assms(3) r(1)] split_at_nth [OF r(1) assms(3)] notin that by auto
    then have "length xs = length as" by simp
    with r(1) assms(3) show ?thesis by (metis append_eq_append_conv list.inject)
  qed
  show "(\<forall>b\<in>set bs. height z b \<le> i) \<longleftrightarrow> a = u"
  proof
    assume low: "\<forall>b\<in>set bs. height z b \<le> i"
    then have "\<not> length xs < length as" "\<not> length as < length xs"
      using split_at_nth [OF assms(3) r(1)] split_at_nth [OF r(1) assms(3)] r(3,4) assms(4)
      by (meson leD)+
    then have "length xs = length as" by simp
    with r(1) assms(3) show "a = u" by (metis append_eq_append_conv list.inject)
  qed (use same r in auto)
  show "a = u \<Longrightarrow> k = int (length xs)" using same r by simp
qed

text \<open>What every search of a well-formed list finds.\<close>

lemma search_path_reaches:
  assumes ok: "zsl_ok z (as @ ws)" and cuts: "cuts z cond (zheader z # as) ws"
  shows "length (search_path z cond) = zlevels z"
    and "\<And>i. i < zlevels z \<Longrightarrow>
      reaches z i (zheader z # as) (fst (search_path z cond ! i)) (snd (search_path z cond ! i))"
    and "search_path z cond ! 0 = (last (zheader z # as), int (length as))"
proof -
  let ?us = "zheader z # as"
  have links: "links_ok z (zlevels z) (?us @ ws)" and len: "length ?us \<le> Suc (zlength z)"
    and h: "zlevels z \<le> height z (zheader z)" "1 \<le> zlevels z"
    and low: "\<forall>a\<in>set as. 1 \<le> height z a"
    using ok by (auto simp: zsl_ok_def)
  note d = descend_reaches [OF links cuts len, of "zlevels z" "[]" "zheader z" as]
  show "length (search_path z cond) = zlevels z"
    and all: "\<And>i. i < zlevels z \<Longrightarrow>
      reaches z i ?us (fst (search_path z cond ! i)) (snd (search_path z cond ! i))"
    using d h by (simp_all add: search_path_def)
  obtain xs bs where r: "?us = xs @ fst (search_path z cond ! 0) # bs"
    "snd (search_path z cond ! 0) = int (length xs)" "\<forall>b\<in>set bs. height z b \<le> 0"
    using all [of 0] h by (auto simp: reaches_def)
  have "bs = []"
  proof (cases xs)
    case Nil
    with r low show ?thesis by (cases bs) auto
  next
    case (Cons x xs')
    then have "set bs \<subseteq> set as" using r(1) by auto
    with r(3) low show ?thesis by (cases bs) force+
  qed
  with r(1) have "?us = xs @ [fst (search_path z cond ! 0)]" by simp
  then have "last ?us = fst (search_path z cond ! 0)" "length ?us = Suc (length xs)"
    by (metis last_snoc, metis length_append_singleton)
  with r(2) show "search_path z cond ! 0 = (last ?us, int (length as))"
    by (simp add: prod_eq_iff)
qed

section \<open>Insertion\<close>

text \<open>Two lists that differ only in their links.\<close>

definition same_nodes :: "zskiplist \<Rightarrow> zskiplist \<Rightarrow> bool" where
  "same_nodes z z' =
     (zheader z' = zheader z \<and> zfresh z' = zfresh z \<and> ztail z' = ztail z \<and> zlength z' = zlength z \<and>
      zlevels z' = zlevels z \<and> dom (znodes z') = dom (znodes z) \<and> height z' = height z \<and>
      (\<forall>a. zmember (znode_of z' a) = zmember (znode_of z a) \<and>
           zscore (znode_of z' a) = zscore (znode_of z a) \<and>
           backward (znode_of z' a) = backward (znode_of z a)))"

lemma same_nodes_refl [simp]: "same_nodes z z"
  by (simp add: same_nodes_def)

lemma same_nodes_trans: "same_nodes z z' \<Longrightarrow> same_nodes z' z'' \<Longrightarrow> same_nodes z z''"
  by (simp add: same_nodes_def)

lemma same_nodes_upd_level: "a \<in> dom (znodes z) \<Longrightarrow> same_nodes z (upd_level z a i f)"
  by (auto simp: same_nodes_def fun_eq_iff)

lemma fold_same_nodes:
  assumes "\<And>i z'. i \<in> set is \<Longrightarrow> same_nodes z z' \<Longrightarrow> same_nodes z' (f i z')"
  shows "same_nodes z (fold f is z)"
  using assms
proof (induction "is" rule: rev_induct)
  case (snoc i "is")
  then have "same_nodes z (fold f is z)" by simp
  with snoc.prems [of i "fold f is z"] show ?case by (auto intro: same_nodes_trans)
qed simp

lemma random_level_bounds: "1 \<le> fst (zsl_random_level rand pos) \<and> fst (zsl_random_level rand pos) \<le> ZSKIPLIST_MAXLEVEL"
proof -
  have "l \<le> ZSKIPLIST_MAXLEVEL \<Longrightarrow> l \<le> fst (random_level_loop rand pos l) \<and>
      fst (random_level_loop rand pos l) \<le> ZSKIPLIST_MAXLEVEL" for l
    by (induction rand pos l rule: random_level_loop.induct)
      (subst (1 2) random_level_loop.simps, auto)
  from this [of 1] show ?thesis by (simp add: zsl_random_level_def ZSKIPLIST_MAXLEVEL_def)
qed

text \<open>
  The loops over levels: the body for level \<open>i\<close> reads and writes level \<open>i\<close> only, so the loop
  applies it to every level at once.
\<close>

definition level_step :: "(nat \<Rightarrow> zskiplist \<Rightarrow> zskiplist) \<Rightarrow>
    (nat \<Rightarrow> nat \<Rightarrow> (nat \<Rightarrow> zlevel) \<Rightarrow> zlevel) \<Rightarrow> zskiplist \<Rightarrow> nat \<Rightarrow> bool" where
  "level_step f g z i =
     (\<forall>z'. same_nodes z z' \<longrightarrow> same_nodes z' (f i z') \<and>
        (\<forall>a j. level_of (f i z') a j =
           (if j = i then g i a (\<lambda>b. level_of z' b i) else level_of z' a j)))"

lemma fold_levels:
  assumes "\<And>i. k \<le> i \<Longrightarrow> i < m \<Longrightarrow> level_step f g z i"
  shows "same_nodes z (fold f [k..<m] z) \<and>
    (\<forall>a j. level_of (fold f [k..<m] z) a j =
       (if k \<le> j \<and> j < m then g j a (\<lambda>b. level_of z b j) else level_of z a j))"
  using assms
proof (induction m)
  case (Suc m)
  show ?case
  proof (cases "k \<le> m")
    case True
    let ?z = "fold f [k..<m] z"
    have IH: "same_nodes z ?z" "\<And>a j. level_of ?z a j =
        (if k \<le> j \<and> j < m then g j a (\<lambda>b. level_of z b j) else level_of z a j)"
      using Suc by simp_all
    have step: "same_nodes ?z (f m ?z)" "\<And>a j. level_of (f m ?z) a j =
        (if j = m then g m a (\<lambda>b. level_of ?z b m) else level_of ?z a j)"
      using Suc.prems [of m] True IH(1) by (simp_all add: level_step_def)
    show ?thesis
      using True same_nodes_trans [OF IH(1) step(1)] by (simp add: step(2) IH(2))
  qed auto
qed simp

lemma raise_levels_step:
  assumes "zheader z \<in> dom (znodes z)" "i < height z (zheader z)"
  shows "level_step (\<lambda>i z. upd_level z (zheader z) i (\<lambda>l. l\<lparr>span := int (zlength z)\<rparr>))
    (\<lambda>i a lv. if a = zheader z then (lv a)\<lparr>span := int (zlength z)\<rparr> else lv a) z i"
  using assms same_nodes_upd_level
  by (auto simp: level_step_def level_of_upd_level same_nodes_def)

lemma raise_levels_ok:
  assumes ok: "zsl_ok z (as @ ws)" and cuts: "cuts z cond (zheader z # as) ws"
    and H: "1 \<le> H" "H \<le> ZSKIPLIST_MAXLEVEL"
    and rl: "raise_levels z H (search_path z cond) = (path, z1)"
  defines "L \<equiv> max (zlevels z) H"
  shows "same_nodes (z\<lparr>zlevels := L\<rparr>) z1" "links_ok z1 L (zheader z # as @ ws)"
    and "\<forall>i<ZSKIPLIST_MAXLEVEL. L \<le> i \<longrightarrow> forward (level_of z1 (zheader z) i) = None"
    and "\<And>i. i < L \<Longrightarrow> reaches z1 i (zheader z # as) (fst (path ! i)) (snd (path ! i))"
    and "path ! 0 = (last (zheader z # as), int (length as))"
proof -
  let ?h = "zheader z" and ?p = "search_path z cond" and ?n = "int (zlength z)"
  have dom: "?h \<in> dom (znodes z)" and hh: "height z ?h = ZSKIPLIST_MAXLEVEL"
    and ls: "1 \<le> zlevels z" "zlevels z \<le> ZSKIPLIST_MAXLEVEL" and n: "zlength z = length (as @ ws)"
    and links: "links_ok z (zlevels z) (?h # as @ ws)"
    and low: "\<forall>a\<in>set (as @ ws). height z a \<le> zlevels z"
    and top: "\<forall>i<ZSKIPLIST_MAXLEVEL. zlevels z \<le> i \<longrightarrow> forward (level_of z ?h i) = None"
    and dist: "distinct (?h # as @ ws)"
    using ok by (auto simp: zsl_ok_def)
  note sp = search_path_reaches [OF ok cuts]
  define z0 where "z0 = fold (\<lambda>i z. upd_level z (zheader z) i (\<lambda>l. l\<lparr>span := int (zlength z)\<rparr>))
      [zlevels z..<H] z"
  have same0: "same_nodes z z0" and lv: "\<And>a j. level_of z0 a j =
      (if zlevels z \<le> j \<and> j < H \<and> a = ?h then (level_of z a j)\<lparr>span := ?n\<rparr> else level_of z a j)"
    using fold_levels [of "zlevels z" H _ _ z, OF raise_levels_step] dom hh H
    unfolding z0_def by auto
  have z1: "z1 = z0\<lparr>zlevels := L\<rparr>" and path: "path = ?p @ replicate (H - zlevels z) (?h, 0)"
    using rl sp(1) by (auto simp: raise_levels_def z0_def L_def max_def split: if_splits)
  have lv1: "level_of z1 = level_of z0" "height z1 = height z0" "height z0 = height z"
    using same0 by (simp_all add: z1 same_nodes_def)
  show "same_nodes (z\<lparr>zlevels := L\<rparr>) z1"
    using same0 by (simp add: z1 same_nodes_def)
  show "links_ok z1 L (?h # as @ ws)"
    unfolding links_ok_def
  proof (intro allI impI)
    fix xs a ys i
    assume S: "?h # as @ ws = xs @ a # ys" and i: "i < height z1 a" "i < L"
    show "level_of z1 a i = zlink (height z1) i ys"
    proof (cases "i < zlevels z")
      case True
      then show ?thesis using links i S by (auto simp: links_ok_def lv1 lv)
    next
      case False
      then have a: "a = ?h" using S low i by (cases xs) (auto simp: lv1 dest!: arg_cong [of _ _ set])
      then have "xs = []" "ys = as @ ws" using S dist by (cases xs; auto)+
      moreover have "\<forall>a\<in>set (as @ ws). height z a \<le> i" using low False by (meson leI le_trans)
      then have "zlink (height z) i (as @ ws) = \<lparr>forward = None, span = ?n\<rparr>"
        unfolding zlink_def n using dist_none [of "as @ ws" "height z" i] by (simp add: first_with_None)
      moreover have "forward (level_of z ?h i) = None" using top False i hh a by (simp add: lv1)
      ultimately show ?thesis using False i a by (simp add: lv1 lv L_def)
    qed
  qed
  show "\<forall>i<ZSKIPLIST_MAXLEVEL. L \<le> i \<longrightarrow> forward (level_of z1 ?h i) = None"
    using top by (simp add: lv1 lv L_def)
  show "path ! 0 = (last (?h # as), int (length as))"
    using sp(1,3) ls by (simp add: path nth_append)
  show "reaches z1 i (?h # as) (fst (path ! i)) (snd (path ! i))" if "i < L" for i
  proof (cases "i < zlevels z")
    case True
    with sp(1,2) show ?thesis by (simp add: path nth_append reaches_def lv1)
  next
    case False
    then have "path ! i = (?h, 0)" using sp(1) that by (auto simp: path nth_append L_def)
    moreover have "i < height z ?h" using that hh H ls by (simp add: L_def)
    moreover have "\<forall>a\<in>set as. height z a \<le> zlevels z" using low by simp
    then have "\<forall>a\<in>set as. height z a \<le> i" using False by (meson leI le_trans)
    ultimately show ?thesis using reachesI [of "?h # as" "[]" ?h as i z1] by (simp add: lv1)
  qed
qed

lemma split_middle:
  assumes "us @ x # ws = xs @ a # ys"
  obtains (left) bs where "us = xs @ a # bs" "ys = bs @ x # ws"
    | (mid) "xs = us" "a = x" "ys = ws"
    | (right) cs where "ws = cs @ a # ys" "xs = us @ x # cs"
  using assms that
  by (auto simp: append_eq_append_conv2 append_eq_Cons_conv Cons_eq_append_conv)

text \<open>The links after the two loops of \<open>zsl_insert\<close>, for a new node \<open>x\<close> of height \<open>H\<close>.\<close>

definition inserted_links :: "zskiplist \<Rightarrow> zskiplist \<Rightarrow> (nat \<times> int) list \<Rightarrow> nat \<Rightarrow> nat \<Rightarrow> nat \<Rightarrow> bool" where
  "inserted_links z z' path x H L =
     (\<forall>a i. level_of z' a i =
        (let u = fst (path ! i); before = snd (path ! 0) - snd (path ! i) in
         if i < H then
           (if a = x then \<lparr>forward = forward (level_of z u i), span = span (level_of z u i) - before\<rparr>
            else if a = u then \<lparr>forward = Some x, span = before + 1\<rparr> else level_of z a i)
         else if i < L \<and> a = u then (level_of z a i)\<lparr>span := span (level_of z a i) + 1\<rparr>
         else level_of z a i))"

lemma inserted_links_ok:
  assumes links: "links_ok z L (us @ ws)" and dist: "distinct (us @ x # ws)"
    and H: "height z x = H" "H \<le> L"
    and reach: "\<And>i. i < L \<Longrightarrow> reaches z i us (fst (path ! i)) (snd (path ! i))"
    and rank: "snd (path ! 0) = int (length us) - 1"
    and same: "height z' = height z" and ins: "inserted_links z z' path x H L"
  shows "links_ok z' L (us @ x # ws)"
  unfolding links_ok_def
proof (intro allI impI)
  fix xs a ys i
  assume S: "us @ x # ws = xs @ a # ys" and i: "i < height z' a" "i < L"
  let ?u = "fst (path ! i)" and ?h = "height z"
  note lv = ins [unfolded inserted_links_def, rule_format, of a i]
  have r: "reaches z i us ?u (snd (path ! i))" by (rule reach [OF i(2)])
  then have u: "?u \<in> set us" by (auto simp: reaches_def)
  have dus: "distinct us" "x \<notin> set us" "x \<notin> set ws" "set us \<inter> set ws = {}" using dist by auto
  from S show "level_of z' a i = zlink (height z') i ys"
  proof (cases rule: split_middle)
    case (left bs)
    have old: "level_of z a i = zlink ?h i (bs @ ws)"
      using links_okD [of z L xs a "bs @ ws" i] links left i same by simp
    have ax: "a \<noteq> x" using left dus by auto
    show ?thesis
    proof (cases "\<forall>b\<in>set bs. ?h b \<le> i")
      case True
      then have a: "a = ?u" and k: "snd (path ! i) = int (length xs)"
        using reaches_unique [OF r dus(1) left(1)] i same by auto
      have bs: "snd (path ! 0) - snd (path ! i) = int (length bs)" using rank k left by simp
      show ?thesis
        using True ax bs old H i left ins [unfolded inserted_links_def, rule_format, of ?u i]
        unfolding a
        by (simp add: Let_def same zlink_def first_with_append dist_low iffD2 [OF first_with_None])
    next
      case False
      then have "a \<noteq> ?u" using reaches_unique [OF r dus(1) left(1)] i same by auto
      moreover have "zlink ?h i (bs @ x # ws) = zlink ?h i (bs @ ws)"
        using False zlink_hidden [of bs i ?h] by (auto simp: not_le)
      ultimately show ?thesis using ax old left by (simp add: lv Let_def same)
    qed
  next
    case mid
    obtain as bs where us: "us = as @ ?u # bs" and k: "snd (path ! i) = int (length as)"
      and low: "\<forall>b\<in>set bs. ?h b \<le> i" and hu: "i < ?h ?u"
      using r by (auto simp: reaches_def)
    have "level_of z ?u i = zlink ?h i (bs @ ws)"
      using links_okD [of z L as ?u "bs @ ws" i] links us hu i by simp
    moreover have "snd (path ! 0) - snd (path ! i) = int (length bs)"
      using rank k arg_cong [OF us, of length] by simp
    ultimately show ?thesis
      using mid i H low same ins [unfolded inserted_links_def, rule_format, of x i]
      by (simp add: Let_def zlink_def first_with_append dist_low iffD2 [OF first_with_None])
  next
    case (right cs)
    then have "a \<noteq> x" "a \<noteq> ?u" using dus u by auto
    moreover have "level_of z a i = zlink ?h i ys"
      using links_okD [of z L "us @ cs" a ys i] links right i same by simp
    ultimately show ?thesis by (simp add: lv Let_def same)
  qed
qed

lemma link_level_step:
  assumes "x \<in> dom (znodes z)" "fst (path ! i) \<in> dom (znodes z)" "i < height z x"
    "i < height z (fst (path ! i))" "x \<noteq> fst (path ! i)"
  shows "level_step (link_level path x)
    (\<lambda>i a lv. let u = fst (path ! i); before = snd (path ! 0) - snd (path ! i) in
       if a = x then \<lparr>forward = forward (lv u), span = span (lv u) - before\<rparr>
       else if a = u then \<lparr>forward = Some x, span = before + 1\<rparr> else lv a) z i"
  unfolding level_step_def
proof (intro allI impI)
  fix z'
  assume same: "same_nodes z z'"
  then have d: "x \<in> dom (znodes z')" "fst (path ! i) \<in> dom (znodes z')" "i < height z' x"
    "i < height z' (fst (path ! i))"
    using assms by (simp_all add: same_nodes_def)
  then have "same_nodes z' (link_level path x i z')"
    by (auto simp: link_level_def Let_def same_nodes_def fun_eq_iff)
  moreover have "level_of (link_level path x i z') a j =
      (if j = i then let u = fst (path ! i); before = snd (path ! 0) - snd (path ! i) in
         if a = x then \<lparr>forward = forward (level_of z' u i), span = span (level_of z' u i) - before\<rparr>
         else if a = u then \<lparr>forward = Some x, span = before + 1\<rparr> else level_of z' a i
       else level_of z' a j)" for a j
    using d assms(5) by (simp add: link_level_def Let_def level_of_upd_level)
  ultimately show "same_nodes z' (link_level path x i z') \<and>
      (\<forall>a j. level_of (link_level path x i z') a j =
        (if j = i then let u = fst (path ! i); before = snd (path ! 0) - snd (path ! i) in
           if a = x then \<lparr>forward = forward (level_of z' u i), span = span (level_of z' u i) - before\<rparr>
           else if a = u then \<lparr>forward = Some x, span = before + 1\<rparr> else level_of z' a i
         else level_of z' a j))" by blast
qed

lemma bump_level_step:
  assumes "fst (path ! i) \<in> dom (znodes z)" "i < height z (fst (path ! i))"
  shows "level_step (\<lambda>i z. upd_level z (fst (path ! i)) i (\<lambda>l. l\<lparr>span := span l + 1\<rparr>))
    (\<lambda>i a lv. if a = fst (path ! i) then (lv a)\<lparr>span := span (lv a) + 1\<rparr> else lv a) z i"
  using assms same_nodes_upd_level
  by (auto simp: level_step_def level_of_upd_level same_nodes_def)

lemma insert_loops:
  assumes x: "x \<in> dom (znodes z)" "height z x = H" "H \<le> L"
    and u: "\<And>i. i < L \<Longrightarrow> fst (path ! i) \<in> dom (znodes z) \<and> i < height z (fst (path ! i)) \<and>
        x \<noteq> fst (path ! i)"
  defines "z3 \<equiv> fold (link_level path x) [0..<H] z"
  defines "z4 \<equiv> fold (\<lambda>i z. upd_level z (fst (path ! i)) i (\<lambda>l. l\<lparr>span := span l + 1\<rparr>)) [H..<L] z3"
  shows "same_nodes z z3" "same_nodes z z4" "inserted_links z z4 path x H L"
proof -
  have s3: "same_nodes z z3 \<and> (\<forall>a j. level_of z3 a j =
      (if 0 \<le> j \<and> j < H then
         (let u = fst (path ! j); before = snd (path ! 0) - snd (path ! j) in
          if a = x then \<lparr>forward = forward (level_of z u j), span = span (level_of z u j) - before\<rparr>
          else if a = u then \<lparr>forward = Some x, span = before + 1\<rparr> else level_of z a j)
       else level_of z a j))"
    unfolding z3_def using x u by (intro fold_levels link_level_step) auto
  have s4: "same_nodes z3 z4 \<and> (\<forall>a j. level_of z4 a j =
      (if H \<le> j \<and> j < L then
         (if a = fst (path ! j) then (level_of z3 a j)\<lparr>span := span (level_of z3 a j) + 1\<rparr>
          else level_of z3 a j)
       else level_of z3 a j))"
    unfolding z4_def using x u s3 by (intro fold_levels bump_level_step) (auto simp: same_nodes_def)
  show "same_nodes z z3" "same_nodes z z4" using s3 s4 same_nodes_trans by blast+
  show "inserted_links z z4 path x H L"
    unfolding inserted_links_def using s3 s4 x(3) by (simp add: Let_def)
qed

lemma upd_backward [simp]:
  "level_of (upd_node z a (\<lambda>n. n\<lparr>backward := b\<rparr>)) = level_of z"
  "height (upd_node z a (\<lambda>n. n\<lparr>backward := b\<rparr>)) = height z"
  "zmember (znode_of (upd_node z a (\<lambda>n. n\<lparr>backward := b\<rparr>)) c) = zmember (znode_of z c)"
  "zscore (znode_of (upd_node z a (\<lambda>n. n\<lparr>backward := b\<rparr>)) c) = zscore (znode_of z c)"
  "backward (znode_of (upd_node z a (\<lambda>n. n\<lparr>backward := b\<rparr>)) c) =
     (if c = a then b else backward (znode_of z c))"
  by (simp_all add: fun_eq_iff level_of_def height_def znode_of_upd_node)

lemma links_ok_cong:
  assumes "\<And>a. a \<in> set S \<Longrightarrow> height z' a = height z a"
    and "\<And>a i. a \<in> set S \<Longrightarrow> level_of z' a i = level_of z a i"
  shows "links_ok z m S \<Longrightarrow> links_ok z' m S"
  unfolding links_ok_def
proof (intro allI impI)
  fix xs a ys i
  assume ok: "\<forall>xs a ys i. S = xs @ a # ys \<longrightarrow> i < height z a \<longrightarrow> i < m \<longrightarrow>
      level_of z a i = zlink (height z) i ys"
    and S: "S = xs @ a # ys" and i: "i < height z' a" "i < m"
  have "zlink (height z') i ys = zlink (height z) i ys" by (rule zlink_cong) (simp add: S assms(1))
  moreover have "level_of z a i = zlink (height z) i ys" using ok S i assms(1) [of a] by simp
  ultimately show "level_of z' a i = zlink (height z') i ys" using assms(2) [of a i] S by simp
qed

lemma reaches_cong:
  assumes "\<And>a. a \<in> set us \<Longrightarrow> height z' a = height z a" "reaches z i us x k"
  shows "reaches z' i us x k"
proof -
  obtain as bs where r: "us = as @ x # bs" "k = int (length as)" "i < height z x"
    "\<forall>b\<in>set bs. height z b \<le> i"
    using assms(2) by (auto simp: reaches_def)
  then show ?thesis using assms(1) by (simp add: reachesI)
qed

lemma reaches_in: "reaches z i us x k \<Longrightarrow> x \<in> set us \<and> i < height z x"
  by (auto simp: reaches_def)

lemma first_with_zero: "\<forall>a\<in>set ws. 1 \<le> h a \<Longrightarrow> first_with h 0 ws = (if ws = [] then None else Some (hd ws))"
  by (cases ws) auto

text \<open>
  The state just before the backward pointers are repaired: the new node \<open>x\<close> sits between \<open>as\<close>
  and \<open>ws\<close> at all its levels.
\<close>

lemma zsl_insert_links:
  assumes ok: "zsl_ok z (as @ ws)" and cuts: "cuts z cond (zheader z # as) ws"
    and H: "1 \<le> H" "H \<le> ZSKIPLIST_MAXLEVEL"
    and rl: "raise_levels z H (search_path z cond) = (path, z1)"
    and cn: "zsl_create_node z1 H score member = (x, z2)"
  defines "L \<equiv> max (zlevels z) H"
  defines "z3 \<equiv> fold (link_level path x) [0..<H] z2"
  defines "z4 \<equiv> fold (\<lambda>i z. upd_level z (fst (path ! i)) i (\<lambda>l. l\<lparr>span := span l + 1\<rparr>)) [H..<L] z3"
  shows "x = zfresh z" "zlevels z3 = L" "same_nodes z2 z4"
    and "links_ok z4 L (zheader z # as @ x # ws)"
    and "\<forall>i<ZSKIPLIST_MAXLEVEL. L \<le> i \<longrightarrow> forward (level_of z4 (zheader z) i) = None"
    and "fst (path ! 0) = last (zheader z # as)"
    and "zheader z2 = zheader z" "zfresh z2 = zfresh z + 1" "ztail z2 = ztail z"
      "zlength z2 = zlength z" "zlevels z2 = L" "dom (znodes z2) = insert x (dom (znodes z))"
    and "height z2 = (height z)(x := H)"
    and "zmember (znode_of z2 a) = (if a = x then member else zmember (znode_of z a))"
      "zscore (znode_of z2 a) = (if a = x then score else zscore (znode_of z a))"
      "backward (znode_of z2 a) = (if a = x then None else backward (znode_of z a))"
proof -
  let ?h = "zheader z"
  note r = raise_levels_ok [OF ok cuts H rl, folded L_def]
  have n1: "zheader z1 = ?h" "zfresh z1 = zfresh z" "ztail z1 = ztail z" "zlength z1 = zlength z"
    "zlevels z1 = L" "dom (znodes z1) = dom (znodes z)" "height z1 = height z"
    "\<And>a. zmember (znode_of z1 a) = zmember (znode_of z a)"
    "\<And>a. zscore (znode_of z1 a) = zscore (znode_of z a)"
    "\<And>a. backward (znode_of z1 a) = backward (znode_of z a)"
    using r(1) by (simp_all add: same_nodes_def)
  have x: "x = zfresh z" and z2: "z2 = z1\<lparr>znodes := (znodes z1)(x \<mapsto> \<lparr>zmember = member, zscore = score,
      backward = None, levels = replicate H empty_level\<rparr>), zfresh := zfresh z + 1\<rparr>"
    using cn by (auto simp: zsl_create_node_def n1(2))
  have notin: "x \<notin> set (?h # as @ ws)" using ok x by (auto simp: zsl_ok_def)
  have dist: "distinct (?h # as @ ws)" using ok by (simp add: zsl_ok_def)
  show shape: "zheader z2 = ?h" "zfresh z2 = zfresh z + 1" "ztail z2 = ztail z"
    "zlength z2 = zlength z" "zlevels z2 = L" "dom (znodes z2) = insert x (dom (znodes z))"
    using n1 by (simp_all add: z2)
  have node: "znode_of z2 a = (if a = x then \<lparr>zmember = member, zscore = score, backward = None,
      levels = replicate H empty_level\<rparr> else znode_of z1 a)" for a
    by (simp add: z2 znode_of_def)
  show ht: "height z2 = (height z)(x := H)"
    using n1(7) by (simp add: fun_eq_iff height_def node)
  show "zmember (znode_of z2 a) = (if a = x then member else zmember (znode_of z a))"
    "zscore (znode_of z2 a) = (if a = x then score else zscore (znode_of z a))"
    "backward (znode_of z2 a) = (if a = x then None else backward (znode_of z a))"
    by (simp_all add: node n1)
  have eqs: "height z2 a = height z1 a" "level_of z2 a i = level_of z1 a i"
    if "a \<in> set (?h # as @ ws)" for a i
    using that notin by (auto simp: ht n1 level_of_def node)
  have links2: "links_ok z2 L ((?h # as) @ ws)"
    using links_ok_cong [of "?h # as @ ws" z2 z1 L] eqs r(2) by simp
  have reach2: "reaches z2 i (?h # as) (fst (path ! i)) (snd (path ! i))" if "i < L" for i
    by (rule reaches_cong [OF _ r(4) [OF that]]) (rule eqs(1), auto)
  have dom: "set (?h # as @ ws) = dom (znodes z)" using ok by (simp add: zsl_ok_def)
  have u: "fst (path ! i) \<in> dom (znodes z2) \<and> i < height z2 (fst (path ! i)) \<and> x \<noteq> fst (path ! i)"
    if "i < L" for i
    using reaches_in [OF reach2 [OF that]] notin dom shape(6) by auto
  have hx: "x \<in> dom (znodes z2)" "height z2 x = H" "H \<le> L"
    using shape(6) by (simp_all add: ht L_def)
  note loops = insert_loops [OF hx u, folded z3_def, folded z4_def]
  show "x = zfresh z" "same_nodes z2 z4" "zlevels z3 = L"
    using x loops shape by (simp_all add: same_nodes_def)
  have ht4: "height z4 = height z2" using loops by (simp add: same_nodes_def)
  have "links_ok z4 L ((?h # as) @ x # ws)"
  proof (rule inserted_links_ok [OF links2 _ _ _ reach2 _ ht4 loops(3)])
    show "distinct ((?h # as) @ x # ws)" using dist notin by auto
    show "height z2 x = H" "H \<le> L" by (simp_all add: ht L_def)
    show "snd (path ! 0) = int (length (?h # as)) - 1" using r(5) by simp
  qed
  then show "links_ok z4 L (?h # as @ x # ws)" by simp
  show "\<forall>i<ZSKIPLIST_MAXLEVEL. L \<le> i \<longrightarrow> forward (level_of z4 ?h i) = None"
  proof (intro allI impI)
    fix i
    assume i: "i < ZSKIPLIST_MAXLEVEL" "L \<le> i"
    then have "\<not> i < L" "\<not> i < H" using hx(3) by simp_all
    then have "level_of z4 ?h i = level_of z2 ?h i"
      using loops(3) [unfolded inserted_links_def, rule_format, of ?h i] by (simp add: Let_def)
    with r(3) i eqs(2) [of ?h i] show "forward (level_of z4 ?h i) = None" by simp
  qed
  show "fst (path ! 0) = last (?h # as)" using r(5) by simp
qed

lemma sorted_cut:
  assumes "sorted_wrt R ns" "\<And>a b. a \<in> set ns \<Longrightarrow> b \<in> set ns \<Longrightarrow> R a b \<Longrightarrow> P b \<Longrightarrow> P a"
  obtains as ws where "ns = as @ ws" "\<forall>a\<in>set as. P a" "\<forall>a\<in>set ws. \<not> P a"
proof -
  let ?as = "takeWhile P ns" and ?ws = "dropWhile P ns"
  have "\<not> P b" if b: "b \<in> set ?ws" for b
  proof (cases ?ws)
    case (Cons w ws)
    have "\<not> P w" using Cons by (metis dropWhile_eq_Cons_conv)
    moreover have "w \<in> set ns" "b \<in> set ns"
      using Cons b by (metis list.set_intros(1) set_dropWhileD)+
    moreover have "sorted_wrt R (w # ws)"
      using assms(1) Cons by (metis sorted_wrt_append takeWhile_dropWhile_id)
    ultimately show ?thesis using b Cons assms(2) by auto
  next
    case Nil
    with b show ?thesis by (simp only: list.set empty_iff)
  qed
  then show thesis
    by (intro that [of ?as ?ws]) (auto dest: set_takeWhileD)
qed

definition node_key :: "zskiplist \<Rightarrow> nat \<Rightarrow> int \<times> int list" where
  "node_key z a = zkey (zscore (znode_of z a)) (zmember (znode_of z a))"

lemma zsl_ok_sorted:
  assumes "zsl_ok z ns"
  shows "sorted_wrt (\<lambda>a b. lex_less (node_key z a) (node_key z b)) ns"
  using assms sorted_wrt_mono_rel [of ns "\<lambda>a b. zkey_less (znode_of z a) (znode_of z b)"]
  by (simp add: zsl_ok_def zkey_less_def node_before_key node_key_def)

lemma zsl_ok_cut_key:
  assumes ok: "zsl_ok z ns" and nn: "\<not> d_isnan score"
  obtains as ws where "ns = as @ ws"
    "\<forall>a\<in>set as. lex_less (node_key z a) (zkey score member)"
    "\<forall>a\<in>set ws. \<not> lex_less (node_key z a) (zkey score member)"
    "cuts z (\<lambda>n r. node_before score member n) (zheader z # as) ws"
proof -
  have nan: "\<forall>a\<in>set ns. \<not> d_isnan (zscore (znode_of z a))" using ok by (simp add: zsl_ok_def)
  obtain as ws where cut: "ns = as @ ws"
    "\<forall>a\<in>set as. lex_less (node_key z a) (zkey score member)"
    "\<forall>a\<in>set ws. \<not> lex_less (node_key z a) (zkey score member)"
    by (rule sorted_cut [OF zsl_ok_sorted [OF ok], of "\<lambda>a. lex_less (node_key z a) (zkey score member)"])
      (auto intro: lex_less_order(2))
  have "cuts z (\<lambda>n r. node_before score member n) (zheader z # as) ws"
    using cut nan nn by (intro cuts_prefix) (auto simp: node_before_key node_key_def)
  with cut show thesis by (rule that)
qed

lemma last_Cons_header:
  "distinct (h # as) \<Longrightarrow> (if last (h # as) = h then None else Some (last (h # as))) =
   (if as = [] then None else Some (last as))"
  by (cases as rule: rev_cases) auto

lemma backward_insert:
  assumes old: "\<forall>xs a ys. as @ ws = xs @ a # ys \<longrightarrow> b a = (if xs = [] then None else Some (last xs))"
    and dist: "distinct (as @ x # ws)"
    and new: "\<And>a. b' a = (if a = x then (if as = [] then None else Some (last as))
        else if ws \<noteq> [] \<and> a = hd ws then Some x else b a)"
    and S: "as @ x # ws = xs @ a # ys"
  shows "b' a = (if xs = [] then None else Some (last xs))"
  using S
proof (cases rule: split_middle)
  case (left bs)
  then have "a \<noteq> x" "\<not> (ws \<noteq> [] \<and> a = hd ws)" using dist by (cases ws; auto)+
  then show ?thesis using left old [rule_format, of xs a "bs @ ws"] by (auto simp: new)
next
  case mid
  then show ?thesis by (simp add: new)
next
  case (right cs)
  then have ax: "a \<noteq> x" using dist by auto
  show ?thesis
  proof (cases cs)
    case Nil
    then show ?thesis using right ax by (simp add: new)
  next
    case (Cons c cs')
    then have "a \<noteq> hd ws" "last (as @ cs) = last xs" "xs \<noteq> []" using right dist by auto
    then show ?thesis using ax right Cons old [rule_format, of "as @ cs" a ys] by (simp add: new)
  qed
qed

lemma zsl_ok_insertI:
  assumes ok: "zsl_ok z (as @ ws)" and H: "1 \<le> H" "H \<le> ZSKIPLIST_MAXLEVEL"
    and L: "L = max (zlevels z) H" and x: "x = zfresh z" and nn: "\<not> d_isnan score"
    and fields: "zheader z' = zheader z" "zfresh z' = zfresh z + 1" "zlength z' = zlength z + 1"
      "zlevels z' = L" "dom (znodes z') = insert x (dom (znodes z))" "height z' = (height z)(x := H)"
      "ztail z' = (if ws = [] then Some x else ztail z)"
    and links: "links_ok z' L (zheader z # as @ x # ws)"
    and top: "\<forall>i<ZSKIPLIST_MAXLEVEL. L \<le> i \<longrightarrow> forward (level_of z' (zheader z) i) = None"
    and mem: "\<And>a. zmember (znode_of z' a) = (if a = x then member else zmember (znode_of z a))"
    and score: "\<And>a. zscore (znode_of z' a) = (if a = x then score else zscore (znode_of z a))"
    and bck: "\<And>a. backward (znode_of z' a) = (if a = x then (if as = [] then None else Some (last as))
        else if ws \<noteq> [] \<and> a = hd ws then Some x else backward (znode_of z a))"
    and lo: "\<forall>a\<in>set as. lex_less (node_key z a) (zkey score member)"
    and hi: "\<forall>a\<in>set ws. lex_less (zkey score member) (node_key z a)"
  shows "zsl_ok z' (as @ x # ws)"
proof -
  have notin: "x \<notin> set (zheader z # as @ ws)" using ok x by (auto simp: zsl_ok_def)
  have dist: "distinct (zheader z # as @ x # ws)" using ok notin by (auto simp: zsl_ok_def)
  have key: "node_key z' a = (if a = x then zkey score member else node_key z a)" for a
    by (simp add: node_key_def mem score)
  have nan: "\<forall>a\<in>set (as @ x # ws). \<not> d_isnan (zscore (znode_of z' a))"
    using ok nn by (auto simp: zsl_ok_def score)
  have "sorted_wrt (\<lambda>a b. lex_less (node_key z a) (node_key z b)) (as @ ws)"
    by (rule zsl_ok_sorted [OF ok])
  then have "sorted_wrt (\<lambda>a b. lex_less (node_key z' a) (node_key z' b)) (as @ x # ws)"
    using lo hi notin by (auto simp: sorted_wrt_append key elim!: sorted_wrt_mono_rel [rotated])
  then have sorted: "sorted_wrt (\<lambda>a b. zkey_less (znode_of z' a) (znode_of z' b)) (as @ x # ws)"
    by (rule sorted_wrt_mono_rel [rotated])
      (use nan in \<open>auto simp: zkey_less_def node_before_key node_key_def\<close>)
  have "\<forall>xs a ys. as @ ws = xs @ a # ys \<longrightarrow>
      backward (znode_of z a) = (if xs = [] then None else Some (last xs))"
    using ok unfolding zsl_ok_def by blast
  moreover have "distinct (as @ x # ws)" using dist by simp
  ultimately have back': "\<forall>xs a ys. as @ x # ws = xs @ a # ys \<longrightarrow>
      backward (znode_of z' a) = (if xs = [] then None else Some (last xs))"
    using backward_insert [OF _ _ bck] by blast
  have heights: "\<forall>a\<in>set (as @ x # ws). 1 \<le> height z' a \<and> height z' a \<le> L"
  proof -
    have "\<forall>a\<in>set (as @ ws). 1 \<le> height z a \<and> height z a \<le> zlevels z" using ok by (simp add: zsl_ok_def)
    then show ?thesis using H by (auto simp: fields L le_max_iff_disj)
  qed
  have lens: "zlength z' = length (as @ x # ws)" "1 \<le> L" "L \<le> ZSKIPLIST_MAXLEVEL"
    "height z' (zheader z) = ZSKIPLIST_MAXLEVEL"
    "dom (znodes z') = set (zheader z # as @ x # ws)" "\<forall>a\<in>set (zheader z # as @ x # ws). a < zfresh z'"
    using ok H notin by (auto simp: zsl_ok_def fields L x less_Suc_eq)
  have "ztail z' = (if as @ x # ws = [] then None else Some (last (as @ x # ws)))"
    using ok by (simp add: zsl_ok_def fields)
  with dist sorted nan back' heights lens links top show ?thesis
    unfolding zsl_ok_def fields(1,4) by blast
qed

lemma zsl_insert_ok:
  assumes ok: "zsl_ok z ns" and nn: "\<not> d_isnan score"
    and absent: "\<forall>a\<in>set ns. node_key z a \<noteq> zkey score member"
  obtains as ws z' pos' where "ns = as @ ws"
    "zsl_insert rand pos z score member = (zfresh z, z', pos')" "zsl_ok z' (as @ zfresh z # ws)"
    "\<And>a. zmember (znode_of z' a) = (if a = zfresh z then member else zmember (znode_of z a))"
    "\<And>a. zscore (znode_of z' a) = (if a = zfresh z then score else zscore (znode_of z a))"
proof -
  let ?h = "zheader z"
  obtain as ws where ns: "ns = as @ ws"
    and lo: "\<forall>a\<in>set as. lex_less (node_key z a) (zkey score member)"
    and hi: "\<forall>a\<in>set ws. \<not> lex_less (node_key z a) (zkey score member)"
    and cuts: "cuts z (\<lambda>n r. node_before score member n) (?h # as) ws"
    by (rule zsl_ok_cut_key [OF ok nn])
  obtain H pos' where rl: "zsl_random_level rand pos = (H, pos')" by fastforce
  then have H: "1 \<le> H" "H \<le> ZSKIPLIST_MAXLEVEL" using random_level_bounds [of rand pos] by auto
  obtain path z1 where ra: "raise_levels z H (search_path z (\<lambda>n r. node_before score member n)) = (path, z1)"
    by fastforce
  obtain x z2 where cn: "zsl_create_node z1 H score member = (x, z2)" by fastforce
  define L where "L = max (zlevels z) H"
  define z3 where "z3 = fold (link_level path x) [0..<H] z2"
  define z4 where "z4 = fold (\<lambda>i z. upd_level z (fst (path ! i)) i (\<lambda>l. l\<lparr>span := span l + 1\<rparr>)) [H..<L] z3"
  define bk where "bk = (if as = [] then None else Some (last as))"
  define z5 where "z5 = upd_node z4 x (\<lambda>n. n\<lparr>backward := bk\<rparr>)"
  define z6 where "z6 = (case ws of y # _ \<Rightarrow> upd_node z5 y (\<lambda>n. n\<lparr>backward := Some x\<rparr>) | [] \<Rightarrow> z5\<lparr>ztail := Some x\<rparr>)"
  note k = zsl_insert_links [OF ok [unfolded ns] cuts H ra cn, folded L_def, folded z3_def, folded z4_def]
  have n4: "zheader z4 = ?h" "zfresh z4 = zfresh z + 1" "ztail z4 = ztail z" "zlength z4 = zlength z"
    "zlevels z4 = L" "dom (znodes z4) = insert x (dom (znodes z))" "height z4 = (height z)(x := H)"
    "\<And>a. zmember (znode_of z4 a) = (if a = x then member else zmember (znode_of z a))"
    "\<And>a. zscore (znode_of z4 a) = (if a = x then score else zscore (znode_of z a))"
    "\<And>a. backward (znode_of z4 a) = (if a = x then None else backward (znode_of z a))"
    using k by (simp_all add: same_nodes_def)
  have x: "x = zfresh z" by (rule k(1))
  have dist: "distinct (?h # as @ ws)" using ok ns by (simp add: zsl_ok_def)
  have "level_of z4 x 0 = zlink (height z4) 0 ws"
    using links_okD [of z4 L "?h # as" x ws 0] k(4) H n4(7) by (simp add: L_def)
  moreover have "\<forall>a\<in>set ws. 1 \<le> height z4 a" using ok ns H by (auto simp: zsl_ok_def n4(7))
  ultimately have fw: "forward (level_of z5 x 0) = (if ws = [] then None else Some (hd ws))"
    by (simp add: z5_def first_with_zero)
  have bk: "(if fst (path ! 0) = zheader z4 then None else Some (fst (path ! 0))) = bk"
    unfolding bk_def k(6) n4(1) using dist by (intro last_Cons_header) simp
  have "zsl_insert rand pos z score member = (x, z6\<lparr>zlength := zlength z6 + 1\<rparr>, pos')"
    using fw unfolding zsl_insert_def rl ra cn prod.case Let_def z3_def [symmetric] k(2)
      z4_def [symmetric] bk z5_def [symmetric]
    by (cases ws) (simp_all add: z6_def)
  moreover have "zsl_ok (z6\<lparr>zlength := zlength z6 + 1\<rparr>) (as @ x # ws)"
  proof (rule zsl_ok_insertI [OF ok [unfolded ns] H L_def x nn])
    show "\<forall>a\<in>set as. lex_less (node_key z a) (zkey score member)" by (rule lo)
    show "\<forall>a\<in>set ws. lex_less (zkey score member) (node_key z a)"
      using hi absent ns lex_less_order(3) by (metis Un_iff set_append)
    have "set ws \<subseteq> dom (znodes z)" using ok ns by (auto simp: zsl_ok_def)
    then show "dom (znodes (z6\<lparr>zlength := zlength z6 + 1\<rparr>)) = insert x (dom (znodes z))"
      by (auto simp: z6_def z5_def n4 split: list.splits)
    have "links_ok z4 L (?h # as @ x # ws)" by (rule k(4))
    then show "links_ok (z6\<lparr>zlength := zlength z6 + 1\<rparr>) L (?h # as @ x # ws)"
      by (rule links_ok_cong [rotated 2]) (auto simp: z6_def z5_def split: list.splits)
    show "\<forall>i<ZSKIPLIST_MAXLEVEL. L \<le> i \<longrightarrow>
        forward (level_of (z6\<lparr>zlength := zlength z6 + 1\<rparr>) ?h i) = None"
      using k(5) by (auto simp: z6_def z5_def split: list.splits)
    fix a
    show "backward (znode_of (z6\<lparr>zlength := zlength z6 + 1\<rparr>) a) =
        (if a = x then (if as = [] then None else Some (last as))
         else if ws \<noteq> [] \<and> a = hd ws then Some x else backward (znode_of z a))"
      using x ok ns by (auto simp: z6_def z5_def n4 bk_def zsl_ok_def split: list.splits)
  qed (auto simp: z6_def z5_def n4 split: list.splits)
  ultimately show thesis
    using that [OF ns] n4 x by (auto simp: z6_def z5_def split: list.splits)
qed

section \<open>Deletion\<close>

definition deleted_links :: "zskiplist \<Rightarrow> zskiplist \<Rightarrow> (nat \<times> int) list \<Rightarrow> nat \<Rightarrow> nat \<Rightarrow> bool" where
  "deleted_links z z' path x L =
     (\<forall>a i. level_of z' a i =
        (let u = fst (path ! i) in
         if i < L \<and> a = u then
           (if forward (level_of z u i) = Some x
            then \<lparr>forward = forward (level_of z x i),
                  span = span (level_of z u i) + (span (level_of z x i) - 1)\<rparr>
            else (level_of z u i)\<lparr>span := span (level_of z u i) - 1\<rparr>)
         else level_of z a i))"

lemma unlink_level_step:
  assumes "fst (path ! i) \<in> dom (znodes z)" "i < height z (fst (path ! i))" "x \<noteq> fst (path ! i)"
  shows "level_step (unlink_level path x)
    (\<lambda>i a lv. let u = fst (path ! i) in
       if a = u then
         (if forward (lv u) = Some x then \<lparr>forward = forward (lv x), span = span (lv u) + (span (lv x) - 1)\<rparr>
          else (lv u)\<lparr>span := span (lv u) - 1\<rparr>)
       else lv a) z i"
  unfolding level_step_def
proof (intro allI impI conjI)
  fix z'
  assume same: "same_nodes z z'"
  then have d: "fst (path ! i) \<in> dom (znodes z')" "i < height z' (fst (path ! i))"
    using assms by (simp_all add: same_nodes_def)
  then show "same_nodes z' (unlink_level path x i z')"
    by (auto simp: unlink_level_def Let_def same_nodes_def fun_eq_iff)
  fix a j
  show "level_of (unlink_level path x i z') a j =
      (if j = i then let u = fst (path ! i) in
         if a = u then
           (if forward (level_of z' u i) = Some x
            then \<lparr>forward = forward (level_of z' x i), span = span (level_of z' u i) + (span (level_of z' x i) - 1)\<rparr>
            else (level_of z' u i)\<lparr>span := span (level_of z' u i) - 1\<rparr>)
         else level_of z' a i
       else level_of z' a j)"
    using d assms(3) by (simp add: unlink_level_def Let_def level_of_upd_level)
qed

lemma delete_loop:
  assumes "\<And>i. i < L \<Longrightarrow> fst (path ! i) \<in> dom (znodes z) \<and> i < height z (fst (path ! i)) \<and>
        x \<noteq> fst (path ! i)"
  defines "z1 \<equiv> fold (unlink_level path x) [0..<L] z"
  shows "same_nodes z z1" "deleted_links z z1 path x L"
proof -
  have "same_nodes z z1 \<and> (\<forall>a j. level_of z1 a j =
      (if 0 \<le> j \<and> j < L then
         (let u = fst (path ! j) in
          if a = u then
            (if forward (level_of z u j) = Some x
             then \<lparr>forward = forward (level_of z x j), span = span (level_of z u j) + (span (level_of z x j) - 1)\<rparr>
             else (level_of z u j)\<lparr>span := span (level_of z u j) - 1\<rparr>)
          else level_of z a j)
       else level_of z a j))"
    unfolding z1_def using assms(1) by (intro fold_levels unlink_level_step) auto
  then show "same_nodes z z1" "deleted_links z z1 path x L"
    by (simp_all add: deleted_links_def Let_def)
qed

lemma deleted_links_ok:
  assumes links: "links_ok z L (us @ x # ws)" and dist: "distinct (us @ x # ws)"
    and reach: "\<And>i. i < L \<Longrightarrow> reaches z i us (fst (path ! i)) (snd (path ! i))"
    and same: "height z' = height z" and del: "deleted_links z z' path x L"
  shows "links_ok z' L (us @ ws)"
  unfolding links_ok_def
proof (intro allI impI)
  fix xs a ys i
  assume S: "us @ ws = xs @ a # ys" and i: "i < height z' a" "i < L"
  let ?u = "fst (path ! i)" and ?h = "height z"
  note lv = del [unfolded deleted_links_def, rule_format, of a i]
  have r: "reaches z i us ?u (snd (path ! i))" by (rule reach [OF i(2)])
  then have u: "?u \<in> set us" using reaches_in by blast
  have dus: "distinct us" "x \<notin> set us" "x \<notin> set ws" "set us \<inter> set ws = {}" using dist by auto
  have lx: "level_of z x i = zlink ?h i ws" if "i < ?h x"
    using links_okD [OF links that i(2)] .
  consider (left) bs where "us = xs @ a # bs" "ys = bs @ ws" | (right) cs where "ws = cs @ a # ys" "xs = us @ cs"
    using S by (auto simp: append_eq_append_conv2 append_eq_Cons_conv)
  then show "level_of z' a i = zlink (height z') i ys"
  proof cases
    case (left bs)
    have old: "level_of z a i = zlink ?h i (bs @ x # ws)"
      using links_okD [of z L xs a "bs @ x # ws" i] links left i same by simp
    show ?thesis
    proof (cases "\<forall>b\<in>set bs. ?h b \<le> i")
      case True
      then have a: "a = ?u" using reaches_unique [OF r dus(1) left(1)] i same by auto
      have none: "first_with ?h i bs = None" using True by (simp add: first_with_None)
      have "first_with ?h i ws \<noteq> Some x" using first_with_Some [of ?h i ws x] dus(3) by auto
      then have "level_of z' ?u i = zlink ?h i (bs @ ws)"
        using True none old lx i del [unfolded deleted_links_def, rule_format, of ?u i] unfolding a
        by (cases "i < ?h x") (simp_all add: Let_def zlink_def first_with_append dist_low)
      then show ?thesis using a left same by simp
    next
      case False
      then have "a \<noteq> ?u" using reaches_unique [OF r dus(1) left(1)] i same by auto
      moreover have "zlink ?h i (bs @ x # ws) = zlink ?h i (bs @ ws)"
        using False zlink_hidden [of bs i ?h] by (auto simp: not_le)
      ultimately show ?thesis using old left by (simp add: lv Let_def same)
    qed
  next
    case (right cs)
    then have "a \<noteq> ?u" using dus u by auto
    moreover have "level_of z a i = zlink ?h i ys"
      using links_okD [of z L "us @ x # cs" a ys i] links right i same by simp
    ultimately show ?thesis by (simp add: lv Let_def same)
  qed
qed

lemma lower_levels_props:
  "1 \<le> l \<Longrightarrow> 1 \<le> lower_levels z l \<and> lower_levels z l \<le> l \<and>
   (\<forall>i. lower_levels z l \<le> i \<and> i < l \<longrightarrow> forward (level_of z (zheader z) i) = None)"
  by (induction l) (auto simp: less_Suc_eq)

lemma backward_delete:
  assumes old: "\<forall>xs a ys. as @ x # ws = xs @ a # ys \<longrightarrow> b a = (if xs = [] then None else Some (last xs))"
    and dist: "distinct (as @ x # ws)"
    and new: "\<And>a. a \<noteq> x \<Longrightarrow> b' a =
        (if ws \<noteq> [] \<and> a = hd ws then (if as = [] then None else Some (last as)) else b a)"
    and S: "as @ ws = xs @ a # ys" and ax: "a \<noteq> x"
  shows "b' a = (if xs = [] then None else Some (last xs))"
proof -
  consider (left) bs where "as = xs @ a # bs" | (right) cs where "ws = cs @ a # ys" "xs = as @ cs"
    using S by (auto simp: append_eq_append_conv2 append_eq_Cons_conv)
  then show ?thesis
  proof cases
    case (left bs)
    then have "\<not> (ws \<noteq> [] \<and> a = hd ws)" using dist by (cases ws) auto
    then show ?thesis using left ax old [rule_format, of xs a "bs @ x # ws"] by (auto simp: new)
  next
    case (right cs)
    show ?thesis
    proof (cases cs)
      case Nil
      then show ?thesis using right ax by (simp add: new)
    next
      case (Cons c cs')
      then have "a \<noteq> hd ws" using right dist by auto
      then show ?thesis using ax right Cons old [rule_format, of "as @ x # cs" a ys] by (simp add: new)
    qed
  qed
qed

lemma zsl_ok_deleteI:
  assumes ok: "zsl_ok z (as @ x # ws)"
    and fields: "zheader z' = zheader z" "zfresh z' = zfresh z" "zlength z' = zlength z - 1"
      "dom (znodes z') = dom (znodes z) - {x}"
      "ztail z' = (if ws = [] then (if as = [] then None else Some (last as)) else ztail z)"
    and ls: "1 \<le> zlevels z'" "zlevels z' \<le> zlevels z"
      "\<forall>i. zlevels z' \<le> i \<and> i < zlevels z \<longrightarrow> forward (level_of z' (zheader z) i) = None"
    and ht: "\<And>a. a \<noteq> x \<Longrightarrow> height z' a = height z a"
    and links: "links_ok z' (zlevels z) (zheader z # as @ ws)"
    and top: "\<forall>i<ZSKIPLIST_MAXLEVEL. zlevels z \<le> i \<longrightarrow> forward (level_of z' (zheader z) i) = None"
    and mem: "\<And>a. a \<noteq> x \<Longrightarrow> zmember (znode_of z' a) = zmember (znode_of z a)"
    and score: "\<And>a. a \<noteq> x \<Longrightarrow> zscore (znode_of z' a) = zscore (znode_of z a)"
    and bck: "\<And>a. a \<noteq> x \<Longrightarrow> backward (znode_of z' a) =
        (if ws \<noteq> [] \<and> a = hd ws then (if as = [] then None else Some (last as)) else backward (znode_of z a))"
  shows "zsl_ok z' (as @ ws)"
proof -
  let ?h = "zheader z"
  have dist: "distinct (?h # as @ x # ws)" using ok by (simp add: zsl_ok_def)
  then have notin: "a \<noteq> x" if "a \<in> set (?h # as @ ws)" for a using that by auto
  have links': "links_ok z' (zlevels z') (?h # as @ ws)"
    using links ls(2) by (auto simp: links_ok_def)
  have heights: "\<forall>a\<in>set (as @ ws). 1 \<le> height z' a \<and> height z' a \<le> zlevels z'"
  proof
    fix a
    assume a: "a \<in> set (as @ ws)"
    then have old: "1 \<le> height z' a" "height z' a \<le> zlevels z"
      using ok notin [of a] ht [of a] by (auto simp: zsl_ok_def)
    moreover have "height z' a \<le> zlevels z'" if "zlevels z' < zlevels z"
    proof -
      have "forward (level_of z' ?h (zlevels z')) = None" using ls(3) that by simp
      moreover have "zlevels z' < height z' ?h"
        using ok ht [of ?h] notin [of ?h] that by (simp add: zsl_ok_def)
      ultimately have "first_with (height z') (zlevels z') (as @ ws) = None"
        using links_okD [of z' "zlevels z" "[]" ?h "as @ ws" "zlevels z'"] links that by simp
      then show ?thesis using a by (simp add: first_with_None)
    qed
    ultimately show "1 \<le> height z' a \<and> height z' a \<le> zlevels z'" using ls(2) by fastforce
  qed
  have sorted: "sorted_wrt (\<lambda>a b. zkey_less (znode_of z' a) (znode_of z' b)) (as @ ws)"
  proof (rule sorted_wrt_mono_rel)
    show "sorted_wrt (\<lambda>a b. zkey_less (znode_of z a) (znode_of z b)) (as @ ws)"
      using ok by (simp add: zsl_ok_def sorted_wrt_append)
    show "zkey_less (znode_of z' a) (znode_of z' b)"
      if "a \<in> set (as @ ws)" "b \<in> set (as @ ws)" "zkey_less (znode_of z a) (znode_of z b)" for a b
      using that mem [of a] mem [of b] score [of a] score [of b] notin [of a] notin [of b]
      by (simp add: zkey_less_def node_before_def)
  qed
  have back': "\<forall>xs a ys. as @ ws = xs @ a # ys \<longrightarrow>
      backward (znode_of z' a) = (if xs = [] then None else Some (last xs))"
  proof (intro allI impI)
    fix xs a ys
    assume S: "as @ ws = xs @ a # ys"
    then have ax: "a \<noteq> x" using notin [of a] by (metis in_set_conv_decomp list.set_intros(2))
    have old: "\<forall>xs a ys. as @ x # ws = xs @ a # ys \<longrightarrow>
        backward (znode_of z a) = (if xs = [] then None else Some (last xs))"
      using ok unfolding zsl_ok_def by blast
    show "backward (znode_of z' a) = (if xs = [] then None else Some (last xs))"
      using backward_delete [OF old _ bck S ax] dist by simp
  qed
  have rest: "distinct (?h # as @ ws)" "zlength z' = length (as @ ws)"
    "dom (znodes z') = set (?h # as @ ws)" "\<forall>a\<in>set (?h # as @ ws). a < zfresh z'"
    "zlevels z' \<le> ZSKIPLIST_MAXLEVEL" "height z' ?h = ZSKIPLIST_MAXLEVEL"
    "\<forall>a\<in>set (as @ ws). \<not> d_isnan (zscore (znode_of z' a))"
    using ok dist ls(2) ht [of ?h] notin score by (auto simp: zsl_ok_def fields)
  have "\<forall>i<ZSKIPLIST_MAXLEVEL. zlevels z' \<le> i \<longrightarrow> forward (level_of z' ?h i) = None"
    using top ls(3) by (meson not_less)
  moreover have "ztail z' = (if as @ ws = [] then None else Some (last (as @ ws)))"
    using ok by (simp add: zsl_ok_def fields)
  ultimately show ?thesis
    using rest ls(1) heights links' back' sorted unfolding zsl_ok_def fields(1) by blast
qed

text \<open>
  Deleting a key that is present removes its node; deleting an absent one changes nothing.
\<close>

lemma search_next:
  assumes ok: "zsl_ok z (as @ ws)" and cuts: "cuts z cond (zheader z # as) ws"
  shows "forward (level_of z (fst (search_path z cond ! 0)) 0) = (if ws = [] then None else Some (hd ws))"
proof -
  let ?us = "zheader z # as"
  obtain vs where us: "?us = vs @ [last ?us]" by (metis append_butlast_last_id list.distinct(1))
  have "links_ok z (zlevels z) (?us @ ws)" using ok by (simp add: zsl_ok_def)
  then have "links_ok z (zlevels z) ((vs @ [last ?us]) @ ws)" by (simp only: us [symmetric])
  moreover have "0 < height z (last ?us)" "0 < zlevels z" and low: "\<forall>a\<in>set ws. 1 \<le> height z a"
    using ok by (cases as rule: rev_cases; auto simp: zsl_ok_def ZSKIPLIST_MAXLEVEL_def)+
  ultimately have "level_of z (last ?us) 0 = zlink (height z) 0 ws"
    using links_okD [of z "zlevels z" vs "last ?us" ws 0] by simp
  then show ?thesis
    using search_path_reaches(3) [OF ok cuts] low by (simp add: first_with_zero)
qed

lemma found_node_iff:
  assumes ok: "zsl_ok z (as @ ws)" and nn: "\<not> d_isnan score"
    and cuts: "cuts z (\<lambda>n r. node_before score member n) (zheader z # as) ws"
  shows "found_node z (search_path z (\<lambda>n r. node_before score member n)) score member =
    (if ws \<noteq> [] \<and> node_key z (hd ws) = zkey score member then Some (hd ws) else None)"
proof -
  note fw = search_next [OF ok cuts]
  have "inj uchar" by (rule injI) simp
  then have "d_eq (zscore (znode_of z a)) score \<and> zmember (znode_of z a) = member \<longleftrightarrow>
      node_key z a = zkey score member" if "a \<in> set ws" for a
    using ok nn that by (auto simp: zsl_ok_def node_key_def zkey_def d_eq_def inj_map_eq_map)
  then show ?thesis by (cases ws) (simp_all add: found_node_def fw)
qed

lemma zsl_cut_at:
  assumes ok: "zsl_ok z ns" and nn: "\<not> d_isnan score"
    and x: "x \<in> set ns" "node_key z x = zkey score member"
  obtains as ws where "ns = as @ x # ws"
    "cuts z (\<lambda>n r. node_before score member n) (zheader z # as) (x # ws)"
proof -
  obtain as ws where c: "ns = as @ ws" "\<forall>a\<in>set as. lex_less (node_key z a) (zkey score member)"
    "\<forall>a\<in>set ws. \<not> lex_less (node_key z a) (zkey score member)"
    "cuts z (\<lambda>n r. node_before score member n) (zheader z # as) ws"
    by (rule zsl_ok_cut_key [OF ok nn])
  have "x \<notin> set as" using c(2) x(2) lex_less_order(1) by metis
  then have "x \<in> set ws" using x(1) c(1) by simp
  then obtain w ws' where ws: "ws = w # ws'" by (cases ws) auto
  have "w = x"
  proof (rule ccontr)
    assume "w \<noteq> x"
    then have "x \<in> set ws'" using \<open>x \<in> set ws\<close> ws by simp
    moreover have "sorted_wrt (\<lambda>a b. lex_less (node_key z a) (node_key z b)) (w # ws')"
      using zsl_ok_sorted [OF ok] c(1) ws by (simp add: sorted_wrt_append)
    ultimately have "lex_less (node_key z w) (node_key z x)" by simp
    with c(3) ws x(2) show False by simp
  qed
  with c ws show thesis using that by blast
qed

lemma zsl_delete_ok:
  assumes ok: "zsl_ok z ns" and nn: "\<not> d_isnan score"
    and x: "x \<in> set ns" "node_key z x = zkey score member"
  obtains as ws z' where "ns = as @ x # ws" "zsl_delete z score member = (True, z')"
    "zsl_ok z' (as @ ws)"
    "\<And>a. a \<noteq> x \<Longrightarrow> zmember (znode_of z' a) = zmember (znode_of z a)"
    "\<And>a. a \<noteq> x \<Longrightarrow> zscore (znode_of z' a) = zscore (znode_of z a)"
proof -
  let ?h = "zheader z" and ?L = "zlevels z"
  let ?path = "search_path z (\<lambda>n r. node_before score member n)"
  obtain as ws where ns: "ns = as @ x # ws"
    and cuts: "cuts z (\<lambda>n r. node_before score member n) (?h # as) (x # ws)"
    by (rule zsl_cut_at [OF ok nn x])
  note okn = ok [unfolded ns]
  have found: "found_node z ?path score member = Some x"
    using found_node_iff [OF okn nn cuts] x by simp
  note reach = search_path_reaches(2) [OF okn cuts]
  have dist: "distinct ((?h # as) @ x # ws)" and dom: "dom (znodes z) = set (?h # as @ x # ws)"
    and links: "links_ok z ?L ((?h # as) @ x # ws)" and low: "\<forall>a\<in>set ns. 1 \<le> height z a"
    and top: "\<forall>i<ZSKIPLIST_MAXLEVEL. ?L \<le> i \<longrightarrow> forward (level_of z ?h i) = None"
    and hL: "?L \<le> height z ?h" "1 \<le> ?L"
    and bx: "backward (znode_of z x) = (if as = [] then None else Some (last as))"
    using okn ns by (simp_all add: zsl_ok_def)
  have u: "fst (?path ! i) \<in> dom (znodes z) \<and> i < height z (fst (?path ! i)) \<and> x \<noteq> fst (?path ! i)"
    if "i < ?L" for i
    using reaches_in [OF reach [OF that]] dist dom by auto
  define z1 where "z1 = fold (unlink_level ?path x) [0..<?L] z"
  note del = delete_loop [of ?L ?path z x, OF u, folded z1_def]
  have n1: "zheader z1 = ?h" "zfresh z1 = zfresh z" "ztail z1 = ztail z" "zlength z1 = zlength z"
    "zlevels z1 = ?L" "dom (znodes z1) = dom (znodes z)" "height z1 = height z"
    "\<And>a. zmember (znode_of z1 a) = zmember (znode_of z a)"
    "\<And>a. zscore (znode_of z1 a) = zscore (znode_of z a)"
    "\<And>a. backward (znode_of z1 a) = backward (znode_of z a)"
    using del(1) by (simp_all add: same_nodes_def)
  have links1: "links_ok z1 ?L ((?h # as) @ ws)"
    by (rule deleted_links_ok [OF links dist reach n1(7) del(2)])
  define bk where "bk = (if as = [] then None else Some (last as))"
  define z2 where "z2 = (case ws of y # _ \<Rightarrow> upd_node z1 y (\<lambda>n. n\<lparr>backward := bk\<rparr>) | [] \<Rightarrow> z1\<lparr>ztail := bk\<rparr>)"
  define z3 where "z3 = z2\<lparr>zlevels := lower_levels z2 ?L, zlength := zlength z - 1\<rparr>"
  have wsd: "set ws \<subseteq> dom (znodes z)" "x \<notin> set ws" "x \<noteq> ?h" "x \<notin> set as" using dom dist by auto
  have n2: "zheader z2 = ?h" "zfresh z2 = zfresh z" "zlength z2 = zlength z" "zlevels z2 = ?L"
    "dom (znodes z2) = dom (znodes z)" "height z2 = height z" "level_of z2 = level_of z1"
    "ztail z2 = (if ws = [] then bk else ztail z)"
    "\<And>a. zmember (znode_of z2 a) = zmember (znode_of z a)"
    "\<And>a. zscore (znode_of z2 a) = zscore (znode_of z a)"
    "\<And>a. backward (znode_of z2 a) = (if ws \<noteq> [] \<and> a = hd ws then bk else backward (znode_of z a))"
    using wsd by (auto simp: z2_def n1 split: list.splits)
  have x1: "level_of z1 x 0 = level_of z x 0"
    using del(2) [unfolded deleted_links_def, rule_format, of x 0] u [of 0] hL by (simp add: Let_def)
  have "level_of z x 0 = zlink (height z) 0 ws"
    using links_okD [OF links, of 0] low ns hL by (simp add: Suc_le_eq)
  then have fw: "forward (level_of z1 x 0) = (if ws = [] then None else Some (hd ws))"
    using low ns by (simp add: x1 first_with_zero)
  have "zsl_delete_node z x ?path = z3"
    using fw bx unfolding zsl_delete_node_def Let_def z1_def [symmetric]
    by (cases ws) (simp_all add: z3_def z2_def n1 bk_def)
  then have "zsl_delete z score member = (True, zsl_free_node z3 x)"
    using found by (simp add: zsl_delete_def Let_def)
  moreover have node3: "znode_of (zsl_free_node z3 x) a = znode_of z2 a" if "a \<noteq> x" for a
    using that by (simp add: zsl_free_node_def znode_of_def z3_def)
  have ht3: "height (zsl_free_node z3 x) a = height z a" "level_of (zsl_free_node z3 x) a i = level_of z1 a i"
    if "a \<noteq> x" for a i
    using node3 [OF that] n2(6,7) by (simp_all add: height_def level_of_def fun_eq_iff)
  have "zsl_ok (zsl_free_node z3 x) (as @ ws)"
  proof (rule zsl_ok_deleteI [OF okn])
    note ll = lower_levels_props [OF hL(2), of z2, unfolded n2(1,7)]
    show "1 \<le> zlevels (zsl_free_node z3 x)" "zlevels (zsl_free_node z3 x) \<le> ?L"
      "\<forall>i. zlevels (zsl_free_node z3 x) \<le> i \<and> i < ?L \<longrightarrow> forward (level_of (zsl_free_node z3 x) ?h i) = None"
      using ll ht3(2) [of ?h] wsd(3) by (simp_all add: zsl_free_node_def z3_def)
    show "links_ok (zsl_free_node z3 x) ?L (?h # as @ ws)"
    proof (rule links_ok_cong [OF _ _ links1 [unfolded append_Cons]])
      fix a i assume "a \<in> set (?h # as @ ws)"
      then have "a \<noteq> x" using wsd by auto
      then show "height (zsl_free_node z3 x) a = height z1 a"
        "level_of (zsl_free_node z3 x) a i = level_of z1 a i" using ht3 n1(7) by simp_all
    qed
    have "level_of z1 ?h i = level_of z ?h i" if "?L \<le> i" for i
      using del(2) [unfolded deleted_links_def, rule_format, of ?h i] that by (simp add: Let_def)
    then show "\<forall>i<ZSKIPLIST_MAXLEVEL. ?L \<le> i \<longrightarrow> forward (level_of (zsl_free_node z3 x) ?h i) = None"
      using top ht3(2) [of ?h] wsd(3) by simp
  qed (use node3 n2 ht3 in \<open>auto simp: zsl_free_node_def z3_def bk_def\<close>)
  ultimately show thesis
    using that [OF ns] node3 n2(9,10) by simp
qed

lemma zsl_absent:
  assumes ok: "zsl_ok z ns" and nn: "\<not> d_isnan score"
    and x: "\<forall>a\<in>set ns. node_key z a \<noteq> zkey score member"
  shows "zsl_delete z score member = (False, z)" "zsl_get_rank z score member = 0"
proof -
  obtain as ws where c: "ns = as @ ws"
    "cuts z (\<lambda>n r. node_before score member n) (zheader z # as) ws"
    by (rule zsl_ok_cut_key [OF ok nn])
  have "found_node z (search_path z (\<lambda>n r. node_before score member n)) score member = None"
    using found_node_iff [OF ok [unfolded c(1)] nn c(2)] x c(1) by (cases ws) simp_all
  then show "zsl_delete z score member = (False, z)" "zsl_get_rank z score member = 0"
    by (simp_all add: zsl_delete_def zsl_get_rank_def)
qed

section \<open>Ranks and ranges\<close>

lemma zsl_get_rank_ok:
  assumes ok: "zsl_ok z ns" and i: "i < length ns"
  shows "zsl_get_rank z (zscore (znode_of z (ns ! i))) (zmember (znode_of z (ns ! i))) = int i + 1"
proof -
  let ?s = "zscore (znode_of z (ns ! i))" and ?m = "zmember (znode_of z (ns ! i))"
  have nn: "\<not> d_isnan ?s" and dist: "distinct ns" using ok i by (simp_all add: zsl_ok_def)
  obtain as ws where c: "ns = as @ ns ! i # ws"
    "cuts z (\<lambda>n r. node_before ?s ?m n) (zheader z # as) (ns ! i # ws)"
    by (rule zsl_cut_at [OF ok nn nth_mem [OF i] node_key_def])
  have ok': "zsl_ok z (as @ ns ! i # ws)" using ok by (subst (asm) c(1))
  have "ns ! length as = ns ! i" "length as < length ns" by (subst c(1), simp, subst c(1), simp)
  then have "length as = i" using dist i by (simp add: nth_eq_iff_index_eq)
  then show ?thesis
    using found_node_iff [OF ok' nn c(2)] search_path_reaches(3) [OF ok' c(2)]
    by (simp add: zsl_get_rank_def node_key_def)
qed

lemma rank_loop_ok:
  assumes links: "links_ok z m (us @ ws)" and cuts: "cuts z (\<lambda>n r. r \<le> rank) us ws"
    and len: "length us \<le> Suc (zlength z)" and low: "\<forall>a\<in>set (tl us). 1 \<le> height z a"
    and us: "int (length us) \<le> rank + 1" "us \<noteq> []"
  shows "l \<le> m \<Longrightarrow> us = as @ x # bs \<Longrightarrow> l \<le> height z x \<Longrightarrow>
    (l = 0 \<longrightarrow> bs = [] \<and> int (length as) \<noteq> rank) \<Longrightarrow>
    rank_loop z rank l x (int (length as)) = (if int (length us) = rank + 1 then Some (last us) else None)"
proof (induction l arbitrary: as x bs)
  case 0
  then show ?case by simp
next
  case (Suc l)
  obtain x' t' where ad: "advance (zlength z) z (\<lambda>n r. r \<le> rank) l x (int (length as)) = (x', t')" by fastforce
  have "reaches z l us x' t'"
    using advance_reaches [OF links cuts, of l as x bs "zlength z"] Suc.prems len ad by simp
  then obtain as' bs' where r: "us = as' @ x' # bs'" "t' = int (length as')" "l < height z x'"
    "\<forall>b\<in>set bs'. height z b \<le> l"
    by (auto simp: reaches_def)
  show ?case
  proof (cases "t' = rank")
    case True
    then have "bs' = []" using r(1,2) us(1) by simp
    then show ?thesis using True r ad by simp
  next
    case False
    have "bs' = []" if "l = 0"
      using r(1,4) low that by (cases as'; cases bs') force+
    then have "rank_loop z rank l x' t' = (if int (length us) = rank + 1 then Some (last us) else None)"
      using Suc.IH [of as' x' bs'] Suc.prems(1) r False by simp
    then show ?thesis using False ad by simp
  qed
qed

lemma zsl_get_element_by_rank_ok:
  assumes ok: "zsl_ok z ns"
  shows "zsl_get_element_by_rank z (int k) = (if 1 \<le> k \<and> k \<le> length ns then Some (ns ! (k - 1)) else None)"
proof (cases "k = 0")
  case False
  let ?us = "zheader z # take k ns" and ?ws = "drop k ns"
  have "cuts z (\<lambda>n r. r \<le> int k) ?us ?ws" by (rule cuts_rank) auto
  moreover have "links_ok z (zlevels z) (?us @ ?ws)" "length ?us \<le> Suc (zlength z)"
    "\<forall>a\<in>set (tl ?us). 1 \<le> height z a" "zlevels z \<le> height z (zheader z)" "1 \<le> zlevels z"
    using ok by (auto simp: zsl_ok_def dest: in_set_takeD)
  ultimately have "rank_loop z (int k) (zlevels z) (zheader z) 0 =
      (if int (length ?us) = int k + 1 then Some (last ?us) else None)"
    using rank_loop_ok [of z "zlevels z" ?us ?ws "int k" "zlevels z" "[]" "zheader z" "take k ns"] by simp
  moreover have "last ?us = ns ! (k - 1)" if "k \<le> length ns"
    using False that by (cases ns) (simp_all add: last_conv_nth min_def)
  ultimately show ?thesis using False by (simp add: zsl_get_element_by_rank_def min_def)
qed (simp add: zsl_get_element_by_rank_def)

lemma zsl_score_cut:
  assumes ok: "zsl_ok z ns"
    and mono: "\<And>a b. \<not> d_isnan a \<Longrightarrow> \<not> d_isnan b \<Longrightarrow> d_ord a \<le> d_ord b \<Longrightarrow> P b \<Longrightarrow> P a"
  obtains as ws where "ns = as @ ws" "\<forall>a\<in>set as. P (zscore (znode_of z a))"
    "\<forall>a\<in>set ws. \<not> P (zscore (znode_of z a))" "cuts z (\<lambda>n r. P (zscore n)) (zheader z # as) ws"
proof -
  have nan: "\<forall>a\<in>set ns. \<not> d_isnan (zscore (znode_of z a))" using ok by (simp add: zsl_ok_def)
  have "P (zscore (znode_of z a))" if "a \<in> set ns" "b \<in> set ns"
    "lex_less (node_key z a) (node_key z b)" "P (zscore (znode_of z b))" for a b
    using that nan mono [of "zscore (znode_of z a)" "zscore (znode_of z b)"]
    by (auto simp: lex_less_def node_key_def zkey_def)
  then obtain as ws where c: "ns = as @ ws" "\<forall>a\<in>set as. P (zscore (znode_of z a))"
    "\<forall>a\<in>set ws. \<not> P (zscore (znode_of z a))"
    by (rule sorted_cut [OF zsl_ok_sorted [OF ok], of "\<lambda>a. P (zscore (znode_of z a))"])
  with cuts_prefix [OF c(2,3)] show thesis using that by blast
qed

definition below_min :: "double \<Rightarrow> bool \<Rightarrow> double \<Rightarrow> bool" where
  "below_min mn minex s = (d_less s mn \<or> minex \<and> d_eq s mn)"

definition below_max :: "double \<Rightarrow> bool \<Rightarrow> double \<Rightarrow> bool" where
  "below_max mx maxex s = (d_less s mx \<or> \<not> maxex \<and> d_eq s mx)"

lemma below_mono:
  assumes "\<not> d_isnan a" "\<not> d_isnan b" "d_ord a \<le> d_ord b"
  shows "below_min mn ex b \<Longrightarrow> below_min mn ex a" "below_max mn ex b \<Longrightarrow> below_max mn ex a"
  using assms by (auto simp: below_min_def below_max_def d_less_def d_eq_def)

lemma zsl_first_in_score_range_ok:
  assumes ok: "zsl_ok z ns"
  shows "zsl_first_in_score_range z mn minex =
    find (\<lambda>a. \<not> below_min mn minex (zscore (znode_of z a))) ns"
proof -
  obtain as ws where c: "ns = as @ ws" "\<forall>a\<in>set as. below_min mn minex (zscore (znode_of z a))"
    "\<forall>a\<in>set ws. \<not> below_min mn minex (zscore (znode_of z a))"
    "cuts z (\<lambda>n r. below_min mn minex (zscore n)) (zheader z # as) ws"
    by (rule zsl_score_cut [OF ok below_mono(1)])
  have "find (\<lambda>a. \<not> below_min mn minex (zscore (znode_of z a))) (as @ ws) =
      (if ws = [] then None else Some (hd ws))"
    using c(2,3) by (induction as) (auto simp: neq_Nil_conv)
  then show ?thesis
    using search_next [OF ok [unfolded c(1)] c(4)] c(1)
    by (simp add: zsl_first_in_score_range_def below_min_def)
qed

lemma zsl_last_in_score_range_ok:
  assumes ok: "zsl_ok z ns"
  shows "zsl_last_in_score_range z mx maxex =
    find (\<lambda>a. below_max mx maxex (zscore (znode_of z a))) (rev ns)"
proof -
  obtain as ws where c: "ns = as @ ws" "\<forall>a\<in>set as. below_max mx maxex (zscore (znode_of z a))"
    "\<forall>a\<in>set ws. \<not> below_max mx maxex (zscore (znode_of z a))"
    "cuts z (\<lambda>n r. below_max mx maxex (zscore n)) (zheader z # as) ws"
    by (rule zsl_score_cut [OF ok below_mono(2)])
  have "find (\<lambda>a. below_max mx maxex (zscore (znode_of z a))) (rev (as @ ws)) =
      (if as = [] then None else Some (last as))"
    using c(2,3) by (induction ws rule: rev_induct; cases as rule: rev_cases) auto
  moreover have "distinct (zheader z # as)" using ok c(1) by (simp add: zsl_ok_def)
  ultimately show ?thesis
    using search_path_reaches(3) [OF ok [unfolded c(1)] c(4)] c(1) last_Cons_header [of "zheader z" as]
    by (cases "as = []") (simp_all add: zsl_last_in_score_range_def below_max_def split: if_splits)
qed

lemma zsl_create_ok [simp]: "zsl_ok zsl_create []"
  by (auto simp: zsl_ok_def zsl_create_def height_def znode_of_def links_ok_def level_of_def
      zlink_def empty_level_def ZSKIPLIST_MAXLEVEL_def Cons_eq_append_conv)

end
