(* ===== verification/Zset.thy ===== *)
theory Zset
  imports Dict Zskiplist
begin

text \<open>
  The sorted set of \<open>src/zskiplist.c\<close>: a skip list in the order of the scores, with a dict from
  each member to its node.
\<close>

section \<open>The sorted set\<close>

record zset =
  zdict :: "nat dict"
  zsl :: zskiplist

definition zset_create :: "bytes \<Rightarrow> zset" where
  "zset_create seed = \<lparr>zdict = dict_create seed, zsl = zsl_create\<rparr>"

definition zset_len :: "zset \<Rightarrow> nat" where
  "zset_len zs = zsl_len (zsl zs)"

text \<open>Result of \<open>zset_add\<close>: 1 for a new member, 2 for a new score, 0 for the same score.\<close>

definition zset_add :: "(nat \<Rightarrow> nat) \<Rightarrow> nat \<Rightarrow> zset \<Rightarrow> double \<Rightarrow> bytes \<Rightarrow> int \<times> nat \<times> zset \<times> nat" where
  "zset_add rand pos zs score member =
     (case dict_get (zdict zs) member of
        Some n \<Rightarrow>
          let node = znode_of (zsl zs) n in
          if d_eq (zscore node) score then (0, n, zs, pos)
          else let z1 = snd (zsl_delete (zsl zs) (zscore node) (zmember node));
                   d1 = snd (dict_delete (zdict zs) member)
               in case zsl_insert rand pos z1 score member of
                    (x, z2, pos') \<Rightarrow> (2, x, \<lparr>zdict = snd (dict_set d1 member x), zsl = z2\<rparr>, pos')
      | None \<Rightarrow>
          case zsl_insert rand pos (zsl zs) score member of
            (x, z2, pos') \<Rightarrow> (1, x, \<lparr>zdict = snd (dict_set (zdict zs) member x), zsl = z2\<rparr>, pos'))"

definition zset_remove :: "zset \<Rightarrow> bytes \<Rightarrow> bool \<times> zset" where
  "zset_remove zs member =
     (case dict_get (zdict zs) member of
        None \<Rightarrow> (False, zs)
      | Some n \<Rightarrow>
          let node = znode_of (zsl zs) n
          in (True, \<lparr>zdict = snd (dict_delete (zdict zs) member),
                     zsl = snd (zsl_delete (zsl zs) (zscore node) (zmember node))\<rparr>))"

definition zset_score :: "zset \<Rightarrow> bytes \<Rightarrow> double option" where
  "zset_score zs member =
     map_option (\<lambda>n. zscore (znode_of (zsl zs) n)) (dict_get (zdict zs) member)"

section \<open>The nodes in order\<close>

text \<open>
  Following \<open>level[0].forward\<close>, respectively \<open>backward\<close>, for at most \<open>n\<close> nodes, as the range
  commands do.
\<close>

fun zsl_walk :: "nat \<Rightarrow> zskiplist \<Rightarrow> nat option \<Rightarrow> nat list" where
  "zsl_walk 0 z a = []"
| "zsl_walk (Suc n) z None = []"
| "zsl_walk (Suc n) z (Some a) = a # zsl_walk n z (forward (level_of z a 0))"

fun zsl_walk_back :: "nat \<Rightarrow> zskiplist \<Rightarrow> nat option \<Rightarrow> nat list" where
  "zsl_walk_back 0 z a = []"
| "zsl_walk_back (Suc n) z None = []"
| "zsl_walk_back (Suc n) z (Some a) = a # zsl_walk_back n z (backward (znode_of z a))"

definition zsl_nodes :: "zskiplist \<Rightarrow> nat list" where
  "zsl_nodes z = zsl_walk (zlength z) z (forward (level_of z (zheader z) 0))"

definition hd_opt :: "'a list \<Rightarrow> 'a option" where
  "hd_opt xs = (if xs = [] then None else Some (hd xs))"

lemma hd_opt_simps [simp]: "hd_opt [] = None" "hd_opt (x # xs) = Some x"
  by (simp_all add: hd_opt_def)

lemma zsl_forward_ok:
  assumes "zsl_ok z ns" "zheader z # ns = as @ a # ws"
  shows "forward (level_of z a 0) = hd_opt ws"
proof -
  have "level_of z a 0 = zlink (height z) 0 ws"
  proof (rule links_okD)
    show "links_ok z (zlevels z) (as @ a # ws)" using assms by (simp add: zsl_ok_def)
    show "0 < height z a" "0 < zlevels z"
      using assms by (cases as; auto simp: zsl_ok_def ZSKIPLIST_MAXLEVEL_def Suc_le_eq)+
  qed
  moreover have "\<forall>b\<in>set ws. 1 \<le> height z b"
    using assms by (cases as) (auto simp: zsl_ok_def)
  ultimately show ?thesis by (simp add: first_with_zero hd_opt_def)
qed

lemma zsl_walk_ok: "zsl_ok z (as @ ws) \<Longrightarrow> zsl_walk n z (hd_opt ws) = take n ws"
proof (induction n arbitrary: as ws)
  case (Suc n)
  show ?case
  proof (cases ws)
    case (Cons a us)
    then have "zsl_walk n z (hd_opt us) = take n us" using Suc.IH [of "as @ [a]" us] Suc.prems by simp
    moreover have "forward (level_of z a 0) = hd_opt us"
      using zsl_forward_ok [OF Suc.prems, of "zheader z # as" a us] Cons by simp
    ultimately show ?thesis using Cons by simp
  qed simp
qed simp

lemma zsl_walk_back_ok: "zsl_ok z (as @ ws) \<Longrightarrow> zsl_walk_back n z (hd_opt (rev as)) = take n (rev as)"
proof (induction n arbitrary: as ws)
  case (Suc n)
  show ?case
  proof (cases as rule: rev_cases)
    case (snoc us a)
    then have "zsl_walk_back n z (hd_opt (rev us)) = take n (rev us)"
      using Suc.IH [of us "a # ws"] Suc.prems by simp
    moreover have "backward (znode_of z a) = (if us = [] then None else Some (last us))"
      using Suc.prems snoc unfolding zsl_ok_def by auto
    ultimately show ?thesis using snoc by (cases us rule: rev_cases) simp_all
  qed simp
qed simp

lemma zsl_nodes_ok: "zsl_ok z ns \<Longrightarrow> zsl_nodes z = ns"
  using zsl_walk_ok [of z "[]" ns "zlength z"] zsl_forward_ok [of z ns "[]" "zheader z" ns]
  by (simp add: zsl_nodes_def) (simp add: zsl_ok_def)

section \<open>The invariant\<close>

text \<open>
  The dict holds exactly the nodes of the skip list, each under its member.
\<close>

definition zset_ok :: "zset \<Rightarrow> bool" where
  "zset_ok zs =
     (dict_ok (zdict zs) \<and> zsl_ok (zsl zs) (zsl_nodes (zsl zs)) \<and>
      (\<forall>m n. dict_get (zdict zs) m = Some n \<longleftrightarrow>
         n \<in> set (zsl_nodes (zsl zs)) \<and> zmember (znode_of (zsl zs) n) = m))"

text \<open>The members with their scores, in the order of the skip list.\<close>

definition node_item :: "zskiplist \<Rightarrow> nat \<Rightarrow> bytes \<times> double" where
  "node_item z n = (zmember (znode_of z n), zscore (znode_of z n))"

definition zset_items :: "zset \<Rightarrow> (bytes \<times> double) list" where
  "zset_items zs = map (node_item (zsl zs)) (zsl_nodes (zsl zs))"

definition item_less :: "bytes \<times> double \<Rightarrow> bytes \<times> double \<Rightarrow> bool" where
  "item_less p q = (d_less (snd p) (snd q) \<or> d_eq (snd p) (snd q) \<and> member_less (fst p) (fst q))"

lemma zset_okI:
  assumes "dict_ok d" "zsl_ok z ns"
    "\<And>m n. dict_get d m = Some n \<longleftrightarrow> n \<in> set ns \<and> zmember (znode_of z n) = m"
  shows "zset_ok \<lparr>zdict = d, zsl = z\<rparr>"
  using assms zsl_nodes_ok [OF assms(2)] by (simp add: zset_ok_def)

lemma zset_create_ok [simp]: "zset_ok (zset_create seed)"
  unfolding zset_create_def by (rule zset_okI [of _ _ "[]"]) simp_all

lemma zset_create_score [simp]: "zset_score (zset_create seed) = Map.empty"
  by (simp add: zset_score_def zset_create_def fun_eq_iff)

lemma zset_score_items:
  assumes "zset_ok zs"
  shows "zset_score zs m = Some s \<longleftrightarrow> (m, s) \<in> set (zset_items zs)"
  using assms by (auto simp: zset_ok_def zset_score_def zset_items_def node_item_def image_iff)

lemma zset_items_sorted:
  assumes "zset_ok zs"
  shows "sorted_wrt item_less (zset_items zs)" "distinct (map fst (zset_items zs))"
proof -
  let ?z = "zsl zs" and ?ns = "zsl_nodes (zsl zs)"
  have z: "zsl_ok ?z ?ns" using assms by (simp add: zset_ok_def)
  then show "sorted_wrt item_less (zset_items zs)"
    by (simp add: zsl_ok_def zset_items_def sorted_wrt_map node_item_def item_less_def zkey_less_def
        node_before_def)
  have "inj_on (\<lambda>n. zmember (znode_of ?z n)) (set ?ns)"
    using assms by (intro inj_onI) (metis option.inject zset_ok_def)
  then show "distinct (map fst (zset_items zs))"
    using z by (simp add: zset_items_def zsl_ok_def comp_def node_item_def distinct_map)
qed

lemma zset_items_map:
  "zset_ok zs \<Longrightarrow> map_of (zset_items zs) = zset_score zs"
  using zset_items_sorted(2) zset_score_items by (metis map_of_eq_Some_iff not_Some_eq ext)

lemma zset_len_ok: "zset_ok zs \<Longrightarrow> zset_len zs = length (zset_items zs)"
  by (simp add: zset_len_def zsl_len_def zset_items_def zset_ok_def zsl_ok_def)

lemma zset_score_not_nan: "zset_ok zs \<Longrightarrow> zset_score zs m = Some s \<Longrightarrow> \<not> d_isnan s"
  by (auto simp: zset_ok_def zset_score_def zsl_ok_def)

lemma zset_len_card: "zset_ok zs \<Longrightarrow> zset_len zs = card (dom (zset_score zs))"
  by (metis zset_len_ok zset_items_sorted(2) zset_items_map distinct_card dom_map_of_conv_image_fst
      length_map list.set_map)

section \<open>The operations\<close>

text \<open>Insertion of an absent member and deletion of a present one, on dict and skip list together.\<close>

lemma zset_insert_absent:
  assumes ok: "zset_ok zs" and nn: "\<not> d_isnan score" and abs: "dict_get (zdict zs) member = None"
  obtains x z' pos' where "zsl_insert rand pos (zsl zs) score member = (x, z', pos')"
    "zset_ok \<lparr>zdict = snd (dict_set (zdict zs) member x), zsl = z'\<rparr>"
    "zset_score \<lparr>zdict = snd (dict_set (zdict zs) member x), zsl = z'\<rparr> = (zset_score zs)(member \<mapsto> score)"
    "zscore (znode_of z' x) = score"
proof -
  let ?z = "zsl zs" and ?ns = "zsl_nodes (zsl zs)" and ?d = "zdict zs"
  have d: "dict_ok ?d" and z: "zsl_ok ?z ?ns"
    and idx: "\<And>m n. dict_get ?d m = Some n \<longleftrightarrow> n \<in> set ?ns \<and> zmember (znode_of ?z n) = m"
    using ok by (simp_all add: zset_ok_def)
  have "inj uchar" by (rule injI) simp
  moreover have "zmember (znode_of ?z a) \<noteq> member" if "a \<in> set ?ns" for a
    using abs idx [of member a] that by simp
  ultimately have "\<forall>a\<in>set ?ns. node_key ?z a \<noteq> zkey score member"
    by (auto simp: node_key_def zkey_def inj_map_eq_map)
  then obtain as ws z' pos' where ins: "?ns = as @ ws"
    "zsl_insert rand pos ?z score member = (zfresh ?z, z', pos')" "zsl_ok z' (as @ zfresh ?z # ws)"
    "\<And>a. zmember (znode_of z' a) = (if a = zfresh ?z then member else zmember (znode_of ?z a))"
    "\<And>a. zscore (znode_of z' a) = (if a = zfresh ?z then score else zscore (znode_of ?z a))"
    by (rule zsl_insert_ok [OF z nn, where rand = rand and pos = pos]) (rule that)
  have fresh: "zfresh ?z \<notin> set ?ns" using z by (auto simp: zsl_ok_def)
  then have idx': "dict_get ?d m \<noteq> Some (zfresh ?z)" for m using idx by blast
  let ?zs = "\<lparr>zdict = snd (dict_set ?d member (zfresh ?z)), zsl = z'\<rparr>"
  have "zset_ok ?zs"
  proof (rule zset_okI [OF _ ins(3)])
    show "dict_get (snd (dict_set ?d member (zfresh ?z))) m = Some n \<longleftrightarrow>
        n \<in> set (as @ zfresh ?z # ws) \<and> zmember (znode_of z' n) = m" for m n
      using abs idx [of m n] idx [of member n] fresh ins(1,4) by (auto simp: dict_set_eqs [OF d])
  qed (simp add: dict_set_eqs d)
  moreover have "zset_score ?zs m = ((zset_score zs)(member \<mapsto> score)) m" for m
    using idx' [of m]
    by (cases "dict_get ?d m") (auto simp: zset_score_def dict_set_eqs d ins(5))
  moreover have "zscore (znode_of z' (zfresh ?z)) = score" by (simp add: ins(5))
  ultimately show thesis using that [OF ins(2)] by (simp add: fun_eq_iff)
qed

lemma zset_delete_present:
  assumes ok: "zset_ok zs" and n: "dict_get (zdict zs) member = Some n"
  defines "node \<equiv> znode_of (zsl zs) n"
  defines "zs' \<equiv> \<lparr>zdict = snd (dict_delete (zdict zs) member),
      zsl = snd (zsl_delete (zsl zs) (zscore node) (zmember node))\<rparr>"
  shows "zset_ok zs'" "zset_score zs' = (zset_score zs)(member := None)"
proof -
  let ?z = "zsl zs" and ?ns = "zsl_nodes (zsl zs)" and ?d = "zdict zs"
  have d: "dict_ok ?d" and z: "zsl_ok ?z ?ns"
    and idx: "\<And>m n. dict_get ?d m = Some n \<longleftrightarrow> n \<in> set ?ns \<and> zmember (znode_of ?z n) = m"
    using ok by (simp_all add: zset_ok_def)
  have n': "n \<in> set ?ns" "zmember node = member" using idx n by (auto simp: node_def)
  then have nn: "\<not> d_isnan (zscore node)" using z by (simp add: zsl_ok_def node_def)
  have key: "node_key ?z n = zkey (zscore node) (zmember node)" by (simp add: node_key_def node_def)
  obtain as ws z' where del: "?ns = as @ n # ws" "zsl_delete ?z (zscore node) (zmember node) = (True, z')"
    "zsl_ok z' (as @ ws)"
    "\<And>a. a \<noteq> n \<Longrightarrow> zmember (znode_of z' a) = zmember (znode_of ?z a)"
    "\<And>a. a \<noteq> n \<Longrightarrow> zscore (znode_of z' a) = zscore (znode_of ?z a)"
    by (rule zsl_delete_ok [OF z nn n'(1) key]) (rule that)
  have zs': "zs' = \<lparr>zdict = snd (dict_delete ?d member), zsl = z'\<rparr>" by (simp add: zs'_def del)
  have set: "a \<in> set (as @ ws) \<longleftrightarrow> a \<in> set ?ns \<and> a \<noteq> n" for a
    using z del(1) by (auto simp: zsl_ok_def)
  have other: "m \<noteq> member \<Longrightarrow> dict_get ?d m = Some a \<Longrightarrow> a \<noteq> n" for m a
    using idx n by (metis option.inject)
  show "zset_ok zs'" unfolding zs'
  proof (rule zset_okI [OF _ del(3)])
    show "dict_get (snd (dict_delete ?d member)) m = Some a \<longleftrightarrow>
        a \<in> set (as @ ws) \<and> zmember (znode_of z' a) = m" for m a
    proof (cases "a = n")
      case True
      then show ?thesis
        using idx [of m n] n'(2) set [of n] by (auto simp: dict_delete_eqs [OF d] node_def)
    next
      case False
      then have "dict_get ?d member \<noteq> Some a" using n by simp
      then show ?thesis
        using False idx [of m a] idx [of member a] del(4) [of a] set [of a]
        by (simp add: dict_delete_eqs [OF d])
    qed
  qed (simp add: dict_delete_eqs d)
  have "zset_score zs' m = ((zset_score zs)(member := None)) m" for m
    unfolding zs' using other [of m] del(5)
    by (cases "dict_get ?d m") (simp_all add: zset_score_def dict_delete_eqs d)
  then show "zset_score zs' = (zset_score zs)(member := None)" by blast
qed

definition zadd_result :: "(bytes \<Rightarrow> double option) \<Rightarrow> double \<Rightarrow> bytes \<Rightarrow> int" where
  "zadd_result m score member =
     (case m member of None \<Rightarrow> 1 | Some s \<Rightarrow> if d_eq s score then 0 else 2)"

definition zadd_map :: "(bytes \<Rightarrow> double option) \<Rightarrow> double \<Rightarrow> bytes \<Rightarrow> bytes \<Rightarrow> double option" where
  "zadd_map m score member =
     (case m member of
        None \<Rightarrow> m(member \<mapsto> score)
      | Some s \<Rightarrow> if d_eq s score then m else m(member \<mapsto> score))"

lemma zset_add_ok:
  assumes ok: "zset_ok zs" and nn: "\<not> d_isnan score"
  obtains n zs' pos' where
    "zset_add rand pos zs score member = (zadd_result (zset_score zs) score member, n, zs', pos')"
    "zset_ok zs'" "zset_score zs' = zadd_map (zset_score zs) score member"
    "zset_score zs' member = Some (zscore (znode_of (zsl zs') n))"
proof (cases "dict_get (zdict zs) member")
  case None
  obtain x z' pos' where ins: "zsl_insert rand pos (zsl zs) score member = (x, z', pos')"
    "zset_ok \<lparr>zdict = snd (dict_set (zdict zs) member x), zsl = z'\<rparr>"
    "zset_score \<lparr>zdict = snd (dict_set (zdict zs) member x), zsl = z'\<rparr> = (zset_score zs)(member \<mapsto> score)"
    "zscore (znode_of z' x) = score"
    by (rule zset_insert_absent [OF ok nn None])
  have "zset_score zs member = None" using None by (simp add: zset_score_def)
  with None ins show thesis
    by (intro that [of x "\<lparr>zdict = snd (dict_set (zdict zs) member x), zsl = z'\<rparr>" pos'])
      (simp_all add: zset_add_def zadd_result_def zadd_map_def)
next
  case (Some n)
  let ?node = "znode_of (zsl zs) n"
  have sc: "zset_score zs member = Some (zscore ?node)" using Some by (simp add: zset_score_def)
  show thesis
  proof (cases "d_eq (zscore ?node) score")
    case True
    with Some sc ok show thesis
      by (intro that [of n zs pos]) (simp_all add: zset_add_def zadd_result_def zadd_map_def)
  next
    case False
    let ?zs = "\<lparr>zdict = snd (dict_delete (zdict zs) member),
      zsl = snd (zsl_delete (zsl zs) (zscore ?node) (zmember ?node))\<rparr>"
    note del = zset_delete_present [OF ok Some]
    have gone: "dict_get (zdict ?zs) member = None"
      using ok by (simp add: zset_ok_def dict_delete_eqs)
    obtain x z' pos' where ins: "zsl_insert rand pos (zsl ?zs) score member = (x, z', pos')"
      "zset_ok \<lparr>zdict = snd (dict_set (zdict ?zs) member x), zsl = z'\<rparr>"
      "zset_score \<lparr>zdict = snd (dict_set (zdict ?zs) member x), zsl = z'\<rparr> =
        (zset_score ?zs)(member \<mapsto> score)" "zscore (znode_of z' x) = score"
      by (rule zset_insert_absent [OF del(1) nn gone])
    show thesis
      using Some sc False ins del(2)
      by (intro that [of x "\<lparr>zdict = snd (dict_set (zdict ?zs) member x), zsl = z'\<rparr>" pos'])
        (simp_all add: zset_add_def zadd_result_def zadd_map_def Let_def)
  qed
qed

lemma zset_remove_ok:
  assumes ok: "zset_ok zs"
  shows "fst (zset_remove zs member) = (zset_score zs member \<noteq> None)"
    and "zset_ok (snd (zset_remove zs member))"
    and "zset_score (snd (zset_remove zs member)) = (zset_score zs)(member := None)"
proof -
  show "fst (zset_remove zs member) = (zset_score zs member \<noteq> None)"
    by (simp add: zset_remove_def zset_score_def Let_def split: option.split)
  have "zset_ok (snd (zset_remove zs member)) \<and>
      zset_score (snd (zset_remove zs member)) = (zset_score zs)(member := None)"
  proof (cases "dict_get (zdict zs) member")
    case None
    then have "zset_score zs member = None" by (simp add: zset_score_def)
    with None ok show ?thesis by (simp add: zset_remove_def fun_upd_idem)
  next
    case (Some n)
    then show ?thesis
      using zset_delete_present [OF ok Some] by (simp add: zset_remove_def Let_def)
  qed
  then show "zset_ok (snd (zset_remove zs member))"
    and "zset_score (snd (zset_remove zs member)) = (zset_score zs)(member := None)" by simp_all
qed

lemma zset_rank_ok:
  assumes "zset_ok zs" "i < length (zset_items zs)" "zset_items zs ! i = (m, s)"
  shows "zsl_get_rank (zsl zs) s m = int i + 1"
  using zsl_get_rank_ok [of "zsl zs" "zsl_nodes (zsl zs)" i] assms
  by (auto simp: zset_items_def zset_ok_def node_item_def)

lemma zset_by_rank_ok:
  assumes "zset_ok zs"
  shows "map_option (node_item (zsl zs)) (zsl_get_element_by_rank (zsl zs) (int k)) =
    (if 1 \<le> k \<and> k \<le> length (zset_items zs) then Some (zset_items zs ! (k - 1)) else None)"
  using zsl_get_element_by_rank_ok [of "zsl zs" "zsl_nodes (zsl zs)" k] assms
  by (auto simp: zset_items_def zset_ok_def)

lemma find_map: "find P (map f xs) = map_option f (find (P \<circ> f) xs)"
  by (induction xs) simp_all

lemma zset_range_ok:
  assumes "zset_ok zs"
  shows "map_option (node_item (zsl zs)) (zsl_first_in_score_range (zsl zs) mn minex) =
      find (\<lambda>p. \<not> below_min mn minex (snd p)) (zset_items zs)"
    and "map_option (node_item (zsl zs)) (zsl_last_in_score_range (zsl zs) mn maxex) =
      find (\<lambda>p. below_max mn maxex (snd p)) (rev (zset_items zs))"
  using zsl_first_in_score_range_ok [of "zsl zs" "zsl_nodes (zsl zs)"]
    zsl_last_in_score_range_ok [of "zsl zs" "zsl_nodes (zsl zs)"] assms
  by (simp_all add: zset_items_def zset_ok_def find_map rev_map comp_def node_item_def)

section \<open>Runs of operations\<close>

datatype zset_op = Zop_add double bytes | Zop_remove bytes | Zop_score bytes

datatype zset_reply = Zcode int | Zfound "double option"

fun zset_step :: "(nat \<Rightarrow> nat) \<Rightarrow> zset_op \<Rightarrow> zset \<times> nat \<Rightarrow> zset_reply \<times> zset \<times> nat" where
  "zset_step rand (Zop_add score member) (zs, pos) =
     (case zset_add rand pos zs score member of (r, n, zs', pos') \<Rightarrow> (Zcode r, zs', pos'))"
| "zset_step rand (Zop_remove member) (zs, pos) =
     (case zset_remove zs member of (r, zs') \<Rightarrow> (Zcode (of_bool r), zs', pos))"
| "zset_step rand (Zop_score member) (zs, pos) = (Zfound (zset_score zs member), zs, pos)"

fun score_step :: "zset_op \<Rightarrow> (bytes \<Rightarrow> double option) \<Rightarrow> zset_reply \<times> (bytes \<Rightarrow> double option)" where
  "score_step (Zop_add score member) m = (Zcode (zadd_result m score member), zadd_map m score member)"
| "score_step (Zop_remove member) m = (Zcode (of_bool (m member \<noteq> None)), m(member := None))"
| "score_step (Zop_score member) m = (Zfound (m member), m)"

fun op_number :: "zset_op \<Rightarrow> bool" where
  "op_number (Zop_add score member) = (\<not> d_isnan score)"
| "op_number _ = True"

lemma zset_step_refines:
  assumes "zset_ok zs" "op_number x"
  obtains r zs' pos' where "zset_step rand x (zs, pos) = (r, zs', pos')" "zset_ok zs'"
    "score_step x (zset_score zs) = (r, zset_score zs')"
proof (cases x)
  case (Zop_add score member)
  then have nn: "\<not> d_isnan score" using assms(2) by simp
  obtain n zs' pos' where
    "zset_add rand pos zs score member = (zadd_result (zset_score zs) score member, n, zs', pos')"
    "zset_ok zs'" "zset_score zs' = zadd_map (zset_score zs) score member"
    by (rule zset_add_ok [OF assms(1) nn])
  with Zop_add show thesis by (intro that [of "Zcode (zadd_result (zset_score zs) score member)" zs' pos']) simp_all
next
  case (Zop_remove member)
  with zset_remove_ok [OF assms(1), of member] show thesis
    by (intro that [of "Zcode (of_bool (zset_score zs member \<noteq> None))" "snd (zset_remove zs member)" pos])
      (simp_all add: split_def)
next
  case (Zop_score member)
  with assms show thesis by (intro that [of "Zfound (zset_score zs member)" zs pos]) simp_all
qed

lemma zset_run_refines:
  "zset_ok zs \<Longrightarrow> \<forall>x\<in>set ops. op_number x \<Longrightarrow>
     run_ops score_step ops (zset_score zs) =
       (fst (run_ops (zset_step rand) ops (zs, pos)),
        zset_score (fst (snd (run_ops (zset_step rand) ops (zs, pos))))) \<and>
     zset_ok (fst (snd (run_ops (zset_step rand) ops (zs, pos))))"
proof (induction ops arbitrary: zs pos)
  case (Cons x ops)
  have "op_number x" using Cons.prems(2) by simp
  then obtain r zs' pos' where step: "zset_step rand x (zs, pos) = (r, zs', pos')" "zset_ok zs'"
    "score_step x (zset_score zs) = (r, zset_score zs')"
    by (rule zset_step_refines [OF Cons.prems(1)])
  with Cons.IH [OF step(2), of pos'] Cons.prems(2) show ?case by (simp add: split_def)
qed simp

text \<open>
  C23. Any sequence of \<open>zset_add\<close>, \<open>zset_remove\<close> and \<open>zset_score\<close> on a fresh sorted set,
  whatever levels \<open>rand()\<close> gives the nodes, returns what the same sequence returns on a finite map
  from members to scores, provided no score is a NaN. The set ends with the map's bindings, listed by the skip
  list in the order of the scores and, among equal scores, of the member bytes; \<open>zset_len\<close> is
  their number.
\<close>

theorem zset_run_correct:
  assumes "\<forall>x\<in>set ops. op_number x"
  shows "let (results, zs, pos) = run_ops (zset_step rand) ops (zset_create seed, 0);
             (expected, m) = run_ops score_step ops Map.empty
         in results = expected \<and>
            zset_score zs = m \<and>
            zset_len zs = card (dom m) \<and>
            set (zset_items zs) = {(k, s). m k = Some s} \<and>
            length (zset_items zs) = zset_len zs \<and>
            sorted_wrt item_less (zset_items zs)"
proof -
  obtain results zs pos where run: "run_ops (zset_step rand) ops (zset_create seed, 0) = (results, zs, pos)"
    by (metis prod.collapse)
  have spec: "run_ops score_step ops Map.empty = (results, zset_score zs)" and ok: "zset_ok zs"
    using zset_run_refines [OF zset_create_ok assms, of seed rand 0] run by simp_all
  have "set (zset_items zs) = {(k, s). zset_score zs k = Some s}"
    by (simp add: zset_score_items [OF ok])
  then show ?thesis
    by (simp add: run spec zset_len_card [OF ok, symmetric] zset_len_ok [OF ok]
        zset_items_sorted(1) [OF ok])
qed

definition zset_demo :: "zset_op list" where
  "zset_demo = [Zop_add 0x3FF0000000000000 ''a'', Zop_add 0 ''b'', Zop_add 0 ''a'']"

lemma zset_demo_number: "\<forall>x\<in>set zset_demo. op_number x"
  by (simp add: zset_demo_def d_isnan_def d_mag_def d_inf_mag_def)

lemma zset_demo_spec:
  "run_ops score_step zset_demo Map.empty =
     ([Zcode 1, Zcode 1, Zcode 2], [''a'' \<mapsto> 0, ''b'' \<mapsto> 0])"
proof -
  have "d_eq 0x3FF0000000000000 0 = False"
    by (simp add: d_eq_def d_ord_def d_sign_def d_mag_def bit_numeral_rec)
  then show ?thesis by (auto simp: zset_demo_def zadd_result_def zadd_map_def)
qed

theorem zset_run_correct_witness:
  "let (results, zs, pos) = run_ops (zset_step (\<lambda>i. 7919 * i)) zset_demo (zset_create [], 0)
   in results = [Zcode 1, Zcode 1, Zcode 2] \<and> zset_score zs = [''a'' \<mapsto> 0, ''b'' \<mapsto> 0]"
  using zset_run_correct [OF zset_demo_number, of "\<lambda>i. 7919 * i" "[]"]
  by (simp add: zset_demo_spec split_def Let_def)

text \<open>
  C24. The queries of the skip list agree with the list of the members in order: the element at a
  (1-based) rank is the one at that position and NULL outside the list, the rank of a member is its
  position, and the first, respectively last, node of a score range is the first, respectively
  last, element of the list within the bound.
\<close>

theorem zset_queries_correct:
  assumes "zset_ok zs"
  shows "(\<forall>k. map_option (node_item (zsl zs)) (zsl_get_element_by_rank (zsl zs) (int k)) =
            (if 1 \<le> k \<and> k \<le> length (zset_items zs) then Some (zset_items zs ! (k - 1)) else None)) \<and>
         (\<forall>i<length (zset_items zs).
            zsl_get_rank (zsl zs) (snd (zset_items zs ! i)) (fst (zset_items zs ! i)) = int i + 1) \<and>
         map_option (node_item (zsl zs)) (zsl_first_in_score_range (zsl zs) mn minex) =
           find (\<lambda>p. \<not> below_min mn minex (snd p)) (zset_items zs) \<and>
         map_option (node_item (zsl zs)) (zsl_last_in_score_range (zsl zs) mx maxex) =
           find (\<lambda>p. below_max mx maxex (snd p)) (rev (zset_items zs))"
  using zset_by_rank_ok [OF assms] zset_rank_ok [OF assms] zset_range_ok [OF assms]
  by (simp add: surjective_pairing [symmetric])

theorem zset_queries_correct_witness:
  "let zs = fst (snd (run_ops (zset_step (\<lambda>i. 7919 * i)) zset_demo (zset_create [], 0)))
   in zset_ok zs \<and> zsl_get_element_by_rank (zsl zs) 3 = None \<and>
      zsl_get_rank (zsl zs) (snd (zset_items zs ! 1)) (fst (zset_items zs ! 1)) = 2"
proof -
  let ?zs = "fst (snd (run_ops (zset_step (\<lambda>i. 7919 * i)) zset_demo (zset_create [], 0)))"
  have ok: "zset_ok ?zs" and sc: "zset_score ?zs = [''a'' \<mapsto> 0, ''b'' \<mapsto> 0]"
    using zset_run_refines [OF zset_create_ok zset_demo_number, of "[]" "\<lambda>i. 7919 * i" 0]
    by (simp_all add: zset_demo_spec)
  then have len: "length (zset_items ?zs) = 2"
    using zset_len_card [OF ok] zset_len_ok [OF ok] by simp
  note q = zset_queries_correct [OF ok, of 0 False 0 False, unfolded len]
  have "map_option (node_item (zsl ?zs)) (zsl_get_element_by_rank (zsl ?zs) (int 3)) = None"
    using spec [OF conjunct1 [OF q], of 3] by simp
  moreover have "zsl_get_rank (zsl ?zs) (snd (zset_items ?zs ! 1)) (fst (zset_items ?zs ! 1)) = int 1 + 1"
    using spec [OF conjunct1 [OF conjunct2 [OF q]], of 1] by simp
  ultimately show ?thesis using ok by simp
qed

end
