(* ===== verification/Linked_List.thy ===== *)
theory Linked_List
  imports Prelude
begin

text \<open>
  \<open>src/list.c\<close>: the doubly linked list behind the list type. A list carries the store of its
  own nodes: \<open>nodes\<close> maps a node pointer to the node, \<open>fresh\<close> is the next pointer \<open>xmalloc\<close>
  returns, \<open>free\<close> removes the node. A NULL pointer is \<open>None\<close>; reading through a pointer that is
  not allocated is \<open>the None\<close>, and the invariant excludes it.
\<close>

section \<open>The list\<close>

record 'a lnode =
  prev :: "nat option"
  "next" :: "nat option"
  lval :: 'a

record 'a llist =
  nodes :: "nat \<Rightarrow> 'a lnode option"
  fresh :: nat
  head :: "nat option"
  tail :: "nat option"
  llen :: nat

definition list_create :: "'a llist" where
  "list_create = \<lparr>nodes = Map.empty, fresh = 0, head = None, tail = None, llen = 0\<rparr>"

definition list_len :: "'a llist \<Rightarrow> nat" where
  "list_len l = llen l"

definition node_of :: "'a llist \<Rightarrow> nat \<Rightarrow> 'a lnode" where
  "node_of l a = the (nodes l a)"

text \<open>\<open>list_new_node\<close>: the pointer and the list with the node allocated.\<close>

definition list_new_node :: "'a llist \<Rightarrow> 'a \<Rightarrow> nat \<times> 'a llist" where
  "list_new_node l v =
     (fresh l, l\<lparr>nodes := (nodes l)(fresh l \<mapsto> \<lparr>prev = None, next = None, lval = v\<rparr>),
                 fresh := fresh l + 1\<rparr>)"

definition set_next :: "'a llist \<Rightarrow> nat \<Rightarrow> nat option \<Rightarrow> 'a llist" where
  "set_next l a q = l\<lparr>nodes := (nodes l)(a \<mapsto> (node_of l a)\<lparr>next := q\<rparr>)\<rparr>"

definition set_prev :: "'a llist \<Rightarrow> nat \<Rightarrow> nat option \<Rightarrow> 'a llist" where
  "set_prev l a p = l\<lparr>nodes := (nodes l)(a \<mapsto> (node_of l a)\<lparr>prev := p\<rparr>)\<rparr>"

definition free_node :: "'a llist \<Rightarrow> nat \<Rightarrow> 'a llist" where
  "free_node l a = l\<lparr>nodes := (nodes l)(a := None)\<rparr>"

text \<open>
  The two conditionals the operations share: \<open>if (p) p->next = q; else l->head = q;\<close> and
  \<open>if (q) q->prev = p; else l->tail = p;\<close>.
\<close>

definition link_next :: "'a llist \<Rightarrow> nat option \<Rightarrow> nat option \<Rightarrow> 'a llist" where
  "link_next l p q = (case p of Some a \<Rightarrow> set_next l a q | None \<Rightarrow> l\<lparr>head := q\<rparr>)"

definition link_prev :: "'a llist \<Rightarrow> nat option \<Rightarrow> nat option \<Rightarrow> 'a llist" where
  "link_prev l q p = (case q of Some a \<Rightarrow> set_prev l a p | None \<Rightarrow> l\<lparr>tail := p\<rparr>)"

definition list_push_head :: "'a llist \<Rightarrow> 'a \<Rightarrow> 'a llist" where
  "list_push_head l v =
     (case list_new_node l v of
        (n, l1) \<Rightarrow>
          let l2 = set_next l1 n (head l1);
              l3 = link_prev l2 (head l2) (Some n)
          in l3\<lparr>head := Some n, llen := llen l3 + 1\<rparr>)"

definition list_push_tail :: "'a llist \<Rightarrow> 'a \<Rightarrow> 'a llist" where
  "list_push_tail l v =
     (case list_new_node l v of
        (n, l1) \<Rightarrow>
          let l2 = set_prev l1 n (tail l1);
              l3 = link_next l2 (tail l2) (Some n)
          in l3\<lparr>tail := Some n, llen := llen l3 + 1\<rparr>)"

definition list_pop_head :: "'a llist \<Rightarrow> 'a option \<times> 'a llist" where
  "list_pop_head l =
     (case head l of
        None \<Rightarrow> (None, l)
      | Some n \<Rightarrow>
          let l1 = l\<lparr>head := next (node_of l n)\<rparr>;
              l2 = link_prev l1 (head l1) None;
              l3 = l2\<lparr>llen := llen l2 - 1\<rparr>
          in (Some (lval (node_of l3 n)), free_node l3 n))"

definition list_pop_tail :: "'a llist \<Rightarrow> 'a option \<times> 'a llist" where
  "list_pop_tail l =
     (case tail l of
        None \<Rightarrow> (None, l)
      | Some n \<Rightarrow>
          let l1 = l\<lparr>tail := prev (node_of l n)\<rparr>;
              l2 = link_next l1 (tail l1) None;
              l3 = l2\<lparr>llen := llen l2 - 1\<rparr>
          in (Some (lval (node_of l3 n)), free_node l3 n))"

definition list_peek_head :: "'a llist \<Rightarrow> 'a option" where
  "list_peek_head l = map_option (\<lambda>n. lval (node_of l n)) (head l)"

definition list_peek_tail :: "'a llist \<Rightarrow> 'a option" where
  "list_peek_tail l = map_option (\<lambda>n. lval (node_of l n)) (tail l)"

definition list_insert_after :: "'a llist \<Rightarrow> nat option \<Rightarrow> 'a \<Rightarrow> 'a llist" where
  "list_insert_after l node v =
     (case list_new_node l v of
        (n, l1) \<Rightarrow>
          let l' = (case node of
                      None \<Rightarrow>
                        let l2 = set_next l1 n (head l1);
                            l3 = link_prev l2 (head l2) (Some n)
                        in l3\<lparr>head := Some n\<rparr>
                    | Some a \<Rightarrow>
                        let l2 = set_prev l1 n (Some a);
                            l3 = set_next l2 n (next (node_of l2 a));
                            l4 = link_prev l3 (next (node_of l3 a)) (Some n)
                        in set_next l4 a (Some n))
          in l'\<lparr>llen := llen l' + 1\<rparr>)"

definition list_detach :: "'a llist \<Rightarrow> nat option \<Rightarrow> 'a option \<times> 'a llist" where
  "list_detach l node =
     (case node of
        None \<Rightarrow> (None, l)
      | Some a \<Rightarrow>
          let l1 = link_next l (prev (node_of l a)) (next (node_of l a));
              l2 = link_prev l1 (next (node_of l1 a)) (prev (node_of l1 a));
              l3 = l2\<lparr>llen := llen l2 - 1\<rparr>
          in (Some (lval (node_of l3 a)), free_node l3 a))"

definition list_first :: "'a llist \<Rightarrow> nat option" where "list_first l = head l"
definition list_last :: "'a llist \<Rightarrow> nat option" where "list_last l = tail l"

definition list_next :: "'a llist \<Rightarrow> nat option \<Rightarrow> nat option" where
  "list_next l node = (case node of Some a \<Rightarrow> next (node_of l a) | None \<Rightarrow> None)"

definition list_prev :: "'a llist \<Rightarrow> nat option \<Rightarrow> nat option" where
  "list_prev l node = (case node of Some a \<Rightarrow> prev (node_of l a) | None \<Rightarrow> None)"

definition list_node_at :: "'a llist \<Rightarrow> int \<Rightarrow> nat option" where
  "list_node_at l index =
     (let n = int (llen l);
          i = (if index < 0 then index + n else index)
      in if i < 0 \<or> i \<ge> n then None
         else if i \<le> n div 2 then (list_next l ^^ nat i) (head l)
         else (list_prev l ^^ nat (n - 1 - i)) (tail l))"

text \<open>
  The values a walk along \<open>list_next\<close> visits, \<open>k\<close> nodes at most; \<open>list_vals\<close> is the whole list.
\<close>

fun walk :: "nat \<Rightarrow> 'a llist \<Rightarrow> nat option \<Rightarrow> 'a list" where
  "walk 0 l node = []"
| "walk (Suc k) l node =
     (case node of None \<Rightarrow> [] | Some a \<Rightarrow> lval (node_of l a) # walk k l (list_next l node))"

definition list_vals :: "'a llist \<Rightarrow> 'a list" where
  "list_vals l = walk (llen l) l (list_first l)"

section \<open>Segments\<close>

text \<open>
  \<open>seg h p ns q\<close>: the nodes \<open>ns\<close>, given as pointers with their values, are linked in order in both
  directions, between the pointer \<open>p\<close> before them and the pointer \<open>q\<close> after them.
\<close>

definition firstp :: "(nat \<times> 'a) list \<Rightarrow> nat option \<Rightarrow> nat option" where
  "firstp ns q = (case ns of [] \<Rightarrow> q | n # _ \<Rightarrow> Some (fst n))"

definition lastp :: "nat option \<Rightarrow> (nat \<times> 'a) list \<Rightarrow> nat option" where
  "lastp p ns = (if ns = [] then p else Some (fst (last ns)))"

fun seg :: "(nat \<Rightarrow> 'a lnode option) \<Rightarrow> nat option \<Rightarrow> (nat \<times> 'a) list \<Rightarrow> nat option \<Rightarrow> bool" where
  "seg h p [] q = True"
| "seg h p ((a, v) # ns) q =
     (h a = Some \<lparr>prev = p, next = firstp ns q, lval = v\<rparr> \<and> seg h (Some a) ns q)"

lemma firstp_simps [simp]: "firstp [] q = q" "firstp (n # ns) q = Some (fst n)"
  by (simp_all add: firstp_def)

lemma lastp_simps [simp]:
  "lastp p [] = p" "lastp p (ns @ [n]) = Some (fst n)" "lastp p (n # ns) = lastp (Some (fst n)) ns"
  by (simp_all add: lastp_def)

lemma lastp_Some [simp]: "lastp (Some a) ns \<noteq> None"
  by (simp add: lastp_def)

lemma firstp_append [simp]: "firstp (xs @ ys) q = firstp xs (firstp ys q)"
  by (cases xs) simp_all

lemma lastp_append [simp]: "lastp p (xs @ ys) = lastp (lastp p xs) ys"
  by (auto simp: lastp_def)

lemma seg_append [simp]:
  "seg h p (xs @ ys) q \<longleftrightarrow> seg h p xs (firstp ys q) \<and> seg h (lastp p xs) ys q"
proof (induction xs arbitrary: p)
  case (Cons n xs)
  then show ?case by (cases n) (simp only: append_Cons seg.simps firstp_append lastp_simps fst_conv conj_assoc)
qed simp

lemma seg_upd [simp]: "a \<notin> fst ` set ns \<Longrightarrow> seg (h(a := x)) p ns q = seg h p ns q"
proof (induction ns arbitrary: p)
  case (Cons n ns)
  then show ?case by (cases n) simp
qed simp

lemma seg_lookup: "seg h p ns q \<Longrightarrow> (a, v) \<in> set ns \<Longrightarrow> \<exists>n. h a = Some n \<and> lval n = v"
  by (induction ns arbitrary: p) auto

text \<open>
  A well-formed list with nodes \<open>ns\<close>: one segment from NULL to NULL, no node twice, nothing else
  allocated (so no node leaks), and the header fields right.
\<close>

definition list_ok :: "'a llist \<Rightarrow> (nat \<times> 'a) list \<Rightarrow> bool" where
  "list_ok l ns =
     (seg (nodes l) None ns None \<and> distinct (map fst ns) \<and> dom (nodes l) = fst ` set ns \<and>
      head l = firstp ns None \<and> tail l = lastp None ns \<and> llen l = length ns \<and>
      (\<forall>a\<in>fst ` set ns. a < fresh l))"

definition list_inv :: "'a llist \<Rightarrow> bool" where
  "list_inv l = (\<exists>ns. list_ok l ns)"

lemma set_next_seg:
  "seg h p (xs @ [(a, v)]) q \<Longrightarrow> a \<notin> fst ` set xs \<Longrightarrow>
   seg (h(a \<mapsto> (the (h a))\<lparr>next := q'\<rparr>)) p (xs @ [(a, v)]) q'"
  by simp

lemma set_prev_seg:
  "seg h p ((a, v) # ys) q \<Longrightarrow> a \<notin> fst ` set ys \<Longrightarrow>
   seg (h(a \<mapsto> (the (h a))\<lparr>prev := p'\<rparr>)) p' ((a, v) # ys) q"
  by simp

lemma link_next_fields [simp]:
  "tail (link_next l p q) = tail l" "llen (link_next l p q) = llen l"
  "fresh (link_next l p q) = fresh l"
  "head (link_next l p q) = (if p = None then q else head l)"
  by (auto simp: link_next_def set_next_def split: option.splits)

lemma link_prev_fields [simp]:
  "head (link_prev l q p) = head l" "llen (link_prev l q p) = llen l"
  "fresh (link_prev l q p) = fresh l"
  "tail (link_prev l q p) = (if q = None then p else tail l)"
  by (auto simp: link_prev_def set_prev_def split: option.splits)

lemma link_next_seg:
  assumes "seg (nodes l) None xs q" "distinct (map fst xs)"
  shows "seg (nodes (link_next l (lastp None xs) q')) None xs q'"
  using assms
  by (cases xs rule: rev_cases)
    (auto simp: link_next_def set_next_def node_of_def simp del: seg_append
      intro!: set_next_seg)

lemma link_prev_seg:
  assumes "seg (nodes l) p ys None" "distinct (map fst ys)"
  shows "seg (nodes (link_prev l (firstp ys None) p')) p' ys None"
  using assms
  by (cases ys)
    (auto simp: link_prev_def set_prev_def node_of_def)

lemma link_next_frame:
  "(\<And>a. p = Some a \<Longrightarrow> a \<notin> fst ` set ns) \<Longrightarrow>
   seg (nodes (link_next l p q)) p' ns q' = seg (nodes l) p' ns q'"
  by (cases p) (simp_all add: link_next_def set_next_def)

lemma link_prev_frame:
  "(\<And>a. q = Some a \<Longrightarrow> a \<notin> fst ` set ns) \<Longrightarrow>
   seg (nodes (link_prev l q p)) p' ns q' = seg (nodes l) p' ns q'"
  by (cases q) (simp_all add: link_prev_def set_prev_def)

lemma link_other:
  "p \<noteq> Some a \<Longrightarrow> nodes (link_next l p q) a = nodes l a"
  "q \<noteq> Some a \<Longrightarrow> nodes (link_prev l q p') a = nodes l a"
  by (auto simp: link_next_def set_next_def link_prev_def set_prev_def split: option.splits)

lemma link_dom:
  "dom (nodes (link_next l p q)) = set_option p \<union> dom (nodes l)"
  "dom (nodes (link_prev l q p)) = set_option q \<union> dom (nodes l)"
  by (auto simp: link_next_def set_next_def link_prev_def set_prev_def split: option.splits)

lemma firstp_in: "firstp ys None = Some a \<Longrightarrow> a \<in> fst ` set ys"
  by (cases ys) auto

lemma lastp_in: "lastp None xs = Some a \<Longrightarrow> a \<in> fst ` set xs"
  by (cases xs rule: rev_cases) auto

section \<open>Insertion between two neighbours\<close>

text \<open>
  All three insertions allocate a node between a pointer \<open>p\<close> and a pointer \<open>q\<close> and repair the
  links on both sides; \<open>link_between\<close> is what they have in common.
\<close>

definition link_between :: "'a llist \<Rightarrow> nat option \<Rightarrow> nat option \<Rightarrow> 'a \<Rightarrow> 'a llist" where
  "link_between l p q v =
     (let n = fresh l;
          l1 = l\<lparr>nodes := (nodes l)(n \<mapsto> \<lparr>prev = p, next = q, lval = v\<rparr>), fresh := n + 1\<rparr>;
          l2 = link_next (link_prev l1 q (Some n)) p (Some n)
      in l2\<lparr>llen := llen l2 + 1\<rparr>)"

lemma link_between_ok:
  assumes "list_ok l (xs @ ys)"
  shows "list_ok (link_between l (lastp None xs) (firstp ys None) v) (xs @ (fresh l, v) # ys)"
proof -
  let ?n = "fresh l" and ?p = "lastp None xs" and ?q = "firstp ys None"
  let ?l1 = "l\<lparr>nodes := (nodes l)(?n \<mapsto> \<lparr>prev = ?p, next = ?q, lval = v\<rparr>), fresh := ?n + 1\<rparr>"
  let ?l2 = "link_prev ?l1 ?q (Some ?n)"
  let ?l3 = "link_next ?l2 ?p (Some ?n)"
  have dist: "distinct (map fst xs)" "distinct (map fst ys)" "fst ` set xs \<inter> fst ` set ys = {}"
    and lt: "\<forall>a\<in>fst ` set xs \<union> fst ` set ys. a < ?n"
    and dom: "dom (nodes l) = fst ` set xs \<union> fst ` set ys"
    and sx: "seg (nodes l) None xs ?q" and sy: "seg (nodes l) ?p ys None"
    and fields: "head l = firstp xs ?q" "tail l = lastp ?p ys" "llen l = length xs + length ys"
    using assms by (simp_all add: list_ok_def image_Un)
  have fr: "?n \<notin> fst ` set xs" "?n \<notin> fst ` set ys" using lt by blast+
  have q: "a \<notin> fst ` set xs" if "?q = Some a" for a
    using firstp_in [OF that] dist(3) by blast
  have p: "a \<notin> fst ` set ys" if "?p = Some a" for a
    using lastp_in [OF that] dist(3) by blast
  have qn: "?q \<noteq> Some ?n" "?p \<noteq> Some ?n"
    using firstp_in [of ys ?n] lastp_in [of xs ?n] fr by blast+
  have "seg (nodes ?l2) (Some ?n) ys None"
    using sy fr dist by (intro link_prev_seg) simp_all
  then have y: "seg (nodes ?l3) (Some ?n) ys None"
    using p by (simp add: link_next_frame)
  have "seg (nodes ?l2) None xs ?q"
    using sx fr q by (simp add: link_prev_frame)
  then have x: "seg (nodes ?l3) None xs (Some ?n)"
    using dist by (intro link_next_seg)
  have n: "nodes ?l3 ?n = Some \<lparr>prev = ?p, next = ?q, lval = v\<rparr>"
    using qn by (simp add: link_other)
  have "set_option ?p \<subseteq> fst ` set xs" "set_option ?q \<subseteq> fst ` set ys"
    using firstp_in lastp_in by (fastforce simp: elem_set)+
  then have "dom (nodes ?l3) = fst ` set (xs @ (?n, v) # ys)"
    by (simp add: link_dom dom image_Un) blast
  moreover have "head ?l3 = firstp xs (Some ?n)"
    using fields by (cases xs) simp_all
  moreover have "tail ?l3 = lastp (Some ?n) ys"
    using fields by (cases ys) simp_all
  ultimately show ?thesis
    using x y n dist fr fields lt
    by (simp add: list_ok_def link_between_def Let_def image_Un less_Suc_eq ball_Un)
qed

lemmas list_op_defs =
  Let_def list_new_node_def set_next_def set_prev_def node_of_def link_next_def link_prev_def

lemma list_push_head_ok:
  assumes "list_ok l ns"
  shows "list_ok (list_push_head l v) ((fresh l, v) # ns)"
proof -
  have "list_push_head l v = link_between l None (head l) v"
    by (auto simp: list_push_head_def link_between_def list_op_defs split: option.splits)
  with link_between_ok [of l "[]" ns v] assms show ?thesis by (simp add: list_ok_def)
qed

lemma list_push_tail_ok:
  assumes "list_ok l ns"
  shows "list_ok (list_push_tail l v) (ns @ [(fresh l, v)])"
proof -
  have "list_push_tail l v = link_between l (tail l) None v"
    by (auto simp: list_push_tail_def link_between_def list_op_defs split: option.splits)
  with link_between_ok [of l ns "[]" v] assms show ?thesis by (simp add: list_ok_def)
qed

lemma list_ok_node:
  assumes "list_ok l (xs @ (a, v) # ys)"
  shows "nodes l a = Some \<lparr>prev = lastp None xs, next = firstp ys None, lval = v\<rparr>"
  using assms by (simp add: list_ok_def)

lemma list_ok_fresh: "list_ok l ns \<Longrightarrow> fresh l \<notin> fst ` set ns"
  by (fastforce simp only: list_ok_def)

lemma list_insert_after_ok:
  assumes "list_ok l (xs @ (a, w) # ys)"
  shows "list_ok (list_insert_after l (Some a) v) (xs @ (a, w) # (fresh l, v) # ys)"
proof -
  have fr: "a < fresh l" "firstp ys None \<noteq> Some (fresh l)" "firstp ys None \<noteq> Some a"
    using assms list_ok_fresh [OF assms] firstp_in [of ys "fresh l"] firstp_in [of ys a]
    by (auto simp: list_ok_def simp del: seg_append)
  have "list_insert_after l (Some a) v = link_between l (Some a) (firstp ys None) v"
    using list_ok_node [OF assms] fr
    by (auto simp: list_insert_after_def link_between_def list_op_defs fun_eq_iff
        split: option.splits)
  with link_between_ok [of l "xs @ [(a, w)]" ys v] assms show ?thesis by simp
qed

lemma list_insert_head_ok:
  "list_ok l ns \<Longrightarrow> list_ok (list_insert_after l None v) ((fresh l, v) # ns)"
  using list_push_head_ok [of l ns v]
  by (simp add: list_insert_after_def list_push_head_def Let_def list_new_node_def)

section \<open>Removal\<close>

definition unlink :: "'a llist \<Rightarrow> nat option \<Rightarrow> nat option \<Rightarrow> nat \<Rightarrow> 'a llist" where
  "unlink l p q a =
     (let l2 = link_prev (link_next l p q) q p in free_node (l2\<lparr>llen := llen l2 - 1\<rparr>) a)"

lemma unlink_ok:
  assumes "list_ok l (xs @ (a, v) # ys)"
  shows "list_ok (unlink l (lastp None xs) (firstp ys None) a) (xs @ ys)"
proof -
  let ?p = "lastp None xs" and ?q = "firstp ys None"
  let ?l1 = "link_next l ?p ?q"
  let ?l2 = "link_prev ?l1 ?q ?p"
  have dist: "distinct (map fst xs)" "distinct (map fst ys)" "fst ` set xs \<inter> fst ` set ys = {}"
    and na: "a \<notin> fst ` set xs" "a \<notin> fst ` set ys"
    and lt: "\<forall>a\<in>fst ` set xs \<union> fst ` set ys. a < fresh l"
    and dom: "dom (nodes l) = insert a (fst ` set xs \<union> fst ` set ys)"
    and sx: "seg (nodes l) None xs (Some a)" and sy: "seg (nodes l) (Some a) ys None"
    and fields: "head l = firstp xs (Some a)" "tail l = lastp (Some a) ys"
      "llen l = Suc (length xs + length ys)"
    using assms by (simp_all add: list_ok_def image_Un)
  have q: "a \<notin> fst ` set xs" if "?q = Some a" for a
    using firstp_in [OF that] dist(3) by blast
  have p: "a \<notin> fst ` set ys" if "?p = Some a" for a
    using lastp_in [OF that] dist(3) by blast
  have "seg (nodes ?l1) None xs ?q" using sx dist by (intro link_next_seg)
  then have x: "seg (nodes ?l2) None xs ?q" using q by (simp add: link_prev_frame)
  have "seg (nodes ?l1) (Some a) ys None" using sy p by (simp add: link_next_frame)
  then have y: "seg (nodes ?l2) ?p ys None" using dist by (intro link_prev_seg)
  have "set_option ?p \<subseteq> fst ` set xs" "set_option ?q \<subseteq> fst ` set ys"
    using firstp_in lastp_in by (fastforce simp: elem_set)+
  then have "dom ((nodes ?l2)(a := None)) = fst ` set (xs @ ys)"
    using na by (simp add: link_dom dom image_Un) blast
  moreover have "head ?l2 = firstp xs ?q" using fields by (cases xs) simp_all
  moreover have "tail ?l2 = lastp ?p ys" using fields by (cases ys) simp_all
  ultimately show ?thesis
    using x y dist na fields lt
    by (simp add: list_ok_def unlink_def free_node_def Let_def image_Un ball_Un)
qed

lemma list_pop_head_ok:
  assumes "list_ok l ((a, v) # ns)"
  shows "fst (list_pop_head l) = Some v" "list_ok (snd (list_pop_head l)) ns"
proof -
  have node: "nodes l a = Some \<lparr>prev = None, next = firstp ns None, lval = v\<rparr>" "head l = Some a"
    "firstp ns None \<noteq> Some a"
    using assms firstp_in [of ns a] by (auto simp: list_ok_def)
  then have eq: "list_pop_head l = (Some v, unlink l None (firstp ns None) a)"
    by (auto simp: list_pop_head_def unlink_def list_op_defs split: option.splits)
  show "fst (list_pop_head l) = Some v" "list_ok (snd (list_pop_head l)) ns"
    using unlink_ok [of l "[]" a v ns] assms by (simp_all add: eq)
qed

lemma list_pop_tail_ok:
  assumes "list_ok l (ns @ [(a, v)])"
  shows "fst (list_pop_tail l) = Some v" "list_ok (snd (list_pop_tail l)) ns"
proof -
  have node: "nodes l a = Some \<lparr>prev = lastp None ns, next = None, lval = v\<rparr>" "tail l = Some a"
    "lastp None ns \<noteq> Some a"
    using assms lastp_in [of ns a] by (auto simp: list_ok_def)
  then have eq: "list_pop_tail l = (Some v, unlink l (lastp None ns) None a)"
    by (auto simp: list_pop_tail_def unlink_def free_node_def list_op_defs split: option.splits)
  show "fst (list_pop_tail l) = Some v" "list_ok (snd (list_pop_tail l)) ns"
    using unlink_ok [of l ns a v "[]"] assms by (simp_all add: eq)
qed

lemma list_pop_empty:
  "list_ok l [] \<Longrightarrow> list_pop_head l = (None, l)" "list_ok l [] \<Longrightarrow> list_pop_tail l = (None, l)"
  by (simp_all add: list_ok_def list_pop_head_def list_pop_tail_def)

lemma list_detach_ok:
  assumes "list_ok l (xs @ (a, v) # ys)"
  shows "fst (list_detach l (Some a)) = Some v" "list_ok (snd (list_detach l (Some a))) (xs @ ys)"
proof -
  have "lastp None xs \<noteq> Some a" "firstp ys None \<noteq> Some a"
    using assms firstp_in [of ys a] lastp_in [of xs a] by (auto simp: list_ok_def)
  then have eq: "list_detach l (Some a) = (Some v, unlink l (lastp None xs) (firstp ys None) a)"
    using list_ok_node [OF assms]
    by (auto simp: list_detach_def unlink_def list_op_defs split: option.splits)
  show "fst (list_detach l (Some a)) = Some v" "list_ok (snd (list_detach l (Some a))) (xs @ ys)"
    using unlink_ok [OF assms] by (simp_all add: eq)
qed

section \<open>Traversal\<close>

lemma list_ok_next:
  "list_ok l (xs @ (a, v) # ys) \<Longrightarrow> list_next l (Some a) = firstp ys None"
  "list_ok l (xs @ (a, v) # ys) \<Longrightarrow> list_prev l (Some a) = lastp None xs"
  "list_ok l (xs @ (a, v) # ys) \<Longrightarrow> lval (node_of l a) = v"
  by (simp_all add: list_ok_node list_next_def list_prev_def node_of_def)

lemma walk_ok:
  "list_ok l (xs @ ys) \<Longrightarrow> walk (length ys) l (firstp ys None) = map snd ys"
proof (induction ys arbitrary: xs)
  case (Cons n ys)
  obtain a v where n: "n = (a, v)" by fastforce
  with Cons.prems Cons.IH [of "xs @ [n]"] list_ok_next [of l xs a v ys] show ?case by simp
qed simp

lemma list_vals_ok: "list_ok l ns \<Longrightarrow> list_vals l = map snd ns"
  using walk_ok [of l "[]" ns] by (simp add: list_vals_def list_first_def list_ok_def)

lemma next_pow:
  "list_ok l ns \<Longrightarrow> i \<le> length ns \<Longrightarrow> (list_next l ^^ i) (head l) = firstp (drop i ns) None"
proof (induction i)
  case (Suc i)
  obtain a v where av: "ns ! i = (a, v)" by fastforce
  have i: "i < length ns" using Suc.prems(2) by simp
  have "ns = take i ns @ (a, v) # drop (Suc i) ns" "drop i ns = (a, v) # drop (Suc i) ns"
    using av id_take_nth_drop [OF i] Cons_nth_drop_Suc [OF i] by simp_all
  with Suc list_ok_next(1) [of l "take i ns" a v "drop (Suc i) ns"] show ?case by simp
qed (simp add: list_ok_def)

lemma prev_pow:
  "list_ok l ns \<Longrightarrow> i \<le> length ns \<Longrightarrow>
   (list_prev l ^^ i) (tail l) = lastp None (take (length ns - i) ns)"
proof (induction i)
  case (Suc i)
  let ?j = "length ns - Suc i"
  obtain a v where av: "ns ! ?j = (a, v)" by fastforce
  have j: "?j < length ns" "length ns - i = Suc ?j" using Suc.prems(2) by auto
  then have "ns = take ?j ns @ (a, v) # drop (Suc ?j) ns"
    "take (length ns - i) ns = take ?j ns @ [(a, v)]"
    using av id_take_nth_drop [OF j(1)] take_Suc_conv_app_nth [OF j(1)] by simp_all
  with Suc list_ok_next(2) [of l "take ?j ns" a v "drop (Suc ?j) ns"] show ?case by simp
qed (simp add: list_ok_def)

lemma list_node_at_ok:
  assumes "list_ok l ns"
  shows "list_node_at l index =
    (let i = (if index < 0 then index + int (length ns) else index)
     in if 0 \<le> i \<and> i < int (length ns) then Some (fst (ns ! nat i)) else None)"
proof -
  let ?n = "int (length ns)"
  let ?i = "if index < 0 then index + ?n else index"
  have len: "llen l = length ns" using assms by (simp add: list_ok_def)
  show ?thesis
  proof (cases "0 \<le> ?i \<and> ?i < ?n")
    case True
    then have i: "nat ?i < length ns" by (simp add: nat_less_iff)
    then have fwd: "(list_next l ^^ nat ?i) (head l) = Some (fst (ns ! nat ?i))"
      using next_pow [OF assms, of "nat ?i"] by (simp add: Cons_nth_drop_Suc [symmetric])
    have k: "length ns - nat (?n - 1 - ?i) = Suc (nat ?i)" "nat (?n - 1 - ?i) \<le> length ns"
      using True by auto
    then have "(list_prev l ^^ nat (?n - 1 - ?i)) (tail l) = Some (fst (ns ! nat ?i))"
      using prev_pow [OF assms, of "nat (?n - 1 - ?i)"] i by (simp add: take_Suc_conv_app_nth)
    with fwd True show ?thesis by (simp add: list_node_at_def len Let_def)
  qed (auto simp: list_node_at_def len Let_def)
qed

section \<open>The list as a double-ended queue\<close>

text \<open>
  What the list commands rely on: the two ends, the sequence of values and its length.
\<close>

locale deque =
  fixes push_head :: "'l \<Rightarrow> 'a \<Rightarrow> 'l"
    and push_tail :: "'l \<Rightarrow> 'a \<Rightarrow> 'l"
    and pop_head :: "'l \<Rightarrow> 'a option \<times> 'l"
    and pop_tail :: "'l \<Rightarrow> 'a option \<times> 'l"
    and len :: "'l \<Rightarrow> nat"
    and vals :: "'l \<Rightarrow> 'a list"
    and invar :: "'l \<Rightarrow> bool"
  assumes push_head: "invar l \<Longrightarrow> vals (push_head l v) = v # vals l"
    and push_head_invar: "invar l \<Longrightarrow> invar (push_head l v)"
    and push_tail: "invar l \<Longrightarrow> vals (push_tail l v) = vals l @ [v]"
    and push_tail_invar: "invar l \<Longrightarrow> invar (push_tail l v)"
    and pop_head: "invar l \<Longrightarrow> vals l = v # vs \<Longrightarrow> fst (pop_head l) = Some v \<and> vals (snd (pop_head l)) = vs"
    and pop_head_invar: "invar l \<Longrightarrow> invar (snd (pop_head l))"
    and pop_tail: "invar l \<Longrightarrow> vals l = vs @ [v] \<Longrightarrow> fst (pop_tail l) = Some v \<and> vals (snd (pop_tail l)) = vs"
    and pop_tail_invar: "invar l \<Longrightarrow> invar (snd (pop_tail l))"
    and pop_empty: "invar l \<Longrightarrow> vals l = [] \<Longrightarrow> pop_head l = (None, l) \<and> pop_tail l = (None, l)"
    and len_vals: "invar l \<Longrightarrow> len l = length (vals l)"
begin

lemma push_heads:
  "invar l \<Longrightarrow> invar (foldl push_head l vs) \<and> vals (foldl push_head l vs) = rev vs @ vals l"
  by (induction vs arbitrary: l) (simp_all add: push_head push_head_invar)

lemma push_tails:
  "invar l \<Longrightarrow> invar (foldl push_tail l vs) \<and> vals (foldl push_tail l vs) = vals l @ vs"
  by (induction vs arbitrary: l) (simp_all add: push_tail push_tail_invar)

lemma pop_head_push_head: "invar l \<Longrightarrow> fst (pop_head (push_head l v)) = Some v"
  using pop_head [of "push_head l v" v "vals l"] by (simp add: push_head push_head_invar)

lemma pop_head_nonempty:
  "invar l \<Longrightarrow> vals l \<noteq> [] \<Longrightarrow>
   fst (pop_head l) = Some (hd (vals l)) \<and> vals (snd (pop_head l)) = tl (vals l)"
  using pop_head [of l "hd (vals l)" "tl (vals l)"] by simp

lemma pop_tail_nonempty:
  "invar l \<Longrightarrow> vals l \<noteq> [] \<Longrightarrow>
   fst (pop_tail l) = Some (last (vals l)) \<and> vals (snd (pop_tail l)) = butlast (vals l)"
  using pop_tail [of l "butlast (vals l)" "last (vals l)"] by simp

end

lemma list_pop_nodes:
  "list_ok l (n # ns) \<Longrightarrow> fst (list_pop_head l) = Some (snd n) \<and> list_ok (snd (list_pop_head l)) ns"
  "list_ok l (ns @ [n]) \<Longrightarrow> fst (list_pop_tail l) = Some (snd n) \<and> list_ok (snd (list_pop_tail l)) ns"
  using list_pop_head_ok [of l "fst n" "snd n" ns] list_pop_tail_ok [of l ns "fst n" "snd n"]
  by simp_all

lemma list_ok_inv: "list_ok l ns \<Longrightarrow> list_inv l"
  by (auto simp: list_inv_def)

lemma list_inv_vals: "list_inv l \<Longrightarrow> \<exists>ns. list_ok l ns \<and> list_vals l = map snd ns"
  using list_vals_ok by (auto simp: list_inv_def)

interpretation dq: deque list_push_head list_push_tail list_pop_head list_pop_tail list_len list_vals
  list_inv
proof unfold_locales
  fix l :: "'a llist" and v vs
  assume "list_inv l"
  then obtain ns where ok: "list_ok l ns" and vals: "list_vals l = map snd ns"
    using list_inv_vals by blast
  show "list_vals (list_push_head l v) = v # list_vals l" "list_inv (list_push_head l v)"
    using list_vals_ok [OF list_push_head_ok [OF ok, of v]] list_push_head_ok [OF ok] vals
    by (auto simp: list_inv_def)
  show "list_vals (list_push_tail l v) = list_vals l @ [v]" "list_inv (list_push_tail l v)"
    using list_vals_ok [OF list_push_tail_ok [OF ok, of v]] list_push_tail_ok [OF ok] vals
    by (auto simp: list_inv_def)
  show "list_len l = length (list_vals l)"
    using ok vals by (simp add: list_len_def list_ok_def)
  show "list_vals l = [] \<Longrightarrow> list_pop_head l = (None, l) \<and> list_pop_tail l = (None, l)"
    using ok vals list_pop_empty by auto
  show "list_inv (snd (list_pop_head l))"
    using ok by (cases ns) (auto simp: list_pop_empty list_ok_inv dest: list_pop_nodes(1) list_ok_inv)
  show "list_inv (snd (list_pop_tail l))"
    using ok
    by (cases ns rule: rev_cases)
      (auto simp: list_pop_empty list_ok_inv dest: list_pop_nodes(2) list_ok_inv)
  show "fst (list_pop_head l) = Some v \<and> list_vals (snd (list_pop_head l)) = vs"
    if "list_vals l = v # vs"
    using ok vals that by (auto dest: list_pop_nodes(1) list_vals_ok)
  show "fst (list_pop_tail l) = Some v \<and> list_vals (snd (list_pop_tail l)) = vs"
    if "list_vals l = vs @ [v]"
    using ok vals that
    by (cases ns rule: rev_cases) (auto dest: list_pop_nodes(2) list_vals_ok)
qed

section \<open>Runs of operations\<close>

datatype 'a list_op =
    Push_head 'a | Push_tail 'a | Pop_head | Pop_tail
  | Insert_after_at int 'a | Detach_at int

fun list_step :: "'a list_op \<Rightarrow> 'a llist \<Rightarrow> 'a option \<times> 'a llist" where
  "list_step (Push_head v) l = (None, list_push_head l v)"
| "list_step (Push_tail v) l = (None, list_push_tail l v)"
| "list_step Pop_head l = list_pop_head l"
| "list_step Pop_tail l = list_pop_tail l"
| "list_step (Insert_after_at i v) l = (None, list_insert_after l (list_node_at l i) v)"
| "list_step (Detach_at i) l = list_detach l (list_node_at l i)"

definition norm_index :: "nat \<Rightarrow> int \<Rightarrow> nat option" where
  "norm_index n i =
     (let j = (if i < 0 then i + int n else i) in if 0 \<le> j \<and> j < int n then Some (nat j) else None)"

fun seq_step :: "'a list_op \<Rightarrow> 'a list \<Rightarrow> 'a option \<times> 'a list" where
  "seq_step (Push_head v) xs = (None, v # xs)"
| "seq_step (Push_tail v) xs = (None, xs @ [v])"
| "seq_step Pop_head xs = (if xs = [] then (None, []) else (Some (hd xs), tl xs))"
| "seq_step Pop_tail xs = (if xs = [] then (None, []) else (Some (last xs), butlast xs))"
| "seq_step (Insert_after_at i v) xs =
     (None, case norm_index (length xs) i of
              None \<Rightarrow> v # xs
            | Some j \<Rightarrow> take (Suc j) xs @ v # drop (Suc j) xs)"
| "seq_step (Detach_at i) xs =
     (case norm_index (length xs) i of
        None \<Rightarrow> (None, xs)
      | Some j \<Rightarrow> (Some (xs ! j), take j xs @ drop (Suc j) xs))"

lemma list_node_at_norm:
  "list_ok l ns \<Longrightarrow> list_node_at l i = map_option (\<lambda>j. fst (ns ! j)) (norm_index (length ns) i)"
  by (simp add: list_node_at_ok norm_index_def Let_def)

lemma norm_index_less: "norm_index n i = Some j \<Longrightarrow> j < n"
  by (auto simp: norm_index_def Let_def split: if_splits)

lemma list_step_refines:
  assumes "list_inv l"
  shows "seq_step x (list_vals l) = (fst (list_step x l), list_vals (snd (list_step x l))) \<and>
    list_inv (snd (list_step x l))"
proof (cases x)
  case Pop_head
  then show ?thesis
    using assms dq.pop_empty [OF assms] dq.pop_head_nonempty [OF assms] dq.pop_head_invar [OF assms]
    by auto
next
  case Pop_tail
  then show ?thesis
    using assms dq.pop_empty [OF assms] dq.pop_tail_nonempty [OF assms] dq.pop_tail_invar [OF assms]
    by auto
next
  case (Insert_after_at i v)
  obtain ns where ok: "list_ok l ns" and vals: "list_vals l = map snd ns"
    using list_inv_vals [OF assms] by blast
  show ?thesis
  proof (cases "norm_index (length ns) i")
    case None
    with Insert_after_at ok vals list_insert_head_ok [OF ok, of v] show ?thesis
      by (auto simp: list_node_at_norm list_vals_ok list_ok_inv)
  next
    case (Some j)
    then have j: "j < length ns" by (rule norm_index_less)
    then have ns: "ns = take j ns @ (fst (ns ! j), snd (ns ! j)) # drop (Suc j) ns"
      by (simp add: id_take_nth_drop)
    have "list_ok (list_insert_after l (Some (fst (ns ! j))) v)
        (take j ns @ (fst (ns ! j), snd (ns ! j)) # (fresh l, v) # drop (Suc j) ns)"
      using ok ns list_insert_after_ok by metis
    with Insert_after_at Some ok vals j show ?thesis
      by (auto simp: list_node_at_norm list_vals_ok list_ok_inv take_Suc_conv_app_nth take_map drop_map)
  qed
next
  case (Detach_at i)
  obtain ns where ok: "list_ok l ns" and vals: "list_vals l = map snd ns"
    using list_inv_vals [OF assms] by blast
  show ?thesis
  proof (cases "norm_index (length ns) i")
    case None
    with Detach_at ok vals assms show ?thesis
      by (simp add: list_node_at_norm list_detach_def)
  next
    case (Some j)
    then have j: "j < length ns" by (rule norm_index_less)
    then have "ns = take j ns @ (fst (ns ! j), snd (ns ! j)) # drop (Suc j) ns"
      by (simp add: id_take_nth_drop)
    then have "fst (list_detach l (Some (fst (ns ! j)))) = Some (snd (ns ! j))"
      "list_ok (snd (list_detach l (Some (fst (ns ! j))))) (take j ns @ drop (Suc j) ns)"
      using ok list_detach_ok by metis+
    with Detach_at Some ok vals j show ?thesis
      by (auto simp: list_node_at_norm list_vals_ok list_ok_inv take_map drop_map)
  qed
qed (use assms in \<open>simp_all add: dq.push_head dq.push_head_invar dq.push_tail dq.push_tail_invar\<close>)

lemma list_create_ok: "list_ok list_create []"
  by (simp add: list_create_def list_ok_def)

lemma list_create_inv [simp]: "list_inv list_create" "list_vals list_create = []"
  using list_create_ok list_vals_ok list_ok_inv by fastforce+

lemma list_run_refines:
  "list_inv l \<Longrightarrow>
     run_ops seq_step ops (list_vals l) =
       (fst (run_ops list_step ops l), list_vals (snd (run_ops list_step ops l))) \<and>
     list_inv (snd (run_ops list_step ops l))"
proof (induction ops arbitrary: l)
  case (Cons x ops)
  obtain r l' where step: "list_step x l = (r, l')" by fastforce
  with list_step_refines [OF Cons.prems, of x]
  have "seq_step x (list_vals l) = (r, list_vals l')" and ok: "list_inv l'" by simp_all
  with step Cons.IH [OF ok] show ?case by (simp add: split_def)
qed simp

section \<open>Properties\<close>

text \<open>
  C13. Any sequence of the list operations on a fresh list (pushes and pops at both ends, insertion
  after and removal of the node that \<open>list_node_at\<close> finds at a positive or negative index) returns
  what the same sequence returns on an ordinary list and leaves its values in order: following
  \<open>next\<close> from the head visits them, \<open>list_len\<close> counts them, and exactly that many nodes are
  still allocated.
\<close>

theorem list_run_correct:
  "let (results, l) = run_ops list_step ops list_create;
       (expected, xs) = run_ops seq_step ops []
   in results = expected \<and> list_vals l = xs \<and> list_len l = length xs \<and>
      card (dom (nodes l)) = length xs"
proof -
  obtain results l where run: "run_ops list_step ops list_create = (results, l)" by fastforce
  with list_run_refines [OF list_create_inv(1), of ops]
  have spec: "run_ops seq_step ops [] = (results, list_vals l)" and inv: "list_inv l" by simp_all
  obtain ns where ok: "list_ok l ns" "list_vals l = map snd ns" using list_inv_vals [OF inv] by blast
  then have "dom (nodes l) = set (map fst ns)" "distinct (map fst ns)" by (simp_all add: list_ok_def)
  then have "card (dom (nodes l)) = length ns" by (metis distinct_card length_map)
  with run spec ok dq.len_vals [OF inv] show ?thesis by simp
qed

end
