(* ===== verification/Object.thy ===== *)
theory Object
  imports Linked_List Zset
begin

text \<open>
  \<open>src/object.c\<close>: the values stored under keys. The tagged pointer of an \<open>robj\<close> is the datatype
  \<open>payload\<close>. The elements of a list and the fields of a hash are string objects of which only the
  bytes are ever read (their \<open>expire_at\<close> stays -1), so they are \<open>bytes\<close>; the values of a set's dict
  are a constant mark, here \<open>()\<close>.
\<close>

datatype obj_type = OBJ_STRING | OBJ_LIST | OBJ_HASH | OBJ_SET | OBJ_ZSET

datatype payload =
    PString bytes
  | PList "bytes llist"
  | PHash "bytes dict"
  | PSet "unit dict"
  | PZset zset

record robj =
  ptr :: payload
  expire_at :: int

fun type_of :: "payload \<Rightarrow> obj_type" where
  "type_of (PString _) = OBJ_STRING"
| "type_of (PList _) = OBJ_LIST"
| "type_of (PHash _) = OBJ_HASH"
| "type_of (PSet _) = OBJ_SET"
| "type_of (PZset _) = OBJ_ZSET"

definition robj_new_string :: "bytes \<Rightarrow> robj" where
  "robj_new_string s = \<lparr>ptr = PString s, expire_at = -1\<rparr>"

definition robj_new_string_ll :: "int \<Rightarrow> robj" where
  "robj_new_string_ll v = robj_new_string (show_int v)"

definition robj_new_list :: robj where
  "robj_new_list = \<lparr>ptr = PList list_create, expire_at = -1\<rparr>"

definition robj_new_hash :: "bytes \<Rightarrow> robj" where
  "robj_new_hash seed = \<lparr>ptr = PHash (dict_create seed), expire_at = -1\<rparr>"

definition robj_new_set :: "bytes \<Rightarrow> robj" where
  "robj_new_set seed = \<lparr>ptr = PSet (dict_create seed), expire_at = -1\<rparr>"

definition robj_new_zset :: "bytes \<Rightarrow> robj" where
  "robj_new_zset seed = \<lparr>ptr = PZset (zset_create seed), expire_at = -1\<rparr>"

section \<open>Abstract values\<close>

text \<open>What a client can observe of an object.\<close>

datatype aval =
    AString bytes
  | AList "bytes list"
  | AHash "bytes \<Rightarrow> bytes option"
  | ASet "bytes set"
  | AZset "bytes \<Rightarrow> double option"

fun abs_payload :: "payload \<Rightarrow> aval" where
  "abs_payload (PString s) = AString s"
| "abs_payload (PList l) = AList (list_vals l)"
| "abs_payload (PHash d) = AHash (dict_get d)"
| "abs_payload (PSet d) = ASet (dom (dict_get d))"
| "abs_payload (PZset zs) = AZset (zset_score zs)"

end
