(* ===== verification/Dynbuf.thy ===== *)
theory Dynbuf
  imports Prelude
begin

text \<open>
  \<open>src/dynbuf.c\<close>: growable byte buffers. \<open>dmem\<close> is the allocated block (\<open>cap\<close> bytes, empty for
  NULL) and \<open>dlen\<close> the length in use. \<open>xrealloc\<close> keeps the old bytes and leaves the new ones
  unspecified: \<open>junk i\<close> is what byte \<open>i\<close> of a fresh block happens to hold, and the results hold
  for every \<open>junk\<close>. The formatted text of \<open>dynbuf_appendf\<close> is its argument. Sizes are \<open>nat\<close>.
\<close>

record dynbuf =
  dmem :: bytes
  dlen :: nat

definition dcap :: "dynbuf \<Rightarrow> nat" where
  "dcap b = length (dmem b)"

definition dynbuf_init :: dynbuf where
  "dynbuf_init = \<lparr>dmem = [], dlen = 0\<rparr>"

definition dynbuf_free :: "dynbuf \<Rightarrow> dynbuf" where
  "dynbuf_free b = b\<lparr>dmem := [], dlen := 0\<rparr>"

definition xrealloc :: "(nat \<Rightarrow> char) \<Rightarrow> bytes \<Rightarrow> nat \<Rightarrow> bytes" where
  "xrealloc junk mem n = take n mem @ map junk [length mem..<n]"

text \<open>The doubling loop; it starts from a positive capacity.\<close>

function grow_cap :: "nat \<Rightarrow> nat \<Rightarrow> nat" where
  "grow_cap newcap need = (if 0 < newcap \<and> newcap < need then grow_cap (newcap * 2) need else newcap)"
  by pat_completeness auto
termination
  by (relation "measure (\<lambda>(newcap, need). need - newcap)") auto

declare grow_cap.simps [simp del]

definition dynbuf_reserve :: "(nat \<Rightarrow> char) \<Rightarrow> dynbuf \<Rightarrow> nat \<Rightarrow> dynbuf" where
  "dynbuf_reserve junk b extra =
     (if dlen b + extra + 1 \<le> dcap b then b
      else let newcap = grow_cap (if dcap b \<noteq> 0 then dcap b else 64) (dlen b + extra + 1)
           in b\<lparr>dmem := xrealloc junk (dmem b) newcap\<rparr>)"

text \<open>\<open>memcpy(mem + off, data, n)\<close> inside the block.\<close>

definition mem_write :: "bytes \<Rightarrow> nat \<Rightarrow> bytes \<Rightarrow> bytes" where
  "mem_write mem off data = take off mem @ data @ drop (off + length data) mem"

definition dynbuf_append :: "(nat \<Rightarrow> char) \<Rightarrow> dynbuf \<Rightarrow> bytes \<Rightarrow> dynbuf" where
  "dynbuf_append junk b data =
     (if data = [] then b
      else let b1 = dynbuf_reserve junk b (length data);
               b2 = b1\<lparr>dmem := mem_write (dmem b1) (dlen b1) data, dlen := dlen b1 + length data\<rparr>
           in b2\<lparr>dmem := (dmem b2)[dlen b2 := CHR 0x00]\<rparr>)"

definition dynbuf_append_cstr :: "(nat \<Rightarrow> char) \<Rightarrow> dynbuf \<Rightarrow> bytes \<Rightarrow> dynbuf" where
  "dynbuf_append_cstr junk b s = dynbuf_append junk b (cstr s)"

text \<open>The second \<open>vsnprintf\<close> writes the text and its terminating NUL.\<close>

definition dynbuf_appendf :: "(nat \<Rightarrow> char) \<Rightarrow> dynbuf \<Rightarrow> bytes \<Rightarrow> dynbuf" where
  "dynbuf_appendf junk b formatted =
     (let b1 = dynbuf_reserve junk b (length formatted)
      in b1\<lparr>dmem := mem_write (dmem b1) (dlen b1) (formatted @ [CHR 0x00]),
            dlen := dlen b1 + length formatted\<rparr>)"

definition dynbuf_clear :: "dynbuf \<Rightarrow> dynbuf" where
  "dynbuf_clear b = b\<lparr>dlen := 0, dmem := (dmem b)[0 := CHR 0x00]\<rparr>"

section \<open>Contents\<close>

definition contents :: "dynbuf \<Rightarrow> bytes" where
  "contents b = take (dlen b) (dmem b)"

text \<open>
  Nothing is allocated and nothing is in use, or the contents fit with room for a terminating NUL.
  The appends put the NUL there; the server, which shortens its buffers in place, does not.
\<close>

definition dynbuf_ok :: "dynbuf \<Rightarrow> bool" where
  "dynbuf_ok b = ((dcap b = 0 \<and> dlen b = 0) \<or> dlen b < dcap b)"

definition terminated :: "dynbuf \<Rightarrow> bool" where
  "terminated b = (dcap b = 0 \<or> dmem b ! dlen b = CHR 0x00)"

lemma grow_cap_ge: "0 < c \<Longrightarrow> need \<le> grow_cap c need \<and> c \<le> grow_cap c need"
proof (induction c need rule: grow_cap.induct)
  case (1 c need)
  then show ?case by (subst (1 2) grow_cap.simps) auto
qed

lemma grow_cap_amortised: "0 < c \<Longrightarrow> grow_cap c need = c \<or> grow_cap c need < 2 * need"
proof (induction c need rule: grow_cap.induct)
  case (1 c need)
  then show ?case by (subst (1 2) grow_cap.simps) auto
qed

lemma dynbuf_reserve_room:
  assumes "dlen b \<le> dcap b"
  shows "dlen b + extra < dcap (dynbuf_reserve junk b extra)"
    and "dlen (dynbuf_reserve junk b extra) = dlen b"
    and "contents (dynbuf_reserve junk b extra) = contents b"
proof -
  let ?c = "grow_cap (if dcap b \<noteq> 0 then dcap b else 64) (dlen b + extra + 1)"
  have "dlen b + extra + 1 \<le> ?c" "dcap b \<le> ?c"
    using grow_cap_ge [of "if dcap b \<noteq> 0 then dcap b else 64" "dlen b + extra + 1"] by auto
  then show "dlen b + extra < dcap (dynbuf_reserve junk b extra)"
    "dlen (dynbuf_reserve junk b extra) = dlen b"
    "contents (dynbuf_reserve junk b extra) = contents b"
    using assms by (auto simp: dynbuf_reserve_def dcap_def xrealloc_def contents_def Let_def)
qed

lemma dynbuf_ok_le: "dynbuf_ok b \<Longrightarrow> dlen b \<le> dcap b"
  by (auto simp: dynbuf_ok_def)

lemma dynbuf_append_ok:
  assumes "dynbuf_ok b"
  shows "contents (dynbuf_append junk b data) = contents b @ data"
    and "dynbuf_ok (dynbuf_append junk b data)"
  using dynbuf_reserve_room [OF dynbuf_ok_le [OF assms], where extra = "length data" and junk = junk] assms
  by (auto simp: dynbuf_append_def Let_def contents_def dynbuf_ok_def mem_write_def dcap_def
      take_update_cancel)

lemma dynbuf_appendf_ok:
  assumes "dynbuf_ok b"
  shows "contents (dynbuf_appendf junk b s) = contents b @ s"
    and "dynbuf_ok (dynbuf_appendf junk b s)"
  using dynbuf_reserve_room [OF dynbuf_ok_le [OF assms], where extra = "length s" and junk = junk]
    dynbuf_ok_le [OF assms]
  by (auto simp: dynbuf_appendf_def Let_def contents_def dynbuf_ok_def mem_write_def dcap_def
      nth_append)

lemma dynbuf_clear_ok:
  "dynbuf_ok b \<Longrightarrow> dynbuf_ok (dynbuf_clear b)" "contents (dynbuf_clear b) = []"
  by (auto simp: dynbuf_clear_def dynbuf_ok_def contents_def dcap_def)

lemma dynbuf_init_ok: "dynbuf_ok dynbuf_init" "contents dynbuf_init = []"
  by (simp_all add: dynbuf_init_def dynbuf_ok_def contents_def dcap_def)

lemma dynbuf_length: "dynbuf_ok b \<Longrightarrow> length (contents b) = dlen b"
  by (auto simp: dynbuf_ok_def contents_def dcap_def)

lemma terminated_ops:
  assumes "dynbuf_ok b"
  shows "terminated b \<Longrightarrow> terminated (dynbuf_append junk b data)" "terminated (dynbuf_appendf junk b data)"
    "terminated (dynbuf_clear b)"
proof -
  note r = dynbuf_reserve_room(1,2) [OF dynbuf_ok_le [OF assms], where extra = "length data" and junk = junk]
  show "terminated (dynbuf_append junk b data)" if "terminated b"
    using that r by (simp add: terminated_def dynbuf_append_def Let_def mem_write_def dcap_def)
  show "terminated (dynbuf_appendf junk b data)"
    using r by (auto simp: terminated_def dynbuf_appendf_def Let_def mem_write_def dcap_def nth_append)
  show "terminated (dynbuf_clear b)"
    by (cases "dmem b") (simp_all add: terminated_def dynbuf_clear_def dcap_def)
qed

section \<open>Output buffers\<close>

text \<open>
  The interface of an output buffer: appends extend the bytes collected so far. The reply builders
  and the log writers see a buffer only through it.
\<close>

locale byte_sink =
  fixes append_bytes :: "'b \<Rightarrow> bytes \<Rightarrow> 'b"
    and append_text :: "'b \<Rightarrow> bytes \<Rightarrow> 'b"
    and clear :: "'b \<Rightarrow> 'b"
    and bytes_of :: "'b \<Rightarrow> bytes"
    and invar :: "'b \<Rightarrow> bool"
  assumes append_bytes: "invar b \<Longrightarrow> bytes_of (append_bytes b s) = bytes_of b @ s"
    and append_bytes_invar: "invar b \<Longrightarrow> invar (append_bytes b s)"
    and append_text: "invar b \<Longrightarrow> bytes_of (append_text b s) = bytes_of b @ s"
    and append_text_invar: "invar b \<Longrightarrow> invar (append_text b s)"
    and clear_bytes: "invar b \<Longrightarrow> bytes_of (clear b) = []"
    and clear_invar: "invar b \<Longrightarrow> invar (clear b)"
begin

text \<open>A sequence of appends collects the concatenation, however it is cut.\<close>

lemma append_many:
  "invar b \<Longrightarrow> invar (foldl append_bytes b ss) \<and> bytes_of (foldl append_bytes b ss) = bytes_of b @ concat ss"
  by (induction ss arbitrary: b) (simp_all add: append_bytes append_bytes_invar)

lemma append_cut:
  "invar b \<Longrightarrow> concat ss = concat ts \<Longrightarrow>
     bytes_of (foldl append_bytes b ss) = bytes_of (foldl append_bytes b ts)"
  by (simp add: append_many)

end

interpretation ob: byte_sink "dynbuf_append junk" "dynbuf_appendf junk" dynbuf_clear contents dynbuf_ok
  for junk
  by unfold_locales (simp_all add: dynbuf_append_ok dynbuf_appendf_ok dynbuf_clear_ok)

section \<open>Properties\<close>

datatype dynbuf_op = App bytes | App_cstr bytes | Appf bytes | Clear

fun dynbuf_step :: "(nat \<Rightarrow> char) \<Rightarrow> dynbuf_op \<Rightarrow> dynbuf \<Rightarrow> dynbuf" where
  "dynbuf_step junk (App s) b = dynbuf_append junk b s"
| "dynbuf_step junk (App_cstr s) b = dynbuf_append_cstr junk b s"
| "dynbuf_step junk (Appf s) b = dynbuf_appendf junk b s"
| "dynbuf_step junk Clear b = dynbuf_clear b"

fun bytes_step :: "dynbuf_op \<Rightarrow> bytes \<Rightarrow> bytes" where
  "bytes_step (App s) x = x @ s"
| "bytes_step (App_cstr s) x = x @ cstr s"
| "bytes_step (Appf s) x = x @ s"
| "bytes_step Clear x = []"

lemma dynbuf_steps:
  "dynbuf_ok b \<Longrightarrow> terminated b \<Longrightarrow>
     dynbuf_ok (fold (dynbuf_step junk) ops b) \<and> terminated (fold (dynbuf_step junk) ops b) \<and>
     contents (fold (dynbuf_step junk) ops b) = fold bytes_step ops (contents b)"
proof (induction ops arbitrary: b)
  case (Cons x ops)
  then show ?case
    using ob.append_bytes [of b] ob.append_bytes_invar [of b] ob.append_text [of b]
      ob.append_text_invar [of b] ob.clear_invar [of b] ob.clear_bytes [of b]
      terminated_ops [of b]
    by (cases x) (simp_all add: dynbuf_append_cstr_def)
qed simp

text \<open>
  C27. Starting from \<open>dynbuf_init\<close>, any sequence of appends, formatted appends and clears leaves
  exactly the bytes appended since the last clear, whatever the allocator puts in fresh memory;
  the length always stays inside the block and, once something is allocated, the byte after the
  contents is NUL, so the block can be read as a C string.
\<close>

theorem dynbuf_run_correct:
  "let b = fold (dynbuf_step junk) ops dynbuf_init
   in contents b = fold bytes_step ops [] \<and>
      length (contents b) = dlen b \<and>
      (dcap b = 0 \<and> dlen b = 0 \<or> dlen b < dcap b \<and> dmem b ! dlen b = CHR 0x00)"
proof -
  have "terminated dynbuf_init" by (simp add: terminated_def dynbuf_init_def dcap_def)
  note run = dynbuf_steps [OF dynbuf_init_ok(1) this, of junk ops]
  then show ?thesis
    using dynbuf_length [of "fold (dynbuf_step junk) ops dynbuf_init"]
    by (auto simp: Let_def dynbuf_ok_def terminated_def dynbuf_init_ok(2))
qed

end
