(* ===== verification/State.thy ===== *)
theory State
  imports Object Dynbuf Util Resp
begin

text \<open>
  The state the command handlers of \<open>src/db.c\<close> work on, and the RESP reply builders of
  \<open>src/server.c\<close>. One record holds the keyspace (\<open>struct db\<close>), the reply side of the client
  being served, and the sources of the values the environment supplies: \<open>clock\<close> is what
  \<open>now_ms()\<close> returns while a command runs, \<open>seeds\<close> the successive 16-byte strings of
  \<open>util_random_bytes\<close> (one for each \<open>dict_create\<close>), \<open>rands\<close> the successive results of
  \<open>rand()\<close>, and \<open>junk\<close> the contents of fresh memory.
\<close>

record st =
  clock :: int
  junk :: "nat \<Rightarrow> char"
  seeds :: "nat \<Rightarrow> bytes"
  seed_pos :: nat
  rands :: "nat \<Rightarrow> nat"
  rand_pos :: nat
  store :: "robj dict"
  expire_cursor :: nat
  out :: dynbuf
  closing :: bool
  start_ms :: int

section \<open>Reply builders\<close>

definition append_text :: "bytes \<Rightarrow> st \<Rightarrow> st" where
  "append_text b s = s\<lparr>out := dynbuf_append_cstr (junk s) (out s) b\<rparr>"

definition append_fmt :: "bytes \<Rightarrow> st \<Rightarrow> st" where
  "append_fmt b s = s\<lparr>out := dynbuf_appendf (junk s) (out s) b\<rparr>"

definition append_data :: "bytes \<Rightarrow> st \<Rightarrow> st" where
  "append_data b s = s\<lparr>out := dynbuf_append (junk s) (out s) b\<rparr>"

definition reply_simple :: "bytes \<Rightarrow> st \<Rightarrow> st" where
  "reply_simple m s = append_text crlf (append_text m (append_text ''+'' s))"

text \<open>The text is formatted into a buffer of 256 bytes, of which the last holds the NUL.\<close>

definition reply_error :: "bytes \<Rightarrow> st \<Rightarrow> st" where
  "reply_error m s = append_text crlf (append_text (take 255 m) (append_text ''-ERR '' s))"

definition reply_integer :: "int \<Rightarrow> st \<Rightarrow> st" where
  "reply_integer n s = append_fmt (CHR '':'' # show_int n @ crlf) s"

definition reply_bulk :: "bytes \<Rightarrow> st \<Rightarrow> st" where
  "reply_bulk d s = append_text crlf (append_data d (append_fmt (CHR ''$'' # show_nat (length d) @ crlf) s))"

definition reply_bulk_cstr :: "bytes \<Rightarrow> st \<Rightarrow> st" where
  "reply_bulk_cstr d s = reply_bulk (cstr d) s"

definition reply_null :: "st \<Rightarrow> st" where
  "reply_null s = append_text (''$-1'' @ crlf) s"

definition reply_array_header :: "nat \<Rightarrow> st \<Rightarrow> st" where
  "reply_array_header n s = append_fmt (CHR ''*'' # show_nat n @ crlf) s"

text \<open>A loop that replies with one bulk string after another.\<close>

fun reply_bulks :: "bytes list \<Rightarrow> st \<Rightarrow> st" where
  "reply_bulks [] s = s"
| "reply_bulks (d # ds) s = reply_bulks ds (reply_bulk d s)"

text \<open>\<open>reply_wrongtype\<close> of \<open>src/db.c\<close>.\<close>

definition wrongtype_text :: bytes where
  "wrongtype_text = ''WRONGTYPE Operation against a key holding the wrong kind of value''"

definition reply_wrongtype :: "st \<Rightarrow> st" where
  "reply_wrongtype s = append_text (''-'' @ wrongtype_text @ crlf) s"

text \<open>The error texts with a command name in them.\<close>

definition wrong_args :: "bytes \<Rightarrow> bytes" where
  "wrong_args name = ''wrong number of arguments for '' @ [CHR 0x27] @ name @ [CHR 0x27] @ '' command''"

definition invalid_expire :: "bytes \<Rightarrow> bytes" where
  "invalid_expire name = ''invalid expire time in '' @ [CHR 0x27] @ name @ [CHR 0x27] @ '' command''"

definition not_integer :: bytes where
  "not_integer = ''value is not an integer or out of range''"

definition would_overflow :: bytes where
  "would_overflow = ''increment or decrement would overflow''"

section \<open>Replies\<close>

text \<open>
  A reply as a value, and its bytes on the wire. \<open>RHeader n\<close> is the header of an array of \<open>n\<close>
  elements that never follow: no reply a client can read, which one branch of \<open>ZRANGEBYSCORE\<close>
  produces.
\<close>

datatype reply =
    RSimple bytes
  | RErr bytes
  | RInt int
  | RBulk bytes
  | RNull
  | RArray "reply list"
  | RHeader nat

fun encode :: "reply \<Rightarrow> bytes" where
  "encode (RSimple m) = CHR ''+'' # m @ crlf"
| "encode (RErr m) = CHR ''-'' # m @ crlf"
| "encode (RInt n) = CHR '':'' # show_int n @ crlf"
| "encode (RBulk d) = CHR ''$'' # show_nat (length d) @ crlf @ d @ crlf"
| "encode RNull = ''$-1'' @ crlf"
| "encode (RArray rs) = CHR ''*'' # show_nat (length rs) @ crlf @ concat (map encode rs)"
| "encode (RHeader n) = CHR ''*'' # show_nat n @ crlf"

definition err :: "bytes \<Rightarrow> reply" where
  "err m = RErr (''ERR '' @ cstr (take 255 m))"

definition wrongtype :: reply where
  "wrongtype = RErr wrongtype_text"

abbreviation ok_reply :: reply where
  "ok_reply \<equiv> RSimple ''OK''"

text \<open>The bytes queued for the client.\<close>

definition outb :: "st \<Rightarrow> bytes" where
  "outb s = contents (out s)"

section \<open>The keyspace as a client sees it\<close>

definition key_expired :: "int \<Rightarrow> robj \<Rightarrow> bool" where
  "key_expired now ob = (0 \<le> expire_at ob \<and> expire_at ob \<le> now)"

type_synonym view = "bytes \<Rightarrow> (aval \<times> int) option"

definition aobj :: "robj \<Rightarrow> aval \<times> int" where
  "aobj ob = (abs_payload (ptr ob), expire_at ob)"

definition view_of :: "int \<Rightarrow> robj dict \<Rightarrow> view" where
  "view_of now d k =
     (case dict_get d k of
        None \<Rightarrow> None
      | Some ob \<Rightarrow> if key_expired now ob then None else Some (aobj ob))"

definition view :: "st \<Rightarrow> view" where
  "view s = view_of (clock s) (store s)"

text \<open>Binding a key to a value that may already be past its time.\<close>

definition aput :: "int \<Rightarrow> bytes \<Rightarrow> aval \<Rightarrow> int \<Rightarrow> view \<Rightarrow> view" where
  "aput now k a e v = (if 0 \<le> e \<and> e \<le> now then v(k := None) else v(k \<mapsto> (a, e)))"

lemma aput_plain [simp]: "aput now k a (- 1) v = v(k \<mapsto> (a, - 1))"
  by (simp add: aput_def)

section \<open>The invariant\<close>

fun payload_ok :: "payload \<Rightarrow> bool" where
  "payload_ok (PString v) = True"
| "payload_ok (PList l) = list_inv l"
| "payload_ok (PHash d) = dict_ok d"
| "payload_ok (PSet d) = dict_ok d"
| "payload_ok (PZset zs) = zset_ok zs"

definition st_ok :: "st \<Rightarrow> bool" where
  "st_ok s =
     (dict_ok (store s) \<and> dynbuf_ok (out s) \<and>
      (\<forall>k ob. dict_get (store s) k = Some ob \<longrightarrow> payload_ok (ptr ob)))"

lemma cstr_literals [simp]:
  "cstr crlf = crlf" "cstr ''+'' = ''+''" "cstr ''-ERR '' = ''-ERR ''"
  "cstr (CHR ''$'' # CHR ''-'' # CHR ''1'' # crlf) = CHR ''$'' # CHR ''-'' # CHR ''1'' # crlf"
  "cstr (CHR ''-'' # wrongtype_text @ crlf) = CHR ''-'' # wrongtype_text @ crlf"
  by (simp_all add: crlf_def wrongtype_text_def)

text \<open>
  What each reply builder does, field by field: only the output buffer changes, and it grows by the
  encoded reply.
\<close>

lemma append_frame [simp]:
  "clock (append_text b s) = clock s"
    "closing (append_text b s) = closing s"
    "start_ms (append_text b s) = start_ms s"
    "seeds (append_text b s) = seeds s"
    "rands (append_text b s) = rands s"
    "store (append_text b s) = store s"
    "seed_pos (append_text b s) = seed_pos s"
    "rand_pos (append_text b s) = rand_pos s"
    "expire_cursor (append_text b s) = expire_cursor s"
    "view (append_text b s) = view s"
  "clock (append_fmt b s) = clock s"
    "closing (append_fmt b s) = closing s"
    "start_ms (append_fmt b s) = start_ms s"
    "seeds (append_fmt b s) = seeds s"
    "rands (append_fmt b s) = rands s"
    "store (append_fmt b s) = store s"
    "seed_pos (append_fmt b s) = seed_pos s"
    "rand_pos (append_fmt b s) = rand_pos s"
    "expire_cursor (append_fmt b s) = expire_cursor s"
    "view (append_fmt b s) = view s"
  "clock (append_data b s) = clock s"
    "closing (append_data b s) = closing s"
    "start_ms (append_data b s) = start_ms s"
    "seeds (append_data b s) = seeds s"
    "rands (append_data b s) = rands s"
    "store (append_data b s) = store s"
    "seed_pos (append_data b s) = seed_pos s"
    "rand_pos (append_data b s) = rand_pos s"
    "expire_cursor (append_data b s) = expire_cursor s"
    "view (append_data b s) = view s"
  by (simp_all add: append_text_def append_fmt_def append_data_def view_def)

lemma append_out [simp]:
  assumes "st_ok s"
  shows "st_ok (append_text b s)" "outb (append_text b s) = outb s @ cstr b"
    and "st_ok (append_fmt b s)" "outb (append_fmt b s) = outb s @ b"
    and "st_ok (append_data b s)" "outb (append_data b s) = outb s @ b"
  using assms
  by (simp_all add: append_text_def append_fmt_def append_data_def st_ok_def outb_def
      dynbuf_append_cstr_def ob.append_bytes ob.append_bytes_invar ob.append_text ob.append_text_invar)

lemmas reply_defs = reply_simple_def reply_error_def reply_integer_def reply_bulk_def
  reply_bulk_cstr_def reply_null_def reply_wrongtype_def reply_array_header_def

lemma reply_frame [simp]:
  "clock (reply_simple m s) = clock s"
    "closing (reply_simple m s) = closing s"
    "start_ms (reply_simple m s) = start_ms s"
    "seeds (reply_simple m s) = seeds s"
    "rands (reply_simple m s) = rands s"
    "store (reply_simple m s) = store s"
    "seed_pos (reply_simple m s) = seed_pos s"
    "rand_pos (reply_simple m s) = rand_pos s"
    "expire_cursor (reply_simple m s) = expire_cursor s"
    "view (reply_simple m s) = view s"
  "clock (reply_error m s) = clock s"
    "closing (reply_error m s) = closing s"
    "start_ms (reply_error m s) = start_ms s"
    "seeds (reply_error m s) = seeds s"
    "rands (reply_error m s) = rands s"
    "store (reply_error m s) = store s"
    "seed_pos (reply_error m s) = seed_pos s"
    "rand_pos (reply_error m s) = rand_pos s"
    "expire_cursor (reply_error m s) = expire_cursor s"
    "view (reply_error m s) = view s"
  "clock (reply_integer n s) = clock s"
    "closing (reply_integer n s) = closing s"
    "start_ms (reply_integer n s) = start_ms s"
    "seeds (reply_integer n s) = seeds s"
    "rands (reply_integer n s) = rands s"
    "store (reply_integer n s) = store s"
    "seed_pos (reply_integer n s) = seed_pos s"
    "rand_pos (reply_integer n s) = rand_pos s"
    "expire_cursor (reply_integer n s) = expire_cursor s"
    "view (reply_integer n s) = view s"
  "clock (reply_bulk d s) = clock s"
    "closing (reply_bulk d s) = closing s"
    "start_ms (reply_bulk d s) = start_ms s"
    "seeds (reply_bulk d s) = seeds s"
    "rands (reply_bulk d s) = rands s"
    "store (reply_bulk d s) = store s"
    "seed_pos (reply_bulk d s) = seed_pos s"
    "rand_pos (reply_bulk d s) = rand_pos s"
    "expire_cursor (reply_bulk d s) = expire_cursor s"
    "view (reply_bulk d s) = view s"
  "clock (reply_bulk_cstr d s) = clock s"
    "closing (reply_bulk_cstr d s) = closing s"
    "start_ms (reply_bulk_cstr d s) = start_ms s"
    "seeds (reply_bulk_cstr d s) = seeds s"
    "rands (reply_bulk_cstr d s) = rands s"
    "store (reply_bulk_cstr d s) = store s"
    "seed_pos (reply_bulk_cstr d s) = seed_pos s"
    "rand_pos (reply_bulk_cstr d s) = rand_pos s"
    "expire_cursor (reply_bulk_cstr d s) = expire_cursor s"
    "view (reply_bulk_cstr d s) = view s"
  "clock (reply_null s) = clock s"
    "closing (reply_null s) = closing s"
    "start_ms (reply_null s) = start_ms s"
    "seeds (reply_null s) = seeds s"
    "rands (reply_null s) = rands s"
    "store (reply_null s) = store s"
    "seed_pos (reply_null s) = seed_pos s"
    "rand_pos (reply_null s) = rand_pos s"
    "expire_cursor (reply_null s) = expire_cursor s"
    "view (reply_null s) = view s"
  "clock (reply_wrongtype s) = clock s"
    "closing (reply_wrongtype s) = closing s"
    "start_ms (reply_wrongtype s) = start_ms s"
    "seeds (reply_wrongtype s) = seeds s"
    "rands (reply_wrongtype s) = rands s"
    "store (reply_wrongtype s) = store s"
    "seed_pos (reply_wrongtype s) = seed_pos s"
    "rand_pos (reply_wrongtype s) = rand_pos s"
    "expire_cursor (reply_wrongtype s) = expire_cursor s"
    "view (reply_wrongtype s) = view s"
  "clock (reply_array_header k s) = clock s"
    "closing (reply_array_header k s) = closing s"
    "start_ms (reply_array_header k s) = start_ms s"
    "seeds (reply_array_header k s) = seeds s"
    "rands (reply_array_header k s) = rands s"
    "store (reply_array_header k s) = store s"
    "seed_pos (reply_array_header k s) = seed_pos s"
    "rand_pos (reply_array_header k s) = rand_pos s"
    "expire_cursor (reply_array_header k s) = expire_cursor s"
    "view (reply_array_header k s) = view s"
  by (simp_all add: reply_defs)

lemma reply_out [simp]:
  assumes "st_ok s"
  shows "CHR 0x00 \<notin> set m \<Longrightarrow> outb (reply_simple m s) = outb s @ encode (RSimple m)"
    and "outb (reply_error e s) = outb s @ encode (err e)"
    and "outb (reply_integer n s) = outb s @ encode (RInt n)"
    and "outb (reply_bulk d s) = outb s @ encode (RBulk d)"
    and "outb (reply_bulk_cstr d s) = outb s @ encode (RBulk (cstr d))"
    and "outb (reply_null s) = outb s @ encode RNull"
    and "outb (reply_wrongtype s) = outb s @ encode wrongtype"
    and "outb (reply_array_header k s) = outb s @ CHR ''*'' # show_nat k @ crlf"
  using assms by (simp_all add: reply_defs err_def wrongtype_def)

lemma reply_ok [simp]:
  assumes "st_ok s"
  shows "st_ok (reply_simple m s)" "st_ok (reply_error m s)" "st_ok (reply_integer n s)"
    "st_ok (reply_bulk d s)" "st_ok (reply_bulk_cstr d s)" "st_ok (reply_null s)"
    "st_ok (reply_wrongtype s)" "st_ok (reply_array_header k s)"
  using assms by (simp_all add: reply_defs)

declare encode.simps [simp del]

lemma reply_bulks_frame [simp]:
  "clock (reply_bulks ds s) = clock s"
  "closing (reply_bulks ds s) = closing s"
  "start_ms (reply_bulks ds s) = start_ms s"
  "seeds (reply_bulks ds s) = seeds s"
  "rands (reply_bulks ds s) = rands s"
  "store (reply_bulks ds s) = store s"
  "seed_pos (reply_bulks ds s) = seed_pos s"
  "rand_pos (reply_bulks ds s) = rand_pos s"
  "expire_cursor (reply_bulks ds s) = expire_cursor s"
  "view (reply_bulks ds s) = view s"
  by (induction ds arbitrary: s) simp_all

lemma reply_bulks_out [simp]:
  "st_ok s \<Longrightarrow> outb (reply_bulks ds s) = outb s @ concat (map encode (map RBulk ds))"
  "st_ok s \<Longrightarrow> st_ok (reply_bulks ds s)"
  by (induction ds arbitrary: s) simp_all

lemma encode_array:
  "CHR ''*'' # show_nat (length rs) @ crlf @ concat (map encode rs) = encode (RArray rs)"
  by (simp add: encode.simps)

lemma encode_bulks:
  "n = length ds \<Longrightarrow>
     CHR ''*'' # show_nat n @ crlf @ concat (map (encode \<circ> RBulk) ds) = encode (RArray (map RBulk ds))"
  by (simp add: encode.simps)

text \<open>
  \<open>gives s s' v b\<close>: from \<open>s\<close> to \<open>s'\<close> the keyspace became \<open>v\<close> and \<open>b\<close> was queued for the client;
  nothing else a later command can see has changed.
\<close>

definition gives :: "st \<Rightarrow> st \<Rightarrow> view \<Rightarrow> bytes \<Rightarrow> bool" where
  "gives s s' v b =
     (st_ok s' \<and> view s' = v \<and> outb s' = outb s @ b \<and> clock s' = clock s \<and> closing s' = closing s \<and>
      start_ms s' = start_ms s \<and> seeds s' = seeds s \<and> rands s' = rands s)"

lemma gives_refl: "st_ok s \<Longrightarrow> gives s s (view s) []"
  by (simp add: gives_def)

lemma gives_trans: "gives s s1 v b \<Longrightarrow> gives s1 s2 w c \<Longrightarrow> gives s s2 w (b @ c)"
  by (simp add: gives_def)

end
