(* ===== verification/Rounding.thy ===== *)
theory Rounding
  imports Complex_Main Double
begin

text \<open>
  The arithmetic behind the conversions between decimal text and \<open>double\<close>: a positive rational is
  given by a numerator and a denominator, and rounded to the nearest binary64 value or to 17
  significant decimal digits, halfway cases to even. The main fact, \<open>mag_of_ratio_near\<close>, is that
  seventeen digits identify a normal double.
\<close>

section \<open>Definitions\<close>

text \<open>The exponent of the leading digit of \<open>n\<close> in base \<open>b\<close>, and of the rational \<open>p / q\<close>.\<close>

function ilog :: "nat \<Rightarrow> nat \<Rightarrow> nat" where
  "ilog b n = (if b < 2 \<or> n < b then 0 else Suc (ilog b (n div b)))"
  by pat_completeness auto
termination
  by (relation "measure snd") auto

declare ilog.simps [simp del]

text \<open>The rational \<open>p / q * b ^ k\<close>.\<close>

definition scaled :: "nat \<Rightarrow> int \<Rightarrow> nat \<Rightarrow> nat \<Rightarrow> nat \<times> nat" where
  "scaled b k p q = (if 0 \<le> k then (p * b ^ nat k, q) else (p, q * b ^ nat (- k)))"

definition flog :: "nat \<Rightarrow> nat \<Rightarrow> nat \<Rightarrow> int" where
  "flog b p q =
     (let k = int (ilog b p) - int (ilog b q); (p', q') = scaled b (- k) p q
      in if q' \<le> p' then k else k - 1)"

definition round_div :: "nat \<Rightarrow> nat \<Rightarrow> nat" where
  "round_div p q =
     (let m = p div q; r = p mod q
      in if 2 * r < q \<or> 2 * r = q \<and> even m then m else m + 1)"

text \<open>
  The magnitude bits of the double nearest to \<open>p / q\<close>: the significand has 53 bits, fewer below
  \<open>2 ^ -1022\<close>. A value at or above \<open>d_inf_mag\<close> stands for an overflow.
\<close>

definition mag_of_ratio :: "nat \<Rightarrow> nat \<Rightarrow> nat" where
  "mag_of_ratio p q =
     (if p = 0 then 0
      else let e = max (flog 2 p q) (- 1022); (p', q') = scaled 2 (52 - e) p q
           in round_div p' q' + nat (e + 1022) * 2 ^ 52)"

text \<open>Tiny after rounding to 53 bits, and not a double: the case of an underflow.\<close>

definition underflows :: "nat \<Rightarrow> nat \<Rightarrow> bool" where
  "underflows p q =
     (p \<noteq> 0 \<and>
      (let e = flog 2 p q; (p', q') = scaled 2 (52 - e) p q
       in e < - 1022 \<and> \<not> (e = - 1023 \<and> round_div p' q' = 2 ^ 53)) \<and>
      (case scaled 2 1074 p q of (p', q') \<Rightarrow> \<not> q' dvd p'))"

text \<open>The value of a finite magnitude, in units of \<open>2 ^ -1074\<close>.\<close>

definition mag_val :: "nat \<Rightarrow> nat" where
  "mag_val u = (if u < 2 ^ 52 then u else (2 ^ 52 + u mod 2 ^ 52) * 2 ^ (u div 2 ^ 52 - 1))"

text \<open>The 17 significant digits of \<open>p / q\<close>, as a number, and the decimal exponent of the first.\<close>

definition digits17 :: "nat \<Rightarrow> nat \<Rightarrow> nat \<times> int" where
  "digits17 p q =
     (let x = flog 10 p q; (p', q') = scaled 10 (16 - x) p q; n = round_div p' q'
      in if n = 10 ^ 17 then (10 ^ 16, x + 1) else (n, x))"

section \<open>Exponents\<close>

lemma ilog_bounds:
  assumes "2 \<le> b" "0 < n"
  shows "b ^ ilog b n \<le> n" "n < b ^ Suc (ilog b n)"
  using assms
proof (induction b n rule: ilog.induct)
  case (1 b n)
  {
    case 1
    show ?case
    proof (cases "n < b")
      case False
      have "b ^ ilog b (n div b) \<le> n div b" using "1.IH"(1) False 1 by (simp add: div_greater_zero_iff)
      then have "b ^ ilog b (n div b) * b \<le> n div b * b" by simp
      also have "\<dots> \<le> n" by simp
      finally show ?thesis using False 1 by (simp add: ilog.simps [of b n] mult.commute)
    qed (use 1 in \<open>simp add: ilog.simps [of b n]\<close>)
  next
    case 2
    show ?case
    proof (cases "n < b")
      case False
      have "n div b < b ^ Suc (ilog b (n div b))" using "1.IH"(2) False 2 by (simp add: div_greater_zero_iff)
      then have "n < b * b ^ Suc (ilog b (n div b))"
        using 2 by (metis div_less_iff_less_mult mult.commute less_le_trans zero_less_numeral)
      then show ?thesis using False 2 by (simp add: ilog.simps [of b n])
    qed (use 2 in \<open>simp add: ilog.simps [of b n]\<close>)
  }
qed

definition ratio :: "nat \<times> nat \<Rightarrow> real" where
  "ratio pq = real (fst pq) / real (snd pq)"

lemma scaled_ratio: "0 < b \<Longrightarrow> ratio (scaled b k p q) = real p / real q * real b powi k"
  by (auto simp: ratio_def scaled_def power_int_def field_simps)

lemma scaled_pos: "0 < b \<Longrightarrow> 0 < q \<Longrightarrow> 0 < snd (scaled b k p q)"
  "0 < b \<Longrightarrow> 0 < p \<Longrightarrow> 0 < fst (scaled b k p q)"
  by (auto simp: scaled_def)

lemma powi_one_le: "0 < (c :: real) \<Longrightarrow> 1 \<le> v * c powi (- k) \<longleftrightarrow> c powi k \<le> v"
  by (simp add: power_int_minus field_simps)

lemma flog_bounds:
  assumes "2 \<le> b" "0 < p" "0 < q"
  shows "real b powi flog b p q \<le> real p / real q" "real p / real q < real b powi (flog b p q + 1)"
proof -
  let ?i = "ilog b p" and ?j = "ilog b q" and ?v = "real p / real q"
  let ?k = "int ?i - int ?j"
  have b: "real b \<noteq> 0" "0 < real b" "1 < real b" using assms(1) by auto
  have P: "real b ^ ?i \<le> real p" "real p < real b ^ Suc ?i"
    using ilog_bounds [OF assms(1,2)] by (metis of_nat_le_iff of_nat_power, metis of_nat_less_iff of_nat_power)
  have Q: "real b ^ ?j \<le> real q" "real q < real b ^ Suc ?j"
    using ilog_bounds [OF assms(1,3)] by (metis of_nat_le_iff of_nat_power, metis of_nat_less_iff of_nat_power)
  have up: "?v < real b powi (?k + 1)"
  proof -
    have "?v < real b ^ Suc ?i / real b ^ ?j"
      using P Q assms b by (intro frac_less) auto
    then show ?thesis using b by (simp add: power_int_diff power_int_add mult.commute)
  qed
  have low: "real b powi (?k - 1) < ?v"
  proof -
    have "real b ^ ?i / real b ^ Suc ?j < ?v"
      using P Q assms b by (intro frac_less2) auto
    also have "real b ^ ?i / real b ^ Suc ?j = real b powi (?k - 1)"
      using b by (simp add: power_int_diff)
    finally show ?thesis .
  qed
  obtain p' q' where s: "scaled b (- ?k) p q = (p', q')" by fastforce
  have q': "0 < q'" using scaled_pos(1) [of b q "- ?k" p] s assms by auto
  have r: "real p' / real q' = ?v * real b powi (- ?k)"
    using scaled_ratio [of b "- ?k" p q] s assms by (simp add: ratio_def)
  have "q' \<le> p' \<longleftrightarrow> 1 \<le> real p' / real q'" using q' by (simp add: field_simps)
  also have "\<dots> \<longleftrightarrow> real b powi ?k \<le> ?v"
    unfolding r by (rule powi_one_le [OF b(2)])
  finally have c: "q' \<le> p' \<longleftrightarrow> real b powi ?k \<le> ?v" .
  have f: "flog b p q = (if q' \<le> p' then ?k else ?k - 1)" unfolding flog_def Let_def s by simp
  show "real b powi flog b p q \<le> ?v" "?v < real b powi (flog b p q + 1)"
    using c up low by (auto simp: f)
qed

lemma powi_less_cancel:
  assumes "1 < (c :: real)" "c powi i < c powi j"
  shows "i < j"
  using assms by (metis linorder_not_le power_int_increasing less_imp_le not_le)

lemma flog_unique:
  assumes "2 \<le> b" "0 < p" "0 < q" "real b powi e \<le> real p / real q" "real p / real q < real b powi (e + 1)"
  shows "flog b p q = e"
proof -
  have "real b powi flog b p q < real b powi (e + 1)" "real b powi e < real b powi (flog b p q + 1)"
    using flog_bounds [OF assms(1-3)] assms(4,5) by linarith+
  moreover have "1 < real b" using assms(1) by simp
  ultimately have "flog b p q < e + 1" "e < flog b p q + 1" using powi_less_cancel by blast+
  then show ?thesis by simp
qed

section \<open>Rounding\<close>

lemma round_div_near: "0 < q \<Longrightarrow> \<bar>real (round_div p q) - real p / real q\<bar> \<le> 1 / 2"
proof -
  assume q: "0 < q"
  have "real p = real (p div q) * real q + real (p mod q)"
    by (metis div_mult_mod_eq of_nat_add of_nat_mult)
  then have "real p / real q = real (p div q) + real (p mod q) / real q"
    using q by (simp add: field_simps)
  moreover have "real (p mod q) / real q < 1" using q by (simp add: field_simps)
  moreover have "2 * (p mod q) < q \<Longrightarrow> real (p mod q) / real q \<le> 1 / 2"
    "2 * (p mod q) = q \<Longrightarrow> real (p mod q) / real q = 1 / 2"
    "q \<le> 2 * (p mod q) \<Longrightarrow> 1 / 2 \<le> real (p mod q) / real q" using q by (auto simp: field_simps)
  ultimately show ?thesis by (auto simp: round_div_def Let_def)
qed

lemma round_div_unique:
  assumes "0 < q" "\<bar>real m - real p / real q\<bar> < 1 / 2"
  shows "round_div p q = m"
proof -
  have "\<bar>real (round_div p q) - real m\<bar> < 1" using round_div_near [OF assms(1), of p] assms(2) by linarith
  then show ?thesis by linarith
qed

lemma round_div_dvd: "0 < q \<Longrightarrow> round_div (m * q) q = m"
  by (simp add: round_div_def)

text \<open>The significand and the exponent of a normal magnitude.\<close>

lemma mag_val_normal:
  assumes "2 ^ 52 \<le> u"
  obtains m e where "2 ^ 52 \<le> m" "m < 2 ^ 53" "u = m + e * 2 ^ 52" "mag_val u = m * 2 ^ e"
proof -
  have "1 \<le> u div 2 ^ 52" using div_le_mono [OF assms, of "2 ^ 52"] by simp
  moreover have "u = u div 2 ^ 52 * 2 ^ 52 + u mod 2 ^ 52" by (metis div_mult_mod_eq)
  ultimately have "u = (2 ^ 52 + u mod 2 ^ 52) + (u div 2 ^ 52 - 1) * 2 ^ 52" by (simp add: diff_mult_distrib)
  moreover have "u mod 2 ^ 52 < 2 ^ 52" by simp
  ultimately show thesis
    using assms by (intro that [of "2 ^ 52 + u mod 2 ^ 52" "u div 2 ^ 52 - 1"]) (auto simp: mag_val_def)
qed

lemma powi_split: "(2 :: real) powi (e - k) = 2 powi e / 2 powi k"
  by (simp add: power_int_diff)

text \<open>
  If \<open>p / q\<close> lies within a factor of \<open>1 \<plusminus> 10 ^ -16 / 2\<close> of a normal double, it rounds to it. Let
  \<open>m * 2 ^ (e - 1074)\<close> be that double.
\<close>

lemma near_significand:
  fixes v w :: real
  assumes m: "2 ^ 52 \<le> m" "m < 2 ^ 53" and v: "v = real m * 2 powi f" and near: "2 * 10 ^ 16 * \<bar>w - v\<bar> \<le> v"
  shows "\<bar>w * 2 powi (- f) - real m\<bar> < 1 / 2" "w < 2 powi (f + 53)"
    "w < 2 powi (f + 52) \<Longrightarrow> m = 2 ^ 52 \<and> \<bar>w * 2 powi (1 - f) - 2 ^ 53\<bar> < 1 / 2 \<and> 2 powi (f + 51) \<le> w"
proof -
  define x where "x = w * 2 powi (- f)"
  have pos: "0 < (2 :: real) powi f" by simp
  have w: "w = x * 2 powi f" by (simp add: x_def power_int_minus)
  have "2 * 10 ^ 16 * \<bar>x - real m\<bar> * 2 powi f \<le> real m * 2 powi f"
    using near pos unfolding v w left_diff_distrib [symmetric] abs_mult by (simp add: mult.assoc)
  then have n: "2 * 10 ^ 16 * \<bar>x - real m\<bar> \<le> real m" using pos by (simp add: mult_le_cancel_right)
  have "real (Suc m) \<le> real (2 ^ 53)" "real (2 ^ 52) \<le> real m"
    unfolding of_nat_le_iff using m by (simp_all add: Suc_le_eq)
  then have mr: "real m \<le> 2 ^ 53 - 1" "2 ^ 52 \<le> real m" by simp_all
  then show h: "\<bar>w * 2 powi (- f) - real m\<bar> < 1 / 2" using n unfolding x_def [symmetric] by simp
  have hx: "\<bar>x - real m\<bar> < 1 / 2" using h unfolding x_def .
  then have "x < 2 ^ 53" using mr by linarith
  then show "w < 2 powi (f + 53)" using pos unfolding w by (simp add: power_int_add)
  assume "w < 2 powi (f + 52)"
  then have "x < 2 ^ 52" using pos unfolding w by (simp add: power_int_add)
  then have "real m < 2 ^ 52 + 1 / 2" using hx by linarith
  then have m52: "m = 2 ^ 52" using m(1) by (simp add: order_antisym_conv)
  have "w * 2 powi (1 - f) = 2 * x" by (simp add: x_def power_int_diff power_int_minus field_simps)
  moreover have "\<bar>2 * x - 2 ^ 53\<bar> < 1 / 2" using n unfolding m52 by (simp add: abs_if split: if_splits)
  moreover have "2 powi (f + 51) \<le> w"
    using pos \<open>\<bar>2 * x - 2 ^ 53\<bar> < 1 / 2\<close> unfolding w by (simp add: power_int_add abs_if split: if_splits)
  ultimately show "m = 2 ^ 52 \<and> \<bar>w * 2 powi (1 - f) - 2 ^ 53\<bar> < 1 / 2 \<and> 2 powi (f + 51) \<le> w" using m52 by simp
qed

lemma scaled_round:
  assumes "0 < b" "0 < q" "\<bar>real m - real p / real q * real b powi k\<bar> < 1 / 2" "scaled b k p q = (p', q')"
  shows "round_div p' q' = m"
  using assms scaled_ratio [OF assms(1), of k p q] scaled_pos(1) [OF assms(1,2), of k p]
  by (intro round_div_unique) (simp_all add: ratio_def)

lemma mag_of_ratio_near:
  assumes u: "2 ^ 52 \<le> u" and pq: "0 < p" "0 < q"
    and near: "2 * 10 ^ 16 * \<bar>real p / real q - real (mag_val u) / 2 ^ 1074\<bar> \<le> real (mag_val u) / 2 ^ 1074"
  shows "mag_of_ratio p q = u" "\<not> underflows p q"
proof -
  obtain m e where m: "2 ^ 52 \<le> m" "m < 2 ^ 53" and u': "u = m + e * 2 ^ 52" and val: "mag_val u = m * 2 ^ e"
    using mag_val_normal [OF u] .
  define f where "f = int e - 1074"
  define w where "w = real p / real q"
  have v: "real (mag_val u) / 2 ^ 1074 = real m * 2 powi f"
    by (simp add: val f_def power_int_diff)
  note sig = near_significand [OF m refl near [folded w_def, unfolded v]]
  have r0: "round_div p' q' = m" if "scaled 2 (- f) p q = (p', q')" for p' q'
    using scaled_round [OF _ pq(2) _ that] sig(1) by (simp add: w_def abs_minus_commute)
  have "mag_of_ratio p q = u \<and> \<not> underflows p q"
  proof (cases "2 powi (f + 52) \<le> w")
    case True
    then have fl: "flog 2 p q = f + 52"
      using sig(2) pq by (intro flog_unique) (simp_all add: w_def add.assoc)
    obtain p' q' where s: "scaled 2 (- f) p q = (p', q')" by fastforce
    show ?thesis
      using pq r0 [OF s] s fl by (simp add: mag_of_ratio_def underflows_def u' Let_def f_def)
  next
    case False
    then have m52: "m = 2 ^ 52" and r: "\<bar>w * 2 powi (1 - f) - 2 ^ 53\<bar> < 1 / 2" and lo: "2 powi (f + 51) \<le> w"
      using sig(3) by auto
    have fl: "flog 2 p q = f + 51"
      using lo False pq by (intro flog_unique) (simp_all add: w_def add.assoc)
    obtain p1 q1 where s1: "scaled 2 (1 - f) p q = (p1, q1)" by fastforce
    have r1: "round_div p1 q1 = 2 ^ 53"
      using scaled_round [OF _ pq(2) _ s1, of "2 ^ 53"] r by (simp add: w_def abs_minus_commute)
    show ?thesis
    proof (cases "e = 0")
      case True
      obtain p' q' where s: "scaled 2 (- f) p q = (p', q')" by fastforce
      show ?thesis
        using pq r0 [OF s] r1 s s1 True fl by (simp add: mag_of_ratio_def underflows_def u' Let_def f_def)
    next
      case False
      then show ?thesis
        using pq r1 s1 fl by (cases e) (simp_all add: mag_of_ratio_def underflows_def u' Let_def f_def m52)
    qed
  qed
  then show "mag_of_ratio p q = u" "\<not> underflows p q" by blast+
qed

section \<open>Seventeen digits\<close>

lemma real_nat_bounds: "real a - 1 < real k \<Longrightarrow> a \<le> k" "real k < real a + 1 \<Longrightarrow> k \<le> a"
  by linarith+

lemma digits17_near:
  assumes "0 < p" "0 < q" "digits17 p q = (n, x)"
  shows "10 ^ 16 \<le> n" "n < 10 ^ 17"
    "2 * 10 ^ 16 * \<bar>real n * 10 powi (x - 16) - real p / real q\<bar> \<le> real p / real q"
proof -
  define v where "v = real p / real q"
  define y where "y = flog 10 p q"
  define z where "z = v * 10 powi (16 - y)"
  have b: "10 powi y \<le> v" "v < 10 powi (y + 1)"
    using flog_bounds [of 10 p q] assms(1,2) by (simp_all add: v_def y_def)
  have pos: "0 < (10 :: real) powi y" by simp
  have v: "v = z * 10 powi (y - 16)" by (simp add: z_def power_int_diff field_simps)
  have z: "10 ^ 16 \<le> z" "z < 10 ^ 17"
    using b pos unfolding z_def by (simp_all add: power_int_diff power_int_add field_simps)
  obtain p' q' where s: "scaled 10 (16 - y) p q = (p', q')" by fastforce
  define k where "k = round_div p' q'"
  have k: "\<bar>real k - z\<bar> \<le> 1 / 2"
    using round_div_near [of q' p'] scaled_pos(1) [of 10 q "16 - y" p] scaled_ratio [of 10 "16 - y" p q] assms(2) s
    by (simp add: k_def z_def v_def ratio_def)
  have "real (10 ^ 16) - 1 < real k" "real k < real (10 ^ 17) + 1" 
    unfolding of_nat_power of_nat_numeral using k z by linarith+
  then have kb: "10 ^ 16 \<le> k" "k \<le> 10 ^ 17" using real_nat_bounds by blast+
  have "\<bar>real k * 10 powi (y - 16) - v\<bar> = \<bar>real k - z\<bar> * 10 powi (y - 16)"
    unfolding v left_diff_distrib [symmetric] abs_mult by simp
  also have "\<dots> \<le> 1 / 2 * 10 powi (y - 16)" using k by (intro mult_right_mono) simp_all
  finally have near: "2 * 10 ^ 16 * \<bar>real k * 10 powi (y - 16) - v\<bar> \<le> v"
    using b(1) by (simp add: power_int_diff)
  have n: "(n, x) = (if k = 10 ^ 17 then (10 ^ 16, y + 1) else (k, y))"
    using assms(3) s unfolding digits17_def Let_def y_def [symmetric] by (auto simp: k_def split: if_splits)
  then have "real n * 10 powi (x - 16) = real k * 10 powi (y - 16)"
    by (auto simp: power_int_diff power_int_add split: if_splits)
  then show "2 * 10 ^ 16 * \<bar>real n * 10 powi (x - 16) - real p / real q\<bar> \<le> real p / real q"
    using near by (simp add: v_def)
  show "10 ^ 16 \<le> n" "n < 10 ^ 17" using n kb by (auto split: if_splits)
qed

text \<open>Seventeen digits are enough to find a normal double again.\<close>

lemma digits17_mag:
  assumes "2 ^ 52 \<le> u" "digits17 (mag_val u) (2 ^ 1074) = (n, x)"
    and "0 < p" "0 < q" "real p / real q = real n * 10 powi (x - 16)"
  shows "mag_of_ratio p q = u" "\<not> underflows p q"
proof -
  have "0 < mag_val u" using assms(1) by (auto simp: mag_val_def)
  from digits17_near(3) [OF this _ assms(2)]
  have near: "2 * 10 ^ 16 * \<bar>real p / real q - real (mag_val u) / 2 ^ 1074\<bar> \<le> real (mag_val u) / 2 ^ 1074"
    unfolding assms(5) by (simp only: of_nat_power of_nat_numeral zero_less_power zero_less_numeral)
  show "mag_of_ratio p q = u" "\<not> underflows p q"
    using mag_of_ratio_near [OF assms(1,3,4) near] by blast+
qed

end
