(* ===== verification/Double_Io.thy ===== *)
theory Double_Io
  imports Rounding
begin

unbundle bit_operations_syntax

text \<open>
  Text and arithmetic of \<open>double\<close>s, as far as \<open>src/db.c\<close> uses them: \<open>strtod\<close> in the C locale
  (correctly rounded, with \<open>ERANGE\<close> on overflow and on an inexact underflow as the GNU C library
  reports it), the conversion \<open>%.17g\<close>, the sum of two doubles, and the helpers \<open>parse_double\<close>
  and \<open>parse_score_arg\<close> of \<open>src/db.c\<close> themselves.
\<close>

section \<open>Bits\<close>

definition d_make :: "bool \<Rightarrow> nat \<Rightarrow> double" where
  "d_make neg mag = of_nat (mag + (if neg then 2 ^ 63 else 0))"

text \<open>The smallest positive double is the reciprocal of this number.\<close>

definition d_unit :: nat where "d_unit = 2 ^ 1074"

lemma d_unit_pos [simp]: "0 < d_unit"
  by (simp only: d_unit_def zero_less_power zero_less_numeral)

section \<open>strtod\<close>

definition is_space :: "char \<Rightarrow> bool" where
  "is_space c = (c = CHR '' '' \<or> 9 \<le> uchar c \<and> uchar c \<le> 13)"

definition is_xdigit :: "char \<Rightarrow> bool" where
  "is_xdigit c = (is_digit c \<or> 97 \<le> uchar (to_lower c) \<and> uchar (to_lower c) \<le> 102)"

definition xdigit_val :: "char \<Rightarrow> nat" where
  "xdigit_val c = (if is_digit c then nat (uchar c - 48) else nat (uchar (to_lower c) - 87))"

definition hex_val :: "bytes \<Rightarrow> nat" where
  "hex_val ds = foldl (\<lambda>v c. 16 * v + xdigit_val c) 0 ds"

definition scan_sign :: "bytes \<Rightarrow> bool \<times> bytes" where
  "scan_sign s =
     (case s of
        [] \<Rightarrow> (False, s)
      | c # r \<Rightarrow> if c = CHR ''-'' then (True, r) else if c = CHR ''+'' then (False, r) else (False, s))"

text \<open>Digits with an optional point: the digits, how many follow the point, and the rest.\<close>

definition scan_mantissa :: "(char \<Rightarrow> bool) \<Rightarrow> bytes \<Rightarrow> (bytes \<times> nat \<times> bytes) option" where
  "scan_mantissa p s =
     (let i = takeWhile p s; r = dropWhile p s;
          (f, r') = (case r of
                       [] \<Rightarrow> ([], r)
                     | c # r1 \<Rightarrow> if c = CHR ''.'' then (takeWhile p r1, dropWhile p r1) else ([], r))
      in if i = [] \<and> f = [] then None else Some (i @ f, length f, r'))"

text \<open>An exponent introduced by \<open>e\<close>; without digits nothing is taken.\<close>

definition scan_exp :: "char \<Rightarrow> bytes \<Rightarrow> int \<times> bytes" where
  "scan_exp e s =
     (case s of
        [] \<Rightarrow> (0, s)
      | c # r \<Rightarrow>
          if to_lower c \<noteq> e then (0, s)
          else case scan_sign r of (neg, r1) \<Rightarrow>
            let ds = takeWhile is_digit r1
            in if ds = [] then (0, s)
               else (if neg then - int (dec_val ds) else int (dec_val ds), dropWhile is_digit r1))"

text \<open>The magnitude of a rational and whether \<open>errno\<close> becomes \<open>ERANGE\<close>.\<close>

definition round_mag :: "nat \<Rightarrow> nat \<Rightarrow> nat \<times> bool" where
  "round_mag p q =
     (if d_inf_mag \<le> mag_of_ratio p q then (d_inf_mag, True) else (mag_of_ratio p q, underflows p q))"

definition scan_decimal :: "bytes \<Rightarrow> (nat \<times> bool \<times> bytes) option" where
  "scan_decimal s =
     (case scan_mantissa is_digit s of
        None \<Rightarrow> None
      | Some (ds, k, r) \<Rightarrow>
          (case scan_exp (CHR ''e'') r of (x, r') \<Rightarrow>
             case scaled 10 (x - int k) (dec_val ds) 1 of (p, q) \<Rightarrow>
             case round_mag p q of (m, er) \<Rightarrow> Some (m, er, r')))"

definition scan_hex :: "bytes \<Rightarrow> (nat \<times> bool \<times> bytes) option" where
  "scan_hex s =
     (case scan_mantissa is_xdigit s of
        None \<Rightarrow> None
      | Some (ds, k, r) \<Rightarrow>
          (case scan_exp (CHR ''p'') r of (x, r') \<Rightarrow>
             case scaled 2 (x - 4 * int k) (hex_val ds) 1 of (p, q) \<Rightarrow>
             case round_mag p q of (m, er) \<Rightarrow> Some (m, er, r')))"

definition has_prefix :: "bytes \<Rightarrow> bytes \<Rightarrow> bool" where
  "has_prefix w s = (map to_lower (take (length w) s) = w)"

text \<open>The optional \<open>(n-char-sequence)\<close> after \<open>nan\<close>.\<close>

definition skip_nan_chars :: "bytes \<Rightarrow> bytes" where
  "skip_nan_chars s =
     (let alnum = (\<lambda>c. is_digit c \<or> c = CHR ''_'' \<or> 97 \<le> uchar (to_lower c) \<and> uchar (to_lower c) \<le> 122)
      in case s of
           [] \<Rightarrow> s
         | c # r \<Rightarrow>
             if c \<noteq> CHR ''('' then s
             else case dropWhile alnum r of
                    [] \<Rightarrow> s
                  | c' # r' \<Rightarrow> if c' = CHR '')'' then r' else s)"

definition d_nan_mag :: nat where "d_nan_mag = 0x7FF8000000000000"

definition scan_number :: "bytes \<Rightarrow> (nat \<times> bool \<times> bytes) option" where
  "scan_number s =
     (if has_prefix ''infinity'' s then Some (d_inf_mag, False, drop 8 s)
      else if has_prefix ''inf'' s then Some (d_inf_mag, False, drop 3 s)
      else if has_prefix ''nan'' s then Some (d_nan_mag, False, skip_nan_chars (drop 3 s))
      else if has_prefix ''0x'' s \<and> scan_hex (drop 2 s) \<noteq> None then scan_hex (drop 2 s)
      else scan_decimal s)"

text \<open>The value, what \<open>*endptr\<close> points at, and whether \<open>errno\<close> is \<open>ERANGE\<close>.\<close>

definition strtod :: "bytes \<Rightarrow> double \<times> bytes \<times> bool" where
  "strtod s =
     (case scan_sign (dropWhile is_space s) of (neg, r) \<Rightarrow>
        case scan_number r of
          None \<Rightarrow> (0, s, False)
        | Some (m, er, rest) \<Rightarrow> (d_make neg m, rest, er))"

section \<open>printf\<close>

definition strip0 :: "bytes \<Rightarrow> bytes" where
  "strip0 ds = rev (dropWhile (\<lambda>c. c = CHR ''0'') (rev ds))"

definition dotted :: "bytes \<Rightarrow> bytes \<Rightarrow> bytes" where
  "dotted i f = i @ (if f = [] then [] else CHR ''.'' # f)"

definition fixed_style :: "bytes \<Rightarrow> int \<Rightarrow> bytes" where
  "fixed_style ds x =
     (if 0 \<le> x then dotted (take (nat x + 1) ds) (strip0 (drop (nat x + 1) ds))
      else dotted ''0'' (replicate (nat (- x) - 1) (CHR ''0'') @ strip0 ds))"

definition exp_style :: "bytes \<Rightarrow> int \<Rightarrow> bytes" where
  "exp_style ds x =
     dotted (take 1 ds) (strip0 (drop 1 ds)) @ CHR ''e'' # (if x < 0 then CHR ''-'' else CHR ''+'') #
       (if nat \<bar>x\<bar> < 10 then CHR ''0'' # show_nat (nat \<bar>x\<bar>) else show_nat (nat \<bar>x\<bar>))"

definition fmt17 :: "double \<Rightarrow> bytes" where
  "fmt17 d =
     (if d_sign d then ''-'' else '''') @
     (if d_isnan d then ''nan''
      else if d_mag d = d_inf_mag then ''inf''
      else if d_mag d = 0 then ''0''
      else case digits17 (mag_val (d_mag d)) d_unit of (n, x) \<Rightarrow>
        if - 4 \<le> x \<and> x < 17 then fixed_style (show_nat n) x else exp_style (show_nat n) x)"

section \<open>Addition\<close>

text \<open>The value of a finite double, in units of \<open>2 ^ -1074\<close>.\<close>

definition d_val :: "double \<Rightarrow> int" where
  "d_val d = (if d_sign d then - int (mag_val (d_mag d)) else int (mag_val (d_mag d)))"

definition d_add :: "double \<Rightarrow> double \<Rightarrow> double" where
  "d_add a b =
     (if d_isnan a \<or> d_isnan b then d_make False d_nan_mag
      else if d_mag a = d_inf_mag then
        if d_mag b = d_inf_mag \<and> d_sign a \<noteq> d_sign b then d_make False d_nan_mag else a
      else if d_mag b = d_inf_mag then b
      else let v = d_val a + d_val b
           in if v = 0 then d_make (d_sign a \<and> d_sign b) 0
              else d_make (v < 0) (fst (round_mag (nat \<bar>v\<bar>) d_unit)))"

definition d_finite :: "double \<Rightarrow> bool" where
  "d_finite d = (d_mag d < d_inf_mag)"

section \<open>The helpers of src/db.c\<close>

definition parse_double :: "bytes \<Rightarrow> double option" where
  "parse_double s =
     (if s = [] then None
      else case strtod s of (d, rest, erange) \<Rightarrow>
        if erange then None
        else if rest = s \<or> rest \<noteq> [] then None
        else if \<not> d_eq d d then None
        else Some d)"

definition parse_score_arg :: "bytes \<Rightarrow> (double \<times> bool) option" where
  "parse_score_arg arg =
     (let exclusive = (take 1 arg = ''('')
      in map_option (\<lambda>d. (d, exclusive)) (parse_double (if exclusive then drop 1 arg else arg)))"

section \<open>Signs and magnitudes\<close>

lemma d_mag_mod: "d_mag d = unat d mod 2 ^ 63"
proof -
  have "d AND 0x7FFFFFFFFFFFFFFF = take_bit 63 d" by (simp add: take_bit_eq_mask mask_eq_exp_minus_1)
  then have "d_mag d = take_bit 63 (unat d)" unfolding d_mag_def by (simp only: unsigned_take_bit_eq)
  then show ?thesis by (simp only: take_bit_eq_mod)
qed

lemma d_sign_div: "d_sign d \<longleftrightarrow> 2 ^ 63 \<le> unat d"
proof -
  have "unat d < 2 ^ 64" using unsigned_less [of d, where ?'a = nat] by simp
  then have lt: "unat d div 2 ^ 63 < 2" by (simp add: less_mult_imp_div_less)
  have "d_sign d \<longleftrightarrow> bit (unat d) 63" by (simp add: d_sign_def bit_unsigned_iff)
  also have "\<dots> \<longleftrightarrow> odd (unat d div 2 ^ 63)" by (rule bit_iff_odd)
  also have "\<dots> \<longleftrightarrow> unat d div 2 ^ 63 \<noteq> 0" using lt by (auto simp: less_2_cases_iff)
  also have "\<dots> \<longleftrightarrow> 2 ^ 63 \<le> unat d" by (simp add: div_eq_0_iff not_less)
  finally show ?thesis .
qed

lemma d_make_unat: "m < 2 ^ 63 \<Longrightarrow> unat (d_make neg m) = m + (if neg then 2 ^ 63 else 0)"
  unfolding d_make_def unat_of_nat by (rule mod_less) simp

lemma d_make_mag: "m < 2 ^ 63 \<Longrightarrow> d_mag (d_make neg m) = m"
  by (simp add: d_mag_mod d_make_unat)

lemma d_make_sign: "m < 2 ^ 63 \<Longrightarrow> d_sign (d_make neg m) = neg"
  by (simp add: d_sign_div d_make_unat)

lemma d_make_inverse: "d_make (d_sign d) (d_mag d) = d"
proof -
  have "unat d < 2 ^ 64" using unsigned_less [of d, where ?'a = nat] by simp
  then have "unat d mod 2 ^ 63 + (if 2 ^ 63 \<le> unat d then 2 ^ 63 else 0) = unat d"
    by (auto simp: mod_if le_mod_geq)
  then have "unat (d_make (d_sign d) (d_mag d)) = unat d" by (simp add: d_make_unat d_mag_mod d_sign_div)
  then show ?thesis by (simp only: word_unat_eq_iff)
qed

section \<open>Digit strings\<close>

lemma dec_val_append: "dec_val (xs @ ys) = dec_val xs * 10 ^ length ys + dec_val ys"
proof (induction ys rule: rev_induct)
  case (snoc y ys)
  then show ?case by (simp add: append_assoc [symmetric] del: append_assoc)
qed (simp add: dec_val_def)

lemma dec_val_zeros [simp]: "dec_val (replicate k (CHR ''0'')) = 0"
proof (induction k)
  case (Suc k)
  have "replicate (Suc k) (CHR ''0'') = replicate k (CHR ''0'') @ [CHR ''0'']" by (simp add: replicate_append_same)
  then show ?case using Suc by (simp only: dec_val_snoc) (simp add: uchar_def)
qed (simp add: dec_val_def)

lemma takeWhile_same: "takeWhile (\<lambda>c. c = x) xs = replicate (length (takeWhile (\<lambda>c. c = x) xs)) x"
  by (induction xs) auto

lemma strip0_zeros:
  obtains k where "ds = strip0 ds @ replicate k (CHR ''0'')"
proof -
  have "rev ds = takeWhile (\<lambda>c. c = CHR ''0'') (rev ds) @ dropWhile (\<lambda>c. c = CHR ''0'') (rev ds)" by simp
  then have "ds = strip0 ds @ rev (takeWhile (\<lambda>c. c = CHR ''0'') (rev ds))"
    unfolding strip0_def by (metis rev_append rev_rev_ident)
  moreover obtain k where "takeWhile (\<lambda>c. c = CHR ''0'') (rev ds) = replicate k (CHR ''0'')"
    using takeWhile_same by metis
  ultimately show thesis using that [of k] by (simp only: rev_replicate)
qed

lemma length_show_nat: "0 < n \<Longrightarrow> length (show_nat n) = Suc (ilog 10 n)"
proof (induction n rule: show_nat.induct)
  case (1 n)
  then show ?case by (cases "n < 10") (simp_all add: show_nat.simps [of n] ilog.simps [of 10 n] div_greater_zero_iff)
qed

lemma length_show_nat_17: "10 ^ 16 \<le> n \<Longrightarrow> n < 10 ^ 17 \<Longrightarrow> length (show_nat n) = 17"
proof -
  assume n: "10 ^ 16 \<le> n" "n < 10 ^ 17"
  then have b: "10 ^ ilog 10 n \<le> n" "n < 10 ^ Suc (ilog 10 n)" using ilog_bounds [of 10 n] by simp_all
  have "(10 :: nat) ^ ilog 10 n < 10 ^ 17" "(10 :: nat) ^ 16 < 10 ^ Suc (ilog 10 n)" using b n by linarith+
  then have "ilog 10 n < 17" "16 < Suc (ilog 10 n)"
    by (metis power_strict_increasing_iff numeral_less_iff one_less_numeral_iff semiring_norm(76))+
  then show ?thesis using n by (simp add: length_show_nat)
qed

section \<open>Reading what printf writes\<close>

definition numeric_char :: "char \<Rightarrow> bool" where
  "numeric_char c = (is_digit c \<or> c \<in> set ''.e+-'')"

lemma to_lower_digit: "is_digit c \<Longrightarrow> to_lower c = c"
  by (simp add: to_lower_def is_digit_def)

lemma to_lower_numeric: "numeric_char c \<Longrightarrow> to_lower c = c"
  by (auto simp: numeric_char_def to_lower_digit) (simp_all add: to_lower_def uchar_def)

lemma has_prefix_mem: "has_prefix w s \<Longrightarrow> set w \<subseteq> to_lower ` set s"
  by (metis has_prefix_def image_mono list.set_map set_take_subset)

lemma has_prefix_numeric:
  assumes "\<forall>c\<in>set s. numeric_char c"
  shows "\<not> has_prefix ''infinity'' s" "\<not> has_prefix ''inf'' s" "\<not> has_prefix ''nan'' s" "\<not> has_prefix ''0x'' s"
proof -
  have "to_lower ` set s \<subseteq> {c. numeric_char c}" using assms by (auto simp: to_lower_numeric)
  moreover have "\<not> numeric_char (CHR ''i'')" "\<not> numeric_char (CHR ''n'')" "\<not> numeric_char (CHR ''x'')"
    by (simp_all add: numeric_char_def is_digit_def uchar_def)
  ultimately show "\<not> has_prefix ''infinity'' s" "\<not> has_prefix ''inf'' s" "\<not> has_prefix ''nan'' s" "\<not> has_prefix ''0x'' s"
    using has_prefix_mem [of _ s] by fastforce+
qed

lemma dot_not_digit [simp]: "\<not> is_digit (CHR ''.'')" "\<not> is_digit (CHR ''e'')"
  by (simp_all add: is_digit_def uchar_def)

lemma takeWhile_digits: "\<forall>c\<in>set ds. is_digit c \<Longrightarrow> takeWhile is_digit ds = ds"
  by (simp add: takeWhile_eq_all_conv)

lemma scan_mantissa_dotted:
  assumes "i \<noteq> []" "\<forall>c\<in>set (i @ f). is_digit c" "t = [] \<or> hd t = CHR ''e''"
  shows "scan_mantissa is_digit (dotted i f @ t) = Some (i @ f, length f, t)"
proof -
  have t: "takeWhile is_digit t = []" "dropWhile is_digit t = t"
    using assms(3) by (cases t; simp)+
  have f: "takeWhile is_digit f = f" "dropWhile is_digit f = []" "dropWhile is_digit i = []"
    using assms(2) by (simp_all add: takeWhile_eq_all_conv dropWhile_eq_Nil_conv)
  show ?thesis
    using assms by (cases t) (auto simp: f t scan_mantissa_def dotted_def takeWhile_append dropWhile_append Let_def)
qed

text \<open>An exponent part, as \<open>exp_style\<close> writes it, or none.\<close>

definition exp_text :: "bytes \<Rightarrow> int \<Rightarrow> bool" where
  "exp_text t x =
     (t = [] \<and> x = 0 \<or>
      (\<exists>ds. ds \<noteq> [] \<and> (\<forall>c\<in>set ds. is_digit c) \<and> int (dec_val ds) = \<bar>x\<bar> \<and>
        t = CHR ''e'' # (if x < 0 then CHR ''-'' else CHR ''+'') # ds))"

lemma scan_exp_text: "exp_text t x \<Longrightarrow> scan_exp (CHR ''e'') t = (x, [])"
  by (auto simp: exp_text_def scan_exp_def scan_sign_def to_lower_def uchar_def Let_def takeWhile_digits)

lemma scan_number_text:
  assumes "i \<noteq> []" "\<forall>c\<in>set (i @ f). is_digit c" "exp_text t x"
  shows "scan_number (dotted i f @ t) =
    (case scaled 10 (x - int (length f)) (dec_val (i @ f)) 1 of (p, q) \<Rightarrow>
     case round_mag p q of (m, er) \<Rightarrow> Some (m, er, []))"
proof -
  have t: "t = [] \<or> hd t = CHR ''e''" "\<forall>c\<in>set t. numeric_char c"
    using assms(3) by (auto simp: exp_text_def numeric_char_def)
  have "\<forall>c\<in>set (dotted i f @ t). numeric_char c"
    using assms(2) t(2) by (auto simp: dotted_def numeric_char_def)
  then have "scan_number (dotted i f @ t) = scan_decimal (dotted i f @ t)"
    using has_prefix_numeric by (simp add: scan_number_def)
  then show ?thesis
    by (simp add: scan_decimal_def scan_mantissa_dotted [OF assms(1,2) t(1)] scan_exp_text [OF assms(3)])
qed

definition body17 :: "nat \<Rightarrow> int \<Rightarrow> bytes" where
  "body17 n x = (if - 4 \<le> x \<and> x < 17 then fixed_style (show_nat n) x else exp_style (show_nat n) x)"

lemma strip0_sub: "c \<in> set (strip0 ds) \<Longrightarrow> c \<in> set ds"
  by (auto simp: strip0_def dest: set_dropWhileD)

lemma exp_style_text:
  "exp_text (CHR ''e'' # (if x < 0 then CHR ''-'' else CHR ''+'') #
     (if nat \<bar>x\<bar> < 10 then CHR ''0'' # show_nat (nat \<bar>x\<bar>) else show_nat (nat \<bar>x\<bar>))) x"
proof -
  have "dec_val (CHR ''0'' # show_nat m) = m" for m
    using dec_val_append [of "''0''" "show_nat m"] dec_val_zeros [of 1] by simp
  moreover have "is_digit (CHR ''0'')" by (simp add: is_digit_def uchar_def)
  ultimately show ?thesis unfolding exp_text_def by (intro disjI2 exI conjI refl) auto
qed

text \<open>A text for the number \<open>n * 10 ^ (x - 16)\<close>.\<close>

definition decimal_text :: "bytes \<Rightarrow> nat \<Rightarrow> int \<Rightarrow> bool" where
  "decimal_text b n x =
     (\<exists>i f t y k. b = dotted i f @ t \<and> i \<noteq> [] \<and> (\<forall>c\<in>set (i @ f). is_digit c) \<and> exp_text t y \<and>
        dec_val (i @ f) * 10 ^ k = n \<and> y - int (length f) = x - 16 + int k)"

lemma decimal_text_cut:
  assumes "length ds = 17" "\<forall>c\<in>set ds. is_digit c" "j \<le> 16" "exp_text t y" "y + int j = x"
  shows "decimal_text (dotted (take (Suc j) ds) (strip0 (drop (Suc j) ds)) @ t) (dec_val ds) x"
proof -
  let ?i = "take (Suc j) ds" and ?f = "strip0 (drop (Suc j) ds)"
  obtain k where k: "drop (Suc j) ds = ?f @ replicate k (CHR ''0'')" by (rule strip0_zeros)
  then have "ds = (?i @ ?f) @ replicate k (CHR ''0'')" by (metis append.assoc append_take_drop_id)
  then have "dec_val (?i @ ?f) * 10 ^ k = dec_val ds"
    using dec_val_append [of "?i @ ?f" "replicate k (CHR ''0'')"] by simp
  moreover have "16 - j = length ?f + k" using arg_cong [OF k, of length] assms(1) by simp
  moreover have "\<forall>c\<in>set (?i @ ?f). is_digit c"
    using assms(2) by (auto dest: strip0_sub in_set_takeD in_set_dropD)
  moreover have "?i \<noteq> []" using assms(1) by auto
  ultimately show ?thesis
    unfolding decimal_text_def using assms(3,4,5)
    by (intro exI [of _ ?i] exI [of _ ?f] exI [of _ t] exI [of _ y] exI [of _ k]) auto
qed

lemma decimal_text_small:
  assumes "length ds = 17" "\<forall>c\<in>set ds. is_digit c" "x < 0"
  shows "decimal_text (dotted ''0'' (replicate (nat (- x) - 1) (CHR ''0'') @ strip0 ds)) (dec_val ds) x"
proof -
  let ?f = "replicate (nat (- x) - 1) (CHR ''0'') @ strip0 ds"
  obtain k where k: "ds = strip0 ds @ replicate k (CHR ''0'')" by (rule strip0_zeros)
  have "dec_val (''0'' @ ?f) = dec_val (strip0 ds)"
    using dec_val_append [of "replicate (Suc (nat (- x) - 1)) (CHR ''0'')" "strip0 ds"]
      dec_val_zeros [of "Suc (nat (- x) - 1)"] by simp
  moreover have "dec_val ds = dec_val (strip0 ds) * 10 ^ k"
    using dec_val_append [of "strip0 ds" "replicate k (CHR ''0'')"] k by simp
  moreover have "0 - int (length ?f) = x - 16 + int k"
    using arg_cong [OF k, of length] assms(1,3) by simp
  moreover have "\<forall>c\<in>set (''0'' @ ?f). is_digit c"
    using assms(2) by (auto dest: strip0_sub simp: is_digit_def uchar_def)
  moreover have "exp_text [] 0" "dotted ''0'' ?f = dotted ''0'' ?f @ []" by (simp_all add: exp_text_def)
  ultimately show ?thesis unfolding decimal_text_def by (metis list.distinct(1))
qed

lemma body17_text:
  assumes n: "10 ^ 16 \<le> n" "n < 10 ^ 17"
  shows "decimal_text (body17 n x) n x"
proof -
  let ?ds = "show_nat n"
  note ds = length_show_nat_17 [OF n]
  have dig: "\<forall>c\<in>set ?ds. is_digit c" by simp
  consider "0 \<le> x" "x < 17" | "- 4 \<le> x" "x < 0" | "x < - 4 \<or> 17 \<le> x" by linarith
  then show ?thesis
  proof cases
    case 1
    then show ?thesis
      using decimal_text_cut [OF ds dig, of "nat x" "[]" 0 x] by (simp add: body17_def fixed_style_def exp_text_def)
  next
    case 2
    then show ?thesis
      using decimal_text_small [OF ds dig, of x] by (simp add: body17_def fixed_style_def)
  next
    case 3
    then have "body17 n x = exp_style ?ds x" by (auto simp: body17_def)
    then show ?thesis
      using decimal_text_cut [OF ds dig _ exp_style_text [of x], of 0 x] by (simp add: exp_style_def)
  qed
qed

lemma scan_number_decimal_text:
  assumes "decimal_text b n x" "0 < n"
  obtains p q where "0 < p" "0 < q" "real p / real q = real n * 10 powi (x - 16)"
    "scan_number b = (case round_mag p q of (m, er) \<Rightarrow> Some (m, er, []))"
    "b \<noteq> []" "is_digit (hd b)"
proof -
  obtain i f t y k where b: "b = dotted i f @ t" "i \<noteq> []" "\<forall>c\<in>set (i @ f). is_digit c" "exp_text t y"
    "dec_val (i @ f) * 10 ^ k = n" "y - int (length f) = x - 16 + int k"
    using assms(1) unfolding decimal_text_def by blast
  obtain p q where s: "scaled 10 (y - int (length f)) (dec_val (i @ f)) 1 = (p, q)" by fastforce
  have pos: "0 < dec_val (i @ f)" using b(5) assms(2) by (cases "dec_val (i @ f)") auto
  then have pq: "0 < p" "0 < q" using s by (auto simp: scaled_def split: if_splits)
  have "ratio (scaled 10 (y - int (length f)) (dec_val (i @ f)) 1) =
      real (dec_val (i @ f)) * 10 powi (y - int (length f))" by (simp add: scaled_ratio)
  then have "real p / real q = real (dec_val (i @ f)) * 10 powi (x - 16 + int k)"
    unfolding s by (simp add: ratio_def b(6))
  also have "\<dots> = real n * 10 powi (x - 16)"
    unfolding b(5) [symmetric] by (simp add: power_int_add)
  finally show thesis
    using b scan_number_text [OF b(2-4)] s pq by (intro that [of p q]) (auto simp: dotted_def hd_append)
qed

section \<open>Round trip\<close>

lemma digit_not_space_sign: "is_digit c \<Longrightarrow> \<not> is_space c \<and> c \<noteq> CHR ''-'' \<and> c \<noteq> CHR ''+''"
  by (auto simp: is_digit_def is_space_def uchar_def)

lemma strtod_sign:
  assumes "b \<noteq> []" "is_digit (hd b)" "scan_number b = Some (m, er, rest)"
  shows "strtod ((if neg then ''-'' else []) @ b) = (d_make neg m, rest, er)"
proof (cases b)
  case (Cons c r)
  then have c: "\<not> is_space c" "c \<noteq> CHR ''-''" "c \<noteq> CHR ''+''" using assms digit_not_space_sign by auto
  have "\<not> is_space (CHR ''-'')" by (simp add: is_space_def uchar_def)
  then show ?thesis using Cons c assms by (cases neg) (simp_all add: strtod_def scan_sign_def)
qed (use assms in simp)

lemma to_lower_inf: "to_lower (CHR ''i'') = CHR ''i''" "to_lower (CHR ''n'') = CHR ''n''" "to_lower (CHR ''f'') = CHR ''f''"
  by (simp_all add: to_lower_def uchar_def)

lemma not_space: "\<not> is_space (CHR ''-'')" "\<not> is_space (CHR ''i'')"
  by (simp_all add: is_space_def uchar_def)

lemma scan_number_inf: "scan_number ''inf'' = Some (d_inf_mag, False, [])"
  by (simp add: scan_number_def has_prefix_def to_lower_inf)

lemma strtod_inf: "strtod ((if neg then ''-'' else []) @ ''inf'') = (d_make neg d_inf_mag, [], False)"
  by (cases neg) (simp_all add: strtod_def scan_sign_def scan_number_inf not_space)

lemma scan_number_zero: "scan_number ''0'' = Some (0, False, [])"
proof -
  have "\<forall>c\<in>set (''0'' @ []). is_digit c" by (simp add: is_digit_def uchar_def)
  moreover have "scaled 10 0 (dec_val ''0'') 1 = (0, 1)"
    using dec_val_zeros [of 1] by (simp add: scaled_def)
  ultimately show ?thesis
    using scan_number_text [of "''0''" "[]" "[]" 0]
    by (simp add: exp_text_def dotted_def round_mag_def mag_of_ratio_def d_inf_mag_def underflows_def)
qed

lemma strtod_finite:
  assumes "d_mag d < d_inf_mag" "d_mag d = 0 \<or> 2 ^ 52 \<le> d_mag d"
  shows "strtod (fmt17 d) = (d, [], False)"
proof (cases "d_mag d = 0")
  case True
  have "strtod ((if d_sign d then ''-'' else []) @ ''0'') = (d_make (d_sign d) 0, [], False)"
    by (rule strtod_sign [OF _ _ scan_number_zero]) (simp_all add: is_digit_def uchar_def)
  then show ?thesis using True d_make_inverse [of d] by (simp add: fmt17_def d_isnan_def d_inf_mag_def)
next
  case False
  then have u: "2 ^ 52 \<le> d_mag d" using assms(2) by simp
  obtain n x where dg: "digits17 (mag_val (d_mag d)) d_unit = (n, x)" by fastforce
  have "0 < mag_val (d_mag d)" using u by (auto simp: mag_val_def)
  then have n: "10 ^ 16 \<le> n" "n < 10 ^ 17" using digits17_near(1,2) [OF _ _ dg] by simp_all
  obtain p q where pq: "0 < p" "0 < q" "real p / real q = real n * 10 powi (x - 16)"
    "scan_number (body17 n x) = (case round_mag p q of (m, er) \<Rightarrow> Some (m, er, []))"
    "body17 n x \<noteq> []" "is_digit (hd (body17 n x))"
    using scan_number_decimal_text [OF body17_text [OF n, of x]] n by auto
  have "round_mag p q = (d_mag d, False)"
    using digits17_mag [OF u dg [unfolded d_unit_def] pq(1-3)] assms(1) by (simp add: round_mag_def)
  then have "strtod ((if d_sign d then ''-'' else []) @ body17 n x) = (d_make (d_sign d) (d_mag d), [], False)"
    using strtod_sign [OF pq(5,6), of "d_mag d" False "[]" "d_sign d"] pq(4) by simp
  moreover have "fmt17 d = (if d_sign d then ''-'' else []) @ body17 n x"
    using False assms(1) dg by (simp add: fmt17_def body17_def d_isnan_def)
  ultimately show ?thesis by (simp add: d_make_inverse)
qed

lemma fmt17_not_Nil: "fmt17 d \<noteq> []"
  by (auto simp: fmt17_def fixed_style_def exp_style_def dotted_def split: prod.split)

lemma no_NUL_parts:
  "CHR 0x00 \<notin> set ds \<Longrightarrow> CHR 0x00 \<notin> set (strip0 ds)"
  "CHR 0x00 \<notin> set ds \<Longrightarrow> CHR 0x00 \<notin> set (take k ds)"
  "CHR 0x00 \<notin> set ds \<Longrightarrow> CHR 0x00 \<notin> set (drop k ds)"
  "CHR 0x00 \<notin> set i \<Longrightarrow> CHR 0x00 \<notin> set f \<Longrightarrow> CHR 0x00 \<notin> set (dotted i f)"
  by (auto simp: dotted_def dest: strip0_sub in_set_takeD in_set_dropD)

lemma style_no_NUL:
  "CHR 0x00 \<notin> set (fixed_style (show_nat n) x)" "CHR 0x00 \<notin> set (exp_style (show_nat n) x)"
  by (simp_all add: fixed_style_def exp_style_def no_NUL_parts)

lemma fmt17_no_NUL [simp]: "CHR 0x00 \<notin> set (fmt17 d)"
  by (simp add: fmt17_def split_def style_no_NUL)

lemma length_strip0: "length (strip0 ds) \<le> length ds"
  unfolding strip0_def by (metis length_dropWhile_le length_rev)

lemma two_ten: "k \<le> 1200 \<Longrightarrow> (2 :: real) ^ k \<le> 10 ^ 400"
proof -
  assume "k \<le> 1200"
  then have "(2 :: real) ^ k \<le> 2 ^ (3 * 400)" by (intro power_increasing) simp_all
  also have "\<dots> = (2 ^ 3) ^ 400" by (rule power_mult)
  also have "\<dots> \<le> 10 ^ 400" by (intro power_mono) simp_all
  finally show ?thesis .
qed

lemma mag_val_bound: "u < d_inf_mag \<Longrightarrow> mag_val u < 2 ^ 2098"
proof (cases "2 ^ 52 \<le> u")
  case True
  assume "u < d_inf_mag"
  obtain m e where m: "2 ^ 52 \<le> m" "m < 2 ^ 53" "u = m + e * 2 ^ 52" "mag_val u = m * 2 ^ e"
    using mag_val_normal [OF True] .
  then have "e \<le> 2045" using \<open>u < d_inf_mag\<close> by (simp add: d_inf_mag_def)
  then have "(2 :: nat) ^ e \<le> 2 ^ 2045" by (intro power_increasing) simp_all
  then have "m * 2 ^ e < 2 ^ 53 * 2 ^ 2045" using m(2) by (intro mult_less_le_imp_less) simp_all
  also have "(2 :: nat) ^ 53 * 2 ^ 2045 = 2 ^ (53 + 2045)" by (rule power_add [symmetric])
  also have "53 + 2045 = (2098 :: nat)" by simp
  finally show ?thesis unfolding m(4) .
next
  case False
  then have "mag_val u < 2 ^ 52" by (simp add: mag_val_def)
  also have "\<dots> \<le> 2 ^ 2098" by (intro power_increasing) simp_all
  finally show ?thesis .
qed

lemma digits17_exponent:
  assumes "0 < u" "u < d_inf_mag" "digits17 (mag_val u) d_unit = (n, x)"
  shows "\<bar>x\<bar> < 1000"
proof -
  let ?v = "real (mag_val u) / 2 ^ 1074"
  define y where "y = flog 10 (mag_val u) d_unit"
  have pos: "0 < mag_val u" using assms(1) by (auto simp: mag_val_def)
  have c: "2 \<le> (10 :: nat)" "0 < (2 :: nat) ^ 1074" by simp_all
  note fl = flog_bounds [OF c(1) pos c(2), folded d_unit_def, folded y_def, unfolded d_unit_def of_nat_power of_nat_numeral]
  have "real (mag_val u) < real (2 ^ 2098)"
    unfolding of_nat_less_iff by (rule mag_val_bound [OF assms(2)])
  then have "?v < 2 ^ (1074 + 1024) / 2 ^ 1074" by (intro divide_strict_right_mono) simp_all
  also have "\<dots> = 2 ^ 1024" unfolding power_add by (rule nonzero_mult_div_cancel_left) simp
  also have "\<dots> \<le> (10 :: real) powi 400" unfolding power_int_numeral by (rule two_ten) simp
  finally have "10 powi y < (10 :: real) powi 400" using fl(1) by linarith
  then have "y < 400" by (rule powi_less_cancel [rotated]) simp
  have "(10 :: real) powi (- 400) = inverse (10 ^ 400)" by (simp only: power_int_minus power_int_numeral)
  also have "\<dots> \<le> inverse (2 ^ 1074)" by (rule le_imp_inverse_le [OF two_ten]) simp_all
  also have "\<dots> = 1 / 2 ^ 1074" by (rule inverse_eq_divide)
  also have "\<dots> \<le> ?v" using pos by (intro divide_right_mono) simp_all
  finally have "(10 :: real) powi (- 400) < 10 powi (y + 1)" using fl(2) by linarith
  then have "- 400 < y + 1" by (rule powi_less_cancel [rotated]) simp
  moreover have "x = y \<or> x = y + 1"
    using assms(3) unfolding digits17_def Let_def y_def [symmetric] by (auto simp: split_def split: if_splits)
  ultimately show ?thesis using \<open>y < 400\<close> by auto
qed

lemma length_show_nat_3: "n < 1000 \<Longrightarrow> length (show_nat n) \<le> 3"
  by (simp add: show_nat.simps)

lemma style_length:
  assumes "length ds = 17"
  shows "- 4 \<le> x \<Longrightarrow> length (fixed_style ds x) \<le> 23" "\<bar>x\<bar> < 1000 \<Longrightarrow> length (exp_style ds x) \<le> 23"
proof -
  have l: "length (strip0 (drop k ds)) \<le> 17 - k" "length (strip0 ds) \<le> 17" for k
    using length_strip0 [of "drop k ds"] length_strip0 [of ds] assms by simp_all
  show "- 4 \<le> x \<Longrightarrow> length (fixed_style ds x) \<le> 23"
    using l(1) [of "nat x + 1"] l(2) assms by (auto simp: fixed_style_def dotted_def)
  assume "\<bar>x\<bar> < 1000"
  then have "nat \<bar>x\<bar> < 1000" by linarith
  then have "length (if nat \<bar>x\<bar> < 10 then CHR ''0'' # show_nat (nat \<bar>x\<bar>) else show_nat (nat \<bar>x\<bar>)) \<le> 3"
    using length_show_nat_3 [of "nat \<bar>x\<bar>"] by (auto simp: show_nat.simps [of "nat \<bar>x\<bar>"])
  then show "length (exp_style ds x) \<le> 23" using l(1) [of 1] assms unfolding exp_style_def dotted_def by auto
qed

lemma fmt17_length: "length (fmt17 d) \<le> 24"
proof (cases "d_isnan d \<or> d_mag d = d_inf_mag \<or> d_mag d = 0")
  case False
  obtain n x where dg: "digits17 (mag_val (d_mag d)) d_unit = (n, x)" by fastforce
  have "0 < mag_val (d_mag d)" using False by (auto simp: mag_val_def)
  then have "length (show_nat n) = 17"
    using digits17_near(1,2) [OF _ _ dg] by (intro length_show_nat_17) simp_all
  note len = style_length [OF this]
  have "\<bar>x\<bar> < 1000" using digits17_exponent [OF _ _ dg] False by (auto simp: d_isnan_def)
  then show ?thesis using False len [of x] dg by (auto simp: fmt17_def)
qed (auto simp: fmt17_def)

lemma take_fmt17 [simp]: "take 63 (fmt17 d) = fmt17 d"
  using fmt17_length [of d] by simp

lemma parse_double_fmt17:
  assumes "\<not> d_isnan d" "d_mag d = 0 \<or> 2 ^ 52 \<le> d_mag d"
  shows "parse_double (fmt17 d) = Some d"
proof -
  have "strtod (fmt17 d) = (d, [], False)"
  proof (cases "d_mag d = d_inf_mag")
    case True
    then show ?thesis
      using strtod_inf [of "d_sign d"] d_make_inverse [of d] assms(1) by (simp add: fmt17_def)
  next
    case False
    then show ?thesis using assms strtod_finite by (simp add: d_isnan_def)
  qed
  then show ?thesis using assms(1) fmt17_not_Nil [of d] by (simp add: parse_double_def d_eq_refl)
qed

lemma parse_double_number: "parse_double x = Some d \<Longrightarrow> \<not> d_isnan d"
  by (auto simp: parse_double_def d_eq_refl split: if_splits prod.splits)

lemma d_make_inf [simp]:
  "d_mag (d_make neg d_inf_mag) = d_inf_mag" "d_sign (d_make neg d_inf_mag) = neg" "\<not> d_isnan (d_make neg d_inf_mag)"
  by (simp_all add: d_isnan_def d_make_mag d_make_sign d_inf_mag_def)

lemma parse_double_inf: "parse_double ''inf'' = Some (d_make False d_inf_mag)"
  "parse_double ''-inf'' = Some (d_make True d_inf_mag)"
  using strtod_inf [of False] strtod_inf [of True] by (simp_all add: parse_double_def d_eq_refl)

section \<open>Property\<close>

text \<open>
  C32. Scores survive their text: a score that is zero, an infinity or of normal magnitude, printed
  with \<open>%.17g\<close> as the replies and the rewritten log have it, is read back by \<open>parse_double\<close> as the
  same double, bit for bit.
\<close>

theorem score_text_roundtrip:
  assumes "\<not> d_isnan d" "d_mag d = 0 \<or> 2 ^ 52 \<le> d_mag d"
  shows "parse_double (fmt17 d) = Some d"
  by (rule parse_double_fmt17 [OF assms])

theorem score_text_roundtrip_witness: "parse_double (fmt17 0x3FB999999999999A) = Some 0x3FB999999999999A"
proof (rule score_text_roundtrip)
  have "d_mag 0x3FB999999999999A = 0x3FB999999999999A" by (simp add: d_mag_def)
  then show "\<not> d_isnan 0x3FB999999999999A" "d_mag 0x3FB999999999999A = 0 \<or> 2 ^ 52 \<le> d_mag 0x3FB999999999999A"
    by (simp_all add: d_isnan_def d_inf_mag_def)
qed

end
