(* ===== verification/Db.thy ===== *)
theory Db
  imports State Double_Io
begin

text \<open>
  The keyspace of \<open>src/db.c\<close>: lookup with lazy expiration and the helpers the command handlers
  share. \<open>dict_set\<close> and \<open>dict_delete\<close> on \<open>store->d\<close> free the previous object, so only the new
  keyspace is kept; a handler that changes an object it has looked up writes it back with
  \<open>store_assign\<close>, which changes the value of the entry in place.
\<close>

section \<open>Operations on the keyspace\<close>

definition store_set :: "bytes \<Rightarrow> robj \<Rightarrow> st \<Rightarrow> st" where
  "store_set k ob s = s\<lparr>store := snd (dict_set (store s) k ob)\<rparr>"

definition store_delete :: "bytes \<Rightarrow> st \<Rightarrow> st" where
  "store_delete k s = s\<lparr>store := snd (dict_delete (store s) k)\<rparr>"

definition store_assign :: "bytes \<Rightarrow> robj \<Rightarrow> st \<Rightarrow> st" where
  "store_assign k ob s = s\<lparr>store := dict_assign (store s) k ob\<rparr>"

text \<open>
  The state at start-up, before the first command: \<open>db_create\<close> makes an empty keyspace, and the
  buffers of the client are empty.
\<close>

definition db_create :: "int \<Rightarrow> (nat \<Rightarrow> char) \<Rightarrow> (nat \<Rightarrow> bytes) \<Rightarrow> (nat \<Rightarrow> nat) \<Rightarrow> st" where
  "db_create now mem random_bytes rand =
     \<lparr>clock = now, junk = mem, seeds = random_bytes, seed_pos = 1, rands = rand, rand_pos = 0,
      store = dict_create (random_bytes 0), expire_cursor = 0, out = dynbuf_init, closing = False,
      start_ms = now\<rparr>"

definition db_size :: "st \<Rightarrow> nat" where
  "db_size s = dict_size (store s)"

definition lookup_key :: "bytes \<Rightarrow> st \<Rightarrow> robj option \<times> st" where
  "lookup_key k s =
     (case dict_get (store s) k of
        None \<Rightarrow> (None, s)
      | Some ob \<Rightarrow>
          if key_expired (clock s) ob then (None, store_delete k s) else (Some ob, s))"

text \<open>\<open>dict_create\<close> takes its seed from the random source.\<close>

definition new_seed :: "st \<Rightarrow> bytes \<times> st" where
  "new_seed s = (seeds s (seed_pos s), s\<lparr>seed_pos := seed_pos s + 1\<rparr>)"

definition payload_empty :: "payload \<Rightarrow> bool" where
  "payload_empty p =
     (case p of
        PString v \<Rightarrow> False
      | PList l \<Rightarrow> list_len l = 0
      | PHash d \<Rightarrow> dict_size d = 0
      | PSet d \<Rightarrow> dict_size d = 0
      | PZset zs \<Rightarrow> zset_len zs = 0)"

definition maybe_delete_key :: "bytes \<Rightarrow> robj \<Rightarrow> st \<Rightarrow> st" where
  "maybe_delete_key k ob s = (if payload_empty (ptr ob) then store_delete k s else s)"

fun type_name :: "obj_type \<Rightarrow> bytes" where
  "type_name OBJ_STRING = ''string''"
| "type_name OBJ_LIST = ''list''"
| "type_name OBJ_HASH = ''hash''"
| "type_name OBJ_SET = ''set''"
| "type_name OBJ_ZSET = ''zset''"

text \<open>\<open>None\<close> when the range is void (\<open>*empty = 1\<close>).\<close>

definition range_normalize :: "int \<Rightarrow> int \<Rightarrow> int \<Rightarrow> (int \<times> int) option" where
  "range_normalize len start stop =
     (let start1 = (if start < 0 then len + start else start);
          stop1 = (if stop < 0 then len + stop else stop);
          start2 = (if start1 < 0 then 0 else start1)
      in if start2 > stop1 \<or> start2 \<ge> len then None
         else Some (start2, if stop1 \<ge> len then len - 1 else stop1))"

text \<open>\<open>if (o && o->type != OBJ_X)\<close>: the payload of an object of the expected type.\<close>

fun as_string :: "payload \<Rightarrow> bytes option" where
  "as_string (PString v) = Some v"
| "as_string _ = None"

fun as_list :: "payload \<Rightarrow> bytes llist option" where
  "as_list (PList l) = Some l"
| "as_list _ = None"

fun as_hash :: "payload \<Rightarrow> bytes dict option" where
  "as_hash (PHash d) = Some d"
| "as_hash _ = None"

fun as_set :: "payload \<Rightarrow> unit dict option" where
  "as_set (PSet d) = Some d"
| "as_set _ = None"

fun as_zset :: "payload \<Rightarrow> zset option" where
  "as_zset (PZset z) = Some z"
| "as_zset _ = None"

definition type_mismatch :: "obj_type \<Rightarrow> robj option \<Rightarrow> bool" where
  "type_mismatch t found = (case found of Some ob \<Rightarrow> type_of (ptr ob) \<noteq> t | None \<Rightarrow> False)"

definition reply_double :: "double \<Rightarrow> st \<Rightarrow> st" where
  "reply_double d s = reply_bulk_cstr (take 63 (fmt17 d)) s"

definition not_float :: bytes where "not_float = ''value is not a valid float''"

section \<open>What they do to the view\<close>

lemma reply_double_eq [simp]: "reply_double d s = reply_bulk (fmt17 d) s"
  by (simp add: reply_double_def reply_bulk_cstr_def)

lemma view_of_set:
  "dict_ok d \<Longrightarrow> view_of now (snd (dict_set d k ob)) =
     aput now k (abs_payload (ptr ob)) (expire_at ob) (view_of now d)"
  by (auto simp: fun_eq_iff view_of_def dict_set_eqs aput_def key_expired_def aobj_def)

lemma view_of_delete: "dict_ok d \<Longrightarrow> view_of now (snd (dict_delete d k)) = (view_of now d)(k := None)"
  by (auto simp: fun_eq_iff view_of_def dict_delete_eqs)

lemma view_of_assign:
  "dict_ok d \<Longrightarrow> dict_get d k \<noteq> None \<Longrightarrow> view_of now (dict_assign d k ob) =
     aput now k (abs_payload (ptr ob)) (expire_at ob) (view_of now d)"
  by (auto simp: fun_eq_iff view_of_def dict_assign_eqs aput_def key_expired_def aobj_def)

lemma store_frame [simp]:
  "clock (store_set k ob s) = clock s"
    "closing (store_set k ob s) = closing s"
    "start_ms (store_set k ob s) = start_ms s"
    "seeds (store_set k ob s) = seeds s"
    "rands (store_set k ob s) = rands s"
    "seed_pos (store_set k ob s) = seed_pos s"
    "rand_pos (store_set k ob s) = rand_pos s"
    "expire_cursor (store_set k ob s) = expire_cursor s"
    "outb (store_set k ob s) = outb s"
  "clock (store_delete k s) = clock s"
    "closing (store_delete k s) = closing s"
    "start_ms (store_delete k s) = start_ms s"
    "seeds (store_delete k s) = seeds s"
    "rands (store_delete k s) = rands s"
    "seed_pos (store_delete k s) = seed_pos s"
    "rand_pos (store_delete k s) = rand_pos s"
    "expire_cursor (store_delete k s) = expire_cursor s"
    "outb (store_delete k s) = outb s"
  "clock (store_assign k ob s) = clock s"
    "closing (store_assign k ob s) = closing s"
    "start_ms (store_assign k ob s) = start_ms s"
    "seeds (store_assign k ob s) = seeds s"
    "rands (store_assign k ob s) = rands s"
    "seed_pos (store_assign k ob s) = seed_pos s"
    "rand_pos (store_assign k ob s) = rand_pos s"
    "expire_cursor (store_assign k ob s) = expire_cursor s"
    "outb (store_assign k ob s) = outb s"
  by (simp_all add: store_set_def store_delete_def store_assign_def outb_def)

lemma store_set_simps [simp]:
  assumes "st_ok s"
  shows "payload_ok (ptr ob) \<Longrightarrow> st_ok (store_set k ob s)"
    and "view (store_set k ob s) = aput (clock s) k (abs_payload (ptr ob)) (expire_at ob) (view s)"
    and "dict_get (store (store_set k ob s)) = (dict_get (store s))(k \<mapsto> ob)"
  using assms by (auto simp: store_set_def st_ok_def view_def view_of_set dict_set_eqs)

lemma store_delete_simps [simp]:
  assumes "st_ok s"
  shows "st_ok (store_delete k s)" "view (store_delete k s) = (view s)(k := None)"
    and "dict_get (store (store_delete k s)) = (dict_get (store s))(k := None)"
  using assms by (auto simp: store_delete_def st_ok_def view_def view_of_delete dict_delete_eqs)

lemma store_assign_simps [simp]:
  assumes "st_ok s" "dict_get (store s) k = Some ob'"
  shows "payload_ok (ptr ob) \<Longrightarrow> st_ok (store_assign k ob s)"
    and "view (store_assign k ob s) = aput (clock s) k (abs_payload (ptr ob)) (expire_at ob) (view s)"
    and "dict_get (store (store_assign k ob s)) = (dict_get (store s))(k \<mapsto> ob)"
  using assms
  by (auto simp: store_assign_def st_ok_def view_def view_of_assign dict_assign_eqs fun_eq_iff
      split: if_splits)

lemma upd_simps [simp]:
  "st_ok (s\<lparr>seed_pos := i\<rparr>) = st_ok s" "view (s\<lparr>seed_pos := i\<rparr>) = view s" "outb (s\<lparr>seed_pos := i\<rparr>) = outb s"
  "st_ok (s\<lparr>rand_pos := i\<rparr>) = st_ok s" "view (s\<lparr>rand_pos := i\<rparr>) = view s" "outb (s\<lparr>rand_pos := i\<rparr>) = outb s"
  "st_ok (s\<lparr>closing := c\<rparr>) = st_ok s" "view (s\<lparr>closing := c\<rparr>) = view s" "outb (s\<lparr>closing := c\<rparr>) = outb s"
  "outb (s\<lparr>store := d\<rparr>) = outb s"
  by (simp_all add: st_ok_def view_def outb_def)

lemma store_create_simps [simp]:
  "st_ok s \<Longrightarrow> st_ok (s\<lparr>store := dict_create x\<rparr>)" "view (s\<lparr>store := dict_create x\<rparr>) = Map.empty"
  by (simp_all add: st_ok_def view_def view_of_def fun_eq_iff)

lemma aput_aput [simp]: "aput now k a e (aput now k a' e' v) = aput now k a e v"
  by (simp add: aput_def)

lemma aput_alive [simp]:
  "\<not> key_expired now ob \<Longrightarrow> aput now k a (expire_at ob) v = v(k \<mapsto> (a, expire_at ob))"
  by (auto simp: aput_def key_expired_def)

lemma payload_empty_simps [simp]:
  "\<not> payload_empty (PString x)"
  "list_inv l \<Longrightarrow> payload_empty (PList l) \<longleftrightarrow> list_vals l = []"
  "dict_ok d \<Longrightarrow> payload_empty (PHash d) \<longleftrightarrow> dict_get d = Map.empty"
  "dict_ok d' \<Longrightarrow> payload_empty (PSet d') \<longleftrightarrow> dict_get d' = Map.empty"
  "zset_ok zs \<Longrightarrow> payload_empty (PZset zs) \<longleftrightarrow> zset_score zs = Map.empty"
  using ds.count_zero [of d] ds.count_zero [of d'] zset_len_ok [of zs] zset_items_map [of zs]
  by (auto simp: payload_empty_def dq.len_vals)

lemma type_mismatch_simps [simp]:
  "type_mismatch t None = False" "type_mismatch t (Some ob) = (type_of (ptr ob) \<noteq> t)"
  by (simp_all add: type_mismatch_def)

lemma entries_size: "dict_ok d \<Longrightarrow> dict_size d = length (dict_entries d)"
  by (metis ds.count_pairs length_map pairs_of_entries)

lemma entries_keys:
  assumes "dict_ok d"
  shows "set (map ekey (dict_entries d)) = dom (dict_get d)" "distinct (map ekey (dict_entries d))"
  using ds.keys_dom [OF assms] dict_entries_distinct [OF assms]
  by (simp_all add: pairs_of_entries [OF assms, symmetric] pair_of_def comp_def)

lemma encode_empty: "CHR ''*'' # show_nat 0 @ crlf = encode (RArray [])"
  by (simp add: encode.simps)

lemma bulk_array [simp]:
  "st_ok s \<Longrightarrow> outb (reply_bulks xs (reply_array_header (length xs) s)) = outb s @ encode (RArray (map RBulk xs))"
  by (simp add: encode.simps)

lemma st_ok_store: "st_ok s \<Longrightarrow> dict_ok (store s)"
  by (simp add: st_ok_def)

lemma view_at:
  "view s k = (case dict_get (store s) k of
     None \<Rightarrow> None | Some ob \<Rightarrow> if key_expired (clock s) ob then None else Some (aobj ob))"
  by (simp add: view_def view_of_def)

lemma lookup_key_cases:
  assumes "st_ok s"
  obtains (absent) s1 where "lookup_key k s = (None, s1)" "st_ok s1" "view s1 = view s"
      "outb s1 = outb s" "clock s1 = clock s" "closing s1 = closing s" "start_ms s1 = start_ms s"
      "seeds s1 = seeds s" "rands s1 = rands s" "view s k = None" "dict_get (store s1) k = None"
    | (present) ob where "lookup_key k s = (Some ob, s)" "st_ok s"
      "view s k = Some (abs_payload (ptr ob), expire_at ob)"
      "dict_get (store s) k = Some ob" "payload_ok (ptr ob)" "\<not> key_expired (clock s) ob"
proof (cases "dict_get (store s) k")
  case None
  with assms show thesis
    by (intro absent [of s]) (simp_all add: lookup_key_def view_at)
next
  case (Some ob)
  show thesis
  proof (cases "key_expired (clock s) ob")
    case True
    with Some assms have "view s k = None" by (simp add: view_at)
    with Some True assms show thesis
      by (intro absent [of "store_delete k s"]) (simp_all add: lookup_key_def fun_upd_idem)
  next
    case False
    with Some assms show thesis
      by (intro present) (auto simp: lookup_key_def view_at aobj_def st_ok_def)
  qed
qed

section \<open>Specifications\<close>

text \<open>
  A specification maps the arguments, the time and the keyspace to the reply and the new keyspace.
  A handler implements it when it keeps the invariant, changes the view as specified and queues
  exactly the reply.
\<close>

type_synonym spec = "command \<Rightarrow> int \<Rightarrow> view \<Rightarrow> reply \<times> view"

definition implements :: "(command \<Rightarrow> st \<Rightarrow> st) \<Rightarrow> spec \<Rightarrow> bool" where
  "implements cmd sp =
     (\<forall>argv s. st_ok s \<longrightarrow>
        gives s (cmd argv s) (snd (sp argv (clock s) (view s))) (encode (fst (sp argv (clock s) (view s)))))"

lemma implementsI:
  "(\<And>argv s. st_ok s \<Longrightarrow> let (r, v) = sp argv (clock s) (view s); s' = cmd argv s in
      st_ok s' \<and> view s' = v \<and> outb s' = outb s @ encode r \<and> clock s' = clock s \<and>
      closing s' = closing s \<and> start_ms s' = start_ms s \<and> seeds s' = seeds s \<and> rands s' = rands s) \<Longrightarrow>
   implements cmd sp"
  by (simp add: implements_def gives_def split_def Let_def)

lemma implementsD:
  "implements cmd sp \<Longrightarrow> st_ok s \<Longrightarrow> sp argv (clock s) (view s) = (r, v) \<Longrightarrow>
   gives s (cmd argv s) v (encode r)"
  unfolding implements_def by (metis fst_conv snd_conv)

text \<open>
  The reply of some commands depends on more than the view: on the order of a hash table, on the
  random source, on expired keys not yet removed. Their specification is a set of allowed results.
\<close>

type_synonym spec_set = "command \<Rightarrow> int \<Rightarrow> view \<Rightarrow> (reply \<times> view) set"

definition allows :: "(command \<Rightarrow> st \<Rightarrow> st) \<Rightarrow> spec_set \<Rightarrow> bool" where
  "allows cmd sp =
     (\<forall>argv s. st_ok s \<longrightarrow>
        (\<exists>(r, v)\<in>sp argv (clock s) (view s). gives s (cmd argv s) v (encode r)))"

lemma allowsI:
  "(\<And>argv s. st_ok s \<Longrightarrow> \<exists>r v. (r, v) \<in> sp argv (clock s) (view s) \<and> gives s (cmd argv s) v (encode r)) \<Longrightarrow>
   allows cmd sp"
  by (fastforce simp: allows_def)

lemma implements_allows: "implements cmd sp \<Longrightarrow> allows cmd (\<lambda>argv now v. {sp argv now v})"
  by (auto simp: implements_def allows_def split_def)

lemma type_name_text [simp]: "CHR 0x00 \<notin> set (type_name t)"
  by (cases t) simp_all

text \<open>
  The elements of \<open>xs\<close> from position \<open>i\<close> to position \<open>j\<close>, where a negative position counts from
  the end and positions outside the list are moved to its ends, and \<open>xs\<close> with \<open>ys\<close> written over
  it at \<open>i\<close>, filled up with NUL bytes where \<open>xs\<close> is too short.
\<close>

definition position :: "nat \<Rightarrow> int \<Rightarrow> int" where
  "position n i = (if i < 0 then int n + i else i)"

definition lslice :: "'a list \<Rightarrow> int \<Rightarrow> int \<Rightarrow> 'a list" where
  "lslice xs i j =
     take (nat (position (length xs) j + 1 - max 0 (position (length xs) i)))
       (drop (nat (max 0 (position (length xs) i))) xs)"

definition overlay :: "bytes \<Rightarrow> nat \<Rightarrow> bytes \<Rightarrow> bytes" where
  "overlay xs i ys =
     take i (xs @ replicate (i - length xs) (CHR 0x00)) @ ys @ drop (i + length ys) xs"

lemma range_normalize_cases:
  assumes "range_normalize (int n) i j = Some (a, b)"
  shows "0 \<le> a" "a \<le> b" "b < int n" "a = max 0 (position n i)" "b = min (int n - 1) (position n j)"
  using assms by (auto simp: range_normalize_def position_def Let_def split: if_splits)

lemma range_normalize_slice:
  assumes "range_normalize (int (length xs)) i j = Some (a, b)"
  shows "lslice xs i j = take (nat (b - a + 1)) (drop (nat a) xs)"
    and "length (take (nat (b - a + 1)) (drop (nat a) xs)) = nat (b - a + 1)"
  using range_normalize_cases [OF assms] by (auto simp: lslice_def min_def diff_add_eq nat_diff_distrib')

lemma range_normalize_None:
  "range_normalize (int (length xs)) i j = None \<Longrightarrow> lslice xs i j = []"
  by (auto simp: range_normalize_def lslice_def position_def Let_def split: if_splits)

definition score_reply :: "double \<Rightarrow> reply" where
  "score_reply d = RBulk (fmt17 d)"

section \<open>Commands on one type\<close>

text \<open>
  The shape of the specifications of the typed commands: \<open>none\<close> when the key is absent, \<open>some\<close> on
  a value of the type with its expiry, and the WRONGTYPE error, with nothing changed, otherwise.
  The rules split a proof in the same way.
\<close>

definition on_string :: "view \<Rightarrow> bytes \<Rightarrow> reply \<times> view \<Rightarrow> (bytes \<Rightarrow> int \<Rightarrow> reply \<times> view) \<Rightarrow> reply \<times> view" where
  "on_string v k none some =
     (case v k of
        None \<Rightarrow> none
      | Some (AString x, e) \<Rightarrow> some x e
      | Some _ \<Rightarrow> (wrongtype, v))"

definition on_list :: "view \<Rightarrow> bytes \<Rightarrow> reply \<times> view \<Rightarrow> ((bytes list) \<Rightarrow> int \<Rightarrow> reply \<times> view) \<Rightarrow> reply \<times> view" where
  "on_list v k none some =
     (case v k of
        None \<Rightarrow> none
      | Some (AList x, e) \<Rightarrow> some x e
      | Some _ \<Rightarrow> (wrongtype, v))"

definition on_hash :: "view \<Rightarrow> bytes \<Rightarrow> reply \<times> view \<Rightarrow> ((bytes \<Rightarrow> bytes option) \<Rightarrow> int \<Rightarrow> reply \<times> view) \<Rightarrow> reply \<times> view" where
  "on_hash v k none some =
     (case v k of
        None \<Rightarrow> none
      | Some (AHash x, e) \<Rightarrow> some x e
      | Some _ \<Rightarrow> (wrongtype, v))"

definition on_set :: "view \<Rightarrow> bytes \<Rightarrow> reply \<times> view \<Rightarrow> ((bytes set) \<Rightarrow> int \<Rightarrow> reply \<times> view) \<Rightarrow> reply \<times> view" where
  "on_set v k none some =
     (case v k of
        None \<Rightarrow> none
      | Some (ASet x, e) \<Rightarrow> some x e
      | Some _ \<Rightarrow> (wrongtype, v))"

definition on_zset :: "view \<Rightarrow> bytes \<Rightarrow> reply \<times> view \<Rightarrow> ((bytes \<Rightarrow> double option) \<Rightarrow> int \<Rightarrow> reply \<times> view) \<Rightarrow> reply \<times> view" where
  "on_zset v k none some =
     (case v k of
        None \<Rightarrow> none
      | Some (AZset x, e) \<Rightarrow> some x e
      | Some _ \<Rightarrow> (wrongtype, v))"

lemma string_cases:
  assumes "st_ok s"
  obtains (absent) s1 where "lookup_key k s = (None, s1)" "st_ok s1" "view s1 = view s"
      "outb s1 = outb s" "clock s1 = clock s" "closing s1 = closing s" "start_ms s1 = start_ms s"
      "seeds s1 = seeds s" "rands s1 = rands s" "view s k = None" "dict_get (store s1) k = None"
      "\<And>n f. on_string (view s) k n f = n"
    | (present) ob x where "lookup_key k s = (Some ob, s)" "st_ok s" "ptr ob = PString x"
      "view s k = Some (AString x, expire_at ob)" "dict_get (store s) k = Some ob"
      "\<not> key_expired (clock s) ob"
      "\<And>n f. on_string (view s) k n f = f x (expire_at ob)"
    | (other) ob where "lookup_key k s = (Some ob, s)" "st_ok s" "as_string (ptr ob) = None"
      "type_of (ptr ob) \<noteq> OBJ_STRING" "\<And>n f. on_string (view s) k n f = (wrongtype, view s)"
      "view s k = Some (abs_payload (ptr ob), expire_at ob)"
proof (cases rule: lookup_key_cases [OF assms, of k])
  case (1 s1)
  then show thesis by (intro absent) (simp_all add: on_string_def)
next
  case (2 ob)
  then show thesis
    by (cases "ptr ob") (auto intro: present other simp: on_string_def)
qed

lemma list_cases:
  assumes "st_ok s"
  obtains (absent) s1 where "lookup_key k s = (None, s1)" "st_ok s1" "view s1 = view s"
      "outb s1 = outb s" "clock s1 = clock s" "closing s1 = closing s" "start_ms s1 = start_ms s"
      "seeds s1 = seeds s" "rands s1 = rands s" "view s k = None" "dict_get (store s1) k = None"
      "\<And>n f. on_list (view s) k n f = n"
    | (present) ob x where "lookup_key k s = (Some ob, s)" "st_ok s" "ptr ob = PList x"
      "view s k = Some (AList (list_vals x), expire_at ob)" "dict_get (store s) k = Some ob"
      "\<not> key_expired (clock s) ob" "list_inv x"
      "\<And>n f. on_list (view s) k n f = f (list_vals x) (expire_at ob)"
    | (other) ob where "lookup_key k s = (Some ob, s)" "st_ok s" "as_list (ptr ob) = None"
      "type_of (ptr ob) \<noteq> OBJ_LIST" "\<And>n f. on_list (view s) k n f = (wrongtype, view s)"
      "view s k = Some (abs_payload (ptr ob), expire_at ob)"
proof (cases rule: lookup_key_cases [OF assms, of k])
  case (1 s1)
  then show thesis by (intro absent) (simp_all add: on_list_def)
next
  case (2 ob)
  then show thesis
    by (cases "ptr ob") (auto intro: present other simp: on_list_def)
qed

lemma hash_cases:
  assumes "st_ok s"
  obtains (absent) s1 where "lookup_key k s = (None, s1)" "st_ok s1" "view s1 = view s"
      "outb s1 = outb s" "clock s1 = clock s" "closing s1 = closing s" "start_ms s1 = start_ms s"
      "seeds s1 = seeds s" "rands s1 = rands s" "view s k = None" "dict_get (store s1) k = None"
      "\<And>n f. on_hash (view s) k n f = n"
    | (present) ob x where "lookup_key k s = (Some ob, s)" "st_ok s" "ptr ob = PHash x"
      "view s k = Some (AHash (dict_get x), expire_at ob)" "dict_get (store s) k = Some ob"
      "\<not> key_expired (clock s) ob" "dict_ok x"
      "\<And>n f. on_hash (view s) k n f = f (dict_get x) (expire_at ob)"
    | (other) ob where "lookup_key k s = (Some ob, s)" "st_ok s" "as_hash (ptr ob) = None"
      "type_of (ptr ob) \<noteq> OBJ_HASH" "\<And>n f. on_hash (view s) k n f = (wrongtype, view s)"
      "view s k = Some (abs_payload (ptr ob), expire_at ob)"
proof (cases rule: lookup_key_cases [OF assms, of k])
  case (1 s1)
  then show thesis by (intro absent) (simp_all add: on_hash_def)
next
  case (2 ob)
  then show thesis
    by (cases "ptr ob") (auto intro: present other simp: on_hash_def)
qed

lemma set_cases:
  assumes "st_ok s"
  obtains (absent) s1 where "lookup_key k s = (None, s1)" "st_ok s1" "view s1 = view s"
      "outb s1 = outb s" "clock s1 = clock s" "closing s1 = closing s" "start_ms s1 = start_ms s"
      "seeds s1 = seeds s" "rands s1 = rands s" "view s k = None" "dict_get (store s1) k = None"
      "\<And>n f. on_set (view s) k n f = n"
    | (present) ob x where "lookup_key k s = (Some ob, s)" "st_ok s" "ptr ob = PSet x"
      "view s k = Some (ASet (dom (dict_get x)), expire_at ob)" "dict_get (store s) k = Some ob"
      "\<not> key_expired (clock s) ob" "dict_ok x"
      "\<And>n f. on_set (view s) k n f = f (dom (dict_get x)) (expire_at ob)"
    | (other) ob where "lookup_key k s = (Some ob, s)" "st_ok s" "as_set (ptr ob) = None"
      "type_of (ptr ob) \<noteq> OBJ_SET" "\<And>n f. on_set (view s) k n f = (wrongtype, view s)"
      "view s k = Some (abs_payload (ptr ob), expire_at ob)"
proof (cases rule: lookup_key_cases [OF assms, of k])
  case (1 s1)
  then show thesis by (intro absent) (simp_all add: on_set_def)
next
  case (2 ob)
  then show thesis
    by (cases "ptr ob") (auto intro: present other simp: on_set_def)
qed

lemma zset_cases:
  assumes "st_ok s"
  obtains (absent) s1 where "lookup_key k s = (None, s1)" "st_ok s1" "view s1 = view s"
      "outb s1 = outb s" "clock s1 = clock s" "closing s1 = closing s" "start_ms s1 = start_ms s"
      "seeds s1 = seeds s" "rands s1 = rands s" "view s k = None" "dict_get (store s1) k = None"
      "\<And>n f. on_zset (view s) k n f = n"
    | (present) ob x where "lookup_key k s = (Some ob, s)" "st_ok s" "ptr ob = PZset x"
      "view s k = Some (AZset (zset_score x), expire_at ob)" "dict_get (store s) k = Some ob"
      "\<not> key_expired (clock s) ob" "zset_ok x"
      "\<And>n f. on_zset (view s) k n f = f (zset_score x) (expire_at ob)"
    | (other) ob where "lookup_key k s = (Some ob, s)" "st_ok s" "as_zset (ptr ob) = None"
      "type_of (ptr ob) \<noteq> OBJ_ZSET" "\<And>n f. on_zset (view s) k n f = (wrongtype, view s)"
      "view s k = Some (abs_payload (ptr ob), expire_at ob)"
proof (cases rule: lookup_key_cases [OF assms, of k])
  case (1 s1)
  then show thesis by (intro absent) (simp_all add: on_zset_def)
next
  case (2 ob)
  then show thesis
    by (cases "ptr ob") (auto intro: present other simp: on_zset_def)
qed

lemma db_create_ok: "st_ok (db_create now mem sd rn)"
  by (simp add: db_create_def st_ok_def dynbuf_init_ok)

lemma db_create_sel [simp]:
  "clock (db_create now mem sd rn) = now" "outb (db_create now mem sd rn) = []"
  "view (db_create now mem sd rn) = Map.empty" "closing (db_create now mem sd rn) = False"
  by (simp_all add: db_create_def outb_def view_def view_of_def fun_eq_iff dynbuf_init_def contents_def)

definition demo_st :: st where
  "demo_st = db_create 1000 (\<lambda>_. CHR 0x00) (\<lambda>_. replicate 16 (CHR 0x00)) (\<lambda>_. 0)"

lemma demo_st_ok [simp]: "st_ok demo_st" "clock demo_st = 1000" "view demo_st = Map.empty" "outb demo_st = []"
  by (simp_all add: demo_st_def db_create_ok)

end
