(* ===== verification/Db_String.thy ===== *)
theory Db_String
  imports Db
begin

text \<open>
  The string and generic commands of \<open>src/db.c\<close> (lines 162 to 706). An element of \<open>argv\<close> is a C
  string. Each handler is followed, in the second part, by what it does to the view of the
  keyspace and the reply it queues.
\<close>

section \<open>The handlers\<close>

definition cmd_ping :: "command \<Rightarrow> st \<Rightarrow> st" where
  "cmd_ping argv s =
     (if length argv > 2 then reply_error (wrong_args ''ping'') s
      else if length argv = 2 then reply_bulk_cstr (argv ! 1) s
      else reply_simple ''PONG'' s)"

definition cmd_echo :: "command \<Rightarrow> st \<Rightarrow> st" where
  "cmd_echo argv s =
     (if length argv \<noteq> 2 then reply_error (wrong_args ''echo'') s
      else reply_bulk_cstr (argv ! 1) s)"

text \<open>The options of \<open>SET\<close>: \<open>nx\<close>, \<open>xx\<close> and \<open>expire_ms\<close>, or the text of the error.\<close>

fun set_opts :: "int \<Rightarrow> bytes list \<Rightarrow> bool \<Rightarrow> bool \<Rightarrow> int \<Rightarrow> bytes + bool \<times> bool \<times> int" where
  "set_opts now [] nx xx expire_ms = Inr (nx, xx, expire_ms)"
| "set_opts now (a # rest) nx xx expire_ms =
     (if strcaseeq a ''EX'' \<or> strcaseeq a ''PX'' \<or> strcaseeq a ''EXAT'' \<or> strcaseeq a ''PXAT'' then
        (case rest of
           [] \<Rightarrow> Inl ''syntax error''
         | x # rest' \<Rightarrow>
             (case string_to_ll x of
                None \<Rightarrow> Inl (invalid_expire ''set'')
              | Some v \<Rightarrow>
                  if v \<le> 0 then Inl (invalid_expire ''set'')
                  else if strcaseeq a ''EX'' then
                    if v > LLONG_MAX div 1000 then Inl (invalid_expire ''set'')
                    else set_opts now rest' nx xx (v * 1000)
                  else if strcaseeq a ''PX'' then set_opts now rest' nx xx v
                  else if strcaseeq a ''EXAT'' then
                    if v > LLONG_MAX div 1000 then Inl (invalid_expire ''set'')
                    else set_opts now rest' nx xx (v * 1000 - now)
                  else set_opts now rest' nx xx (v - now)))
      else if strcaseeq a ''NX'' then set_opts now rest True xx expire_ms
      else if strcaseeq a ''XX'' then set_opts now rest nx True expire_ms
      else Inl ''syntax error'')"

definition set_expiry :: "int \<Rightarrow> int \<Rightarrow> int" where
  "set_expiry now expire_ms = (if expire_ms < 0 then - 1 else wrap64 (now + expire_ms))"

definition cmd_set :: "command \<Rightarrow> st \<Rightarrow> st" where
  "cmd_set argv s =
     (if length argv < 3 then reply_error (wrong_args ''set'') s
      else case set_opts (clock s) (drop 3 argv) False False (- 1) of
        Inl e \<Rightarrow> reply_error e s
      | Inr (nx, xx, expire_ms) \<Rightarrow>
          if nx \<and> xx then reply_error ''syntax error'' s
          else case lookup_key (argv ! 1) s of (existing, s1) \<Rightarrow>
            if nx \<and> existing \<noteq> None then reply_null s1
            else if xx \<and> existing = None then reply_null s1
            else let val = (robj_new_string (argv ! 2))\<lparr>expire_at := set_expiry (clock s) expire_ms\<rparr>
                 in reply_simple ''OK'' (store_set (argv ! 1) val s1))"

definition cmd_get :: "command \<Rightarrow> st \<Rightarrow> st" where
  "cmd_get argv s =
     (if length argv \<noteq> 2 then reply_error (wrong_args ''get'') s
      else case lookup_key (argv ! 1) s of
        (None, s1) \<Rightarrow> reply_null s1
      | (Some ob, s1) \<Rightarrow>
          (case as_string (ptr ob) of
             None \<Rightarrow> reply_wrongtype s1
           | Some v \<Rightarrow> reply_bulk v s1))"

fun mget_loop :: "bytes list \<Rightarrow> st \<Rightarrow> st" where
  "mget_loop [] s = s"
| "mget_loop (k # ks) s =
     (case lookup_key k s of (ob, s1) \<Rightarrow>
        mget_loop ks
          (case Option.bind ob (\<lambda>x. as_string (ptr x)) of
             Some v \<Rightarrow> reply_bulk v s1
           | None \<Rightarrow> reply_null s1))"

definition cmd_mget :: "command \<Rightarrow> st \<Rightarrow> st" where
  "cmd_mget argv s =
     (if length argv < 2 then reply_error (wrong_args ''mget'') s
      else mget_loop (drop 1 argv) (reply_array_header (length argv - 1) s))"

fun mset_loop :: "bytes list \<Rightarrow> st \<Rightarrow> st" where
  "mset_loop (k # x # rest) s = mset_loop rest (store_set k (robj_new_string x) s)"
| "mset_loop _ s = s"

definition cmd_mset :: "command \<Rightarrow> st \<Rightarrow> st" where
  "cmd_mset argv s =
     (if length argv < 3 \<or> odd (length argv - 1) then reply_error (wrong_args ''mset'') s
      else reply_simple ''OK'' (mset_loop (drop 1 argv) s))"

definition cmd_append :: "command \<Rightarrow> st \<Rightarrow> st" where
  "cmd_append argv s =
     (if length argv \<noteq> 3 then reply_error (wrong_args ''append'') s
      else case lookup_key (argv ! 1) s of
        (None, s1) \<Rightarrow>
          reply_integer (int (length (argv ! 2))) (store_set (argv ! 1) (robj_new_string (argv ! 2)) s1)
      | (Some ob, s1) \<Rightarrow>
          (case as_string (ptr ob) of
             None \<Rightarrow> reply_wrongtype s1
           | Some v \<Rightarrow>
               reply_integer (int (length v + length (argv ! 2)))
                 (store_assign (argv ! 1) (ob\<lparr>ptr := PString (v @ argv ! 2)\<rparr>) s1)))"

definition cmd_strlen :: "command \<Rightarrow> st \<Rightarrow> st" where
  "cmd_strlen argv s =
     (if length argv \<noteq> 2 then reply_error (wrong_args ''strlen'') s
      else case lookup_key (argv ! 1) s of
        (None, s1) \<Rightarrow> reply_integer 0 s1
      | (Some ob, s1) \<Rightarrow>
          (case as_string (ptr ob) of
             None \<Rightarrow> reply_wrongtype s1
           | Some v \<Rightarrow> reply_integer (int (length v)) s1))"

text \<open>The bounds of \<open>GETRANGE\<close> within a string of length \<open>len\<close>, \<open>None\<close> when nothing is selected.\<close>

definition getrange_bounds :: "int \<Rightarrow> int \<Rightarrow> int \<Rightarrow> (int \<times> int) option" where
  "getrange_bounds len start stop =
     (let start1 = (if start < 0 then len + start else start);
          end1 = (if stop < 0 then len + stop else stop);
          start2 = (if start1 < 0 then 0 else start1);
          end2 = (if end1 \<ge> len then len - 1 else end1)
      in if start2 > end2 \<or> start2 \<ge> len then None else Some (start2, end2))"

definition cmd_getrange :: "command \<Rightarrow> st \<Rightarrow> st" where
  "cmd_getrange argv s =
     (if length argv \<noteq> 4 then reply_error (wrong_args ''getrange'') s
      else case (string_to_ll (argv ! 2), string_to_ll (argv ! 3)) of
        (Some start, Some stop) \<Rightarrow>
          (case lookup_key (argv ! 1) s of
             (None, s1) \<Rightarrow> reply_bulk_cstr [] s1
           | (Some ob, s1) \<Rightarrow>
               (case as_string (ptr ob) of
                  None \<Rightarrow> reply_wrongtype s1
                | Some v \<Rightarrow>
                    (case getrange_bounds (int (length v)) start stop of
                       None \<Rightarrow> reply_bulk_cstr [] s1
                     | Some (a, b) \<Rightarrow> reply_bulk (take (nat (b - a + 1)) (drop (nat a) v)) s1)))
      | _ \<Rightarrow> reply_error not_integer s)"

text \<open>The bytes of the object after \<open>SETRANGE\<close> at \<open>offset\<close>: padding, then \<open>memcpy\<close>.\<close>

definition setrange_bytes :: "bytes \<Rightarrow> nat \<Rightarrow> bytes \<Rightarrow> bytes" where
  "setrange_bytes old offset val =
     (let need = offset + length val;
          buf = (if need > length old then old @ replicate (need - length old) (CHR 0x00) else old)
      in take offset buf @ val @ drop (offset + length val) buf)"

definition cmd_setrange :: "command \<Rightarrow> st \<Rightarrow> st" where
  "cmd_setrange argv s =
     (if length argv \<noteq> 4 then reply_error (wrong_args ''setrange'') s
      else case string_to_ll (argv ! 2) of
        None \<Rightarrow> reply_error ''offset is out of range'' s
      | Some offset \<Rightarrow>
          if offset < 0 then reply_error ''offset is out of range'' s
          else case lookup_key (argv ! 1) s of (found, s1) \<Rightarrow>
            (case found of
               Some ob \<Rightarrow>
                 (case as_string (ptr ob) of
                    None \<Rightarrow> reply_wrongtype s1
                  | Some old \<Rightarrow>
                      let new = setrange_bytes old (nat offset) (argv ! 3)
                      in reply_integer (int (length new))
                           (store_assign (argv ! 1) (ob\<lparr>ptr := PString new\<rparr>) s1))
             | None \<Rightarrow>
                 let ob = robj_new_string []; s2 = store_set (argv ! 1) ob s1;
                     new = setrange_bytes [] (nat offset) (argv ! 3)
                 in reply_integer (int (length new))
                      (store_assign (argv ! 1) (ob\<lparr>ptr := PString new\<rparr>) s2)))"

definition cmd_rename :: "command \<Rightarrow> st \<Rightarrow> st" where
  "cmd_rename argv s =
     (if length argv \<noteq> 3 then reply_error (wrong_args ''rename'') s
      else if argv ! 1 = argv ! 2 then reply_error ''source and destination objects are the same'' s
      else case lookup_key (argv ! 1) s of
        (None, s1) \<Rightarrow> reply_error ''no such key'' s1
      | (Some ob, s1) \<Rightarrow>
          (case fst (dict_delete (store s1) (argv ! 1)) of
             Some moved \<Rightarrow>
               reply_simple ''OK'' (store_set (argv ! 2) moved (store_delete (argv ! 1) s1))
           | None \<Rightarrow> s1))"

definition cmd_setnx :: "command \<Rightarrow> st \<Rightarrow> st" where
  "cmd_setnx argv s =
     (if length argv \<noteq> 3 then reply_error (wrong_args ''setnx'') s
      else case lookup_key (argv ! 1) s of
        (Some ob, s1) \<Rightarrow> reply_integer 0 s1
      | (None, s1) \<Rightarrow> reply_integer 1 (store_set (argv ! 1) (robj_new_string (argv ! 2)) s1))"

definition cmd_setex :: "command \<Rightarrow> st \<Rightarrow> st" where
  "cmd_setex argv s =
     (if length argv \<noteq> 4 then reply_error (wrong_args ''setex'') s
      else case string_to_ll (argv ! 2) of
        None \<Rightarrow> reply_error (invalid_expire ''setex'') s
      | Some secs \<Rightarrow>
          if secs \<le> 0 \<or> secs > LLONG_MAX div 1000 then reply_error (invalid_expire ''setex'') s
          else let val = (robj_new_string (argv ! 3))\<lparr>expire_at := wrap64 (clock s + secs * 1000)\<rparr>
               in reply_simple ''OK'' (store_set (argv ! 1) val s))"

definition cmd_getset :: "command \<Rightarrow> st \<Rightarrow> st" where
  "cmd_getset argv s =
     (if length argv \<noteq> 3 then reply_error (wrong_args ''getset'') s
      else case lookup_key (argv ! 1) s of (found, s1) \<Rightarrow>
        if type_mismatch OBJ_STRING found then reply_wrongtype s1
        else let val = robj_new_string (argv ! 2)
             in case fst (dict_set (store s1) (argv ! 1) val) of
                  Some old \<Rightarrow>
                    (case as_string (ptr old) of
                       Some v \<Rightarrow> reply_bulk v (store_set (argv ! 1) val s1)
                     | None \<Rightarrow> store_set (argv ! 1) val s1)
                | None \<Rightarrow> reply_null (store_set (argv ! 1) val s1))"

definition cmd_del :: "command \<Rightarrow> st \<Rightarrow> st" where
  "cmd_del argv s =
     (if length argv < 2 then reply_error (wrong_args ''del'') s
      else case del_loop dict_delete (drop 1 argv) 0 (store s) of
        (n, d) \<Rightarrow> reply_integer (int n) (s\<lparr>store := d\<rparr>))"

fun exists_loop :: "bytes list \<Rightarrow> nat \<Rightarrow> st \<Rightarrow> nat \<times> st" where
  "exists_loop [] n s = (n, s)"
| "exists_loop (k # ks) n s =
     (case lookup_key k s of (ob, s1) \<Rightarrow> exists_loop ks (if ob = None then n else n + 1) s1)"

definition cmd_exists :: "command \<Rightarrow> st \<Rightarrow> st" where
  "cmd_exists argv s =
     (if length argv < 2 then reply_error (wrong_args ''exists'') s
      else case exists_loop (drop 1 argv) 0 s of (n, s1) \<Rightarrow> reply_integer (int n) s1)"

definition incr_decr :: "int \<Rightarrow> command \<Rightarrow> st \<Rightarrow> st" where
  "incr_decr delta argv s =
     (if length argv \<noteq> 2 then reply_error (wrong_args (argv ! 0)) s
      else case lookup_key (argv ! 1) s of (found, s1) \<Rightarrow>
        if type_mismatch OBJ_STRING found then reply_wrongtype s1
        else case (case found of
                     None \<Rightarrow> Some 0
                   | Some ob \<Rightarrow> Option.bind (as_string (ptr ob)) string_to_ll_n) of
          None \<Rightarrow> reply_error not_integer s1
        | Some v \<Rightarrow>
            let nv = wrap64 (v + delta) in
            if (delta > 0 \<and> nv < v) \<or> (delta < 0 \<and> nv > v)
            then reply_error would_overflow s1
            else let val = (robj_new_string_ll nv)
                       \<lparr>expire_at := (case found of Some ob \<Rightarrow> expire_at ob | None \<Rightarrow> - 1)\<rparr>
                 in reply_integer nv (store_set (argv ! 1) val s1))"

definition cmd_incr :: "command \<Rightarrow> st \<Rightarrow> st" where "cmd_incr = incr_decr 1"

definition cmd_decr :: "command \<Rightarrow> st \<Rightarrow> st" where "cmd_decr = incr_decr (- 1)"

definition cmd_expire_generic :: "bool \<Rightarrow> command \<Rightarrow> st \<Rightarrow> st" where
  "cmd_expire_generic is_ms argv s =
     (if length argv \<noteq> 3 then reply_error (wrong_args (argv ! 0)) s
      else case string_to_ll (argv ! 2) of
        None \<Rightarrow> reply_error (invalid_expire (argv ! 0)) s
      | Some v \<Rightarrow>
          if v < 0 then reply_error (invalid_expire (argv ! 0)) s
          else case lookup_key (argv ! 1) s of
            (None, s1) \<Rightarrow> reply_integer 0 s1
          | (Some ob, s1) \<Rightarrow>
              if \<not> is_ms \<and> v > LLONG_MAX div 1000 then reply_error (invalid_expire (argv ! 0)) s1
              else let ms = (if is_ms then v else v * 1000)
                   in reply_integer 1
                        (store_assign (argv ! 1) (ob\<lparr>expire_at := wrap64 (clock s + ms)\<rparr>) s1))"

definition cmd_expire :: "command \<Rightarrow> st \<Rightarrow> st" where "cmd_expire = cmd_expire_generic False"

definition cmd_pexpire :: "command \<Rightarrow> st \<Rightarrow> st" where "cmd_pexpire = cmd_expire_generic True"

definition cmd_expireat_generic :: "bool \<Rightarrow> command \<Rightarrow> st \<Rightarrow> st" where
  "cmd_expireat_generic is_ms argv s =
     (if length argv \<noteq> 3 then reply_error (wrong_args (argv ! 0)) s
      else case string_to_ll (argv ! 2) of
        None \<Rightarrow> reply_error (invalid_expire (argv ! 0)) s
      | Some ts \<Rightarrow>
          if ts < 0 then reply_error (invalid_expire (argv ! 0)) s
          else if \<not> is_ms \<and> ts > LLONG_MAX div 1000 then reply_error (invalid_expire (argv ! 0)) s
          else case lookup_key (argv ! 1) s of
            (None, s1) \<Rightarrow> reply_integer 0 s1
          | (Some ob, s1) \<Rightarrow>
              reply_integer 1
                (store_assign (argv ! 1) (ob\<lparr>expire_at := if is_ms then ts else ts * 1000\<rparr>) s1))"

definition cmd_expireat :: "command \<Rightarrow> st \<Rightarrow> st" where "cmd_expireat = cmd_expireat_generic False"

definition cmd_pexpireat :: "command \<Rightarrow> st \<Rightarrow> st" where "cmd_pexpireat = cmd_expireat_generic True"

definition cmd_ttl_generic :: "bool \<Rightarrow> command \<Rightarrow> st \<Rightarrow> st" where
  "cmd_ttl_generic is_ms argv s =
     (if length argv \<noteq> 2 then reply_error (wrong_args (argv ! 0)) s
      else case lookup_key (argv ! 1) s of
        (None, s1) \<Rightarrow> reply_integer (- 2) s1
      | (Some ob, s1) \<Rightarrow>
          if expire_at ob < 0 then reply_integer (- 1) s1
          else let rem = expire_at ob - clock s; rem1 = (if rem < 0 then 0 else rem)
               in reply_integer (if is_ms then rem1 else c_div (wrap64 (rem1 + 500)) 1000) s1)"

definition cmd_ttl :: "command \<Rightarrow> st \<Rightarrow> st" where "cmd_ttl = cmd_ttl_generic False"

definition cmd_pttl :: "command \<Rightarrow> st \<Rightarrow> st" where "cmd_pttl = cmd_ttl_generic True"

definition cmd_type :: "command \<Rightarrow> st \<Rightarrow> st" where
  "cmd_type argv s =
     (if length argv \<noteq> 2 then reply_error (wrong_args ''type'') s
      else case lookup_key (argv ! 1) s of
        (None, s1) \<Rightarrow> reply_simple ''none'' s1
      | (Some ob, s1) \<Rightarrow> reply_simple (type_name (type_of (ptr ob))) s1)"

definition keys_match :: "bytes \<Rightarrow> int \<Rightarrow> robj dict_entry \<Rightarrow> bool" where
  "keys_match pat now e = (\<not> key_expired now (evalue e) \<and> util_glob_match pat (ekey e))"

definition cmd_keys :: "command \<Rightarrow> st \<Rightarrow> st" where
  "cmd_keys argv s =
     (if length argv \<noteq> 2 then reply_error (wrong_args ''keys'') s
      else let pat = argv ! 1;
               count = length (filter (keys_match pat (clock s)) (dict_entries (store s)))
           in reply_bulks (map ekey (filter (keys_match pat (clock s)) (dict_entries (store s))))
                (reply_array_header count s))"

definition cmd_flushall :: "command \<Rightarrow> st \<Rightarrow> st" where
  "cmd_flushall argv s =
     (if length argv \<noteq> 1 then reply_error (wrong_args ''flushall'') s
      else case new_seed s of (seed, s1) \<Rightarrow> reply_simple ''OK'' (s1\<lparr>store := dict_create seed\<rparr>))"

definition cmd_dbsize :: "command \<Rightarrow> st \<Rightarrow> st" where
  "cmd_dbsize argv s =
     (if length argv \<noteq> 1 then reply_error (wrong_args ''dbsize'') s
      else reply_integer (int (db_size s)) s)"

definition info_text :: "int \<Rightarrow> nat \<Rightarrow> bytes" where
  "info_text uptime n =
     ''# Server'' @ crlf @ ''redis_version:6.2.0-miniredis'' @ crlf @
     ''uptime_in_seconds:'' @ show_int uptime @ crlf @ crlf @
     ''# Keyspace'' @ crlf @ ''db0:keys='' @ show_nat n @ '',expires=0,avg_ttl=0'' @ crlf"

definition cmd_info :: "command \<Rightarrow> st \<Rightarrow> st" where
  "cmd_info argv s =
     (let uptime = c_div (clock s - start_ms s) 1000;
          b = dynbuf_appendf (junk s) dynbuf_init (info_text uptime (db_size s))
      in reply_bulk (contents b) s)"

definition cmd_command :: "command \<Rightarrow> st \<Rightarrow> st" where
  "cmd_command argv s = reply_array_header 0 s"

definition cmd_select :: "command \<Rightarrow> st \<Rightarrow> st" where
  "cmd_select argv s =
     (if length argv \<noteq> 2 then reply_error (wrong_args ''select'') s
      else case string_to_ll (argv ! 1) of
        None \<Rightarrow> reply_error ''invalid DB index'' s
      | Some idx \<Rightarrow> if idx < 0 then reply_error ''invalid DB index'' s else reply_simple ''OK'' s)"

definition cmd_quit :: "command \<Rightarrow> st \<Rightarrow> st" where
  "cmd_quit argv s = (reply_simple ''OK'' s)\<lparr>closing := True\<rparr>"

section \<open>What they do\<close>

text \<open>
  The abstract operations. A command that needs a string treats any other type as an error and
  leaves the keyspace as it is.
\<close>

definition spec_ping :: spec where
  "spec_ping argv now v =
     (if length argv > 2 then err (wrong_args ''ping'')
      else if length argv = 2 then RBulk (cstr (argv ! 1)) else RSimple ''PONG'', v)"

definition spec_echo :: spec where
  "spec_echo argv now v =
     (if length argv \<noteq> 2 then err (wrong_args ''echo'') else RBulk (cstr (argv ! 1)), v)"

definition spec_command :: spec where
  "spec_command argv now v = (RArray [], v)"

text \<open>
  The options of \<open>SET\<close> as words: conditions, and times given as \<open>EX\<close>, \<open>PX\<close> (from now on) or \<open>EXAT\<close>,
  \<open>PXAT\<close> (since the epoch), in seconds or milliseconds. A time is positive and fits a \<open>long long\<close> in
  milliseconds. The last time counts.
\<close>

datatype set_option = Only_new | Only_existing | Lifetime int | Deadline int

definition time_option :: "bytes \<Rightarrow> ((int \<Rightarrow> set_option) \<times> int) option" where
  "time_option a =
     (if strcaseeq a ''EX'' then Some (Lifetime, 1000)
      else if strcaseeq a ''PX'' then Some (Lifetime, 1)
      else if strcaseeq a ''EXAT'' then Some (Deadline, 1000)
      else if strcaseeq a ''PXAT'' then Some (Deadline, 1)
      else None)"

fun set_options :: "bytes list \<Rightarrow> bytes + set_option list" where
  "set_options [] = Inr []"
| "set_options (a # args) =
     (case time_option a of
        Some (kind, unit) \<Rightarrow>
          (case args of
             [] \<Rightarrow> Inl ''syntax error''
           | x # args' \<Rightarrow>
               (case string_to_ll x of
                  Some n \<Rightarrow>
                    if 0 < n \<and> unit * n \<le> LLONG_MAX then map_sum id ((#) (kind (unit * n))) (set_options args')
                    else Inl (invalid_expire ''set'')
                | None \<Rightarrow> Inl (invalid_expire ''set'')))
      | None \<Rightarrow>
          if strcaseeq a ''NX'' then map_sum id ((#) Only_new) (set_options args)
          else if strcaseeq a ''XX'' then map_sum id ((#) Only_existing) (set_options args)
          else Inl ''syntax error'')"

fun last_deadline :: "int \<Rightarrow> set_option list \<Rightarrow> int option \<Rightarrow> int option" where
  "last_deadline now [] d = d"
| "last_deadline now (Lifetime ms # opts) d = last_deadline now opts (Some (now + ms))"
| "last_deadline now (Deadline ms # opts) d = last_deadline now opts (Some ms)"
| "last_deadline now (_ # opts) d = last_deadline now opts d"

text \<open>A deadline that has passed is stored as none; that of a long lifetime may wrap around.\<close>

definition stored_deadline :: "int \<Rightarrow> int option \<Rightarrow> int" where
  "stored_deadline now d = (case d of None \<Rightarrow> - 1 | Some t \<Rightarrow> if t < now then - 1 else wrap64 t)"

definition spec_set :: spec where
  "spec_set argv now v =
     (if length argv < 3 then (err (wrong_args ''set''), v)
      else case set_options (drop 3 argv) of
        Inl m \<Rightarrow> (err m, v)
      | Inr opts \<Rightarrow>
          if Only_new \<in> set opts \<and> Only_existing \<in> set opts then (err ''syntax error'', v)
          else if Only_new \<in> set opts \<and> argv ! 1 \<in> dom v \<or> Only_existing \<in> set opts \<and> argv ! 1 \<notin> dom v
          then (RNull, v)
          else (ok_reply, aput now (argv ! 1) (AString (argv ! 2)) (stored_deadline now (last_deadline now opts None)) v))"

definition spec_get :: spec where
  "spec_get argv now v =
     (if length argv \<noteq> 2 then (err (wrong_args ''get''), v)
      else on_string v (argv ! 1) (RNull, v) (\<lambda>x e. (RBulk x, v)))"

definition string_at :: "view \<Rightarrow> bytes \<Rightarrow> reply" where
  "string_at v k = (case v k of Some (AString x, e) \<Rightarrow> RBulk x | _ \<Rightarrow> RNull)"

definition spec_mget :: spec where
  "spec_mget argv now v =
     (if length argv < 2 then (err (wrong_args ''mget''), v)
      else (RArray (map (string_at v) (drop 1 argv)), v))"

fun mset_view :: "bytes list \<Rightarrow> view \<Rightarrow> view" where
  "mset_view (k # x # rest) v = mset_view rest (v(k \<mapsto> (AString x, - 1)))"
| "mset_view _ v = v"

definition spec_mset :: spec where
  "spec_mset argv now v =
     (if length argv < 3 \<or> odd (length argv - 1) then (err (wrong_args ''mset''), v)
      else (ok_reply, mset_view (drop 1 argv) v))"

definition spec_append :: spec where
  "spec_append argv now v =
     (if length argv \<noteq> 3 then (err (wrong_args ''append''), v)
      else on_string v (argv ! 1)
        (RInt (int (length (argv ! 2))), v(argv ! 1 \<mapsto> (AString (argv ! 2), - 1)))
        (\<lambda>x e. (RInt (int (length x + length (argv ! 2))), v(argv ! 1 \<mapsto> (AString (x @ argv ! 2), e)))))"

definition spec_strlen :: spec where
  "spec_strlen argv now v =
     (if length argv \<noteq> 2 then (err (wrong_args ''strlen''), v)
      else on_string v (argv ! 1) (RInt 0, v) (\<lambda>x e. (RInt (int (length x)), v)))"

definition spec_getrange :: spec where
  "spec_getrange argv now v =
     (if length argv \<noteq> 4 then (err (wrong_args ''getrange''), v)
      else case (string_to_ll (argv ! 2), string_to_ll (argv ! 3)) of
        (Some i, Some j) \<Rightarrow>
          on_string v (argv ! 1) (RBulk [], v) (\<lambda>x e. (RBulk (lslice x i j), v))
      | _ \<Rightarrow> (err not_integer, v))"

definition spec_setrange :: spec where
  "spec_setrange argv now v =
     (if length argv \<noteq> 4 then (err (wrong_args ''setrange''), v)
      else case string_to_ll (argv ! 2) of
        None \<Rightarrow> (err ''offset is out of range'', v)
      | Some i \<Rightarrow>
          if i < 0 then (err ''offset is out of range'', v)
          else on_string v (argv ! 1)
            (RInt (int (length (overlay [] (nat i) (argv ! 3)))),
             v(argv ! 1 \<mapsto> (AString (overlay [] (nat i) (argv ! 3)), - 1)))
            (\<lambda>x e. (RInt (int (length (overlay x (nat i) (argv ! 3)))),
                     v(argv ! 1 \<mapsto> (AString (overlay x (nat i) (argv ! 3)), e)))))"

definition spec_rename :: spec where
  "spec_rename argv now v =
     (if length argv \<noteq> 3 then (err (wrong_args ''rename''), v)
      else if argv ! 1 = argv ! 2 then (err ''source and destination objects are the same'', v)
      else case v (argv ! 1) of
        None \<Rightarrow> (err ''no such key'', v)
      | Some x \<Rightarrow> (ok_reply, v(argv ! 1 := None, argv ! 2 \<mapsto> x)))"

definition spec_setnx :: spec where
  "spec_setnx argv now v =
     (if length argv \<noteq> 3 then (err (wrong_args ''setnx''), v)
      else if argv ! 1 \<in> dom v then (RInt 0, v)
      else (RInt 1, v(argv ! 1 \<mapsto> (AString (argv ! 2), - 1))))"

definition spec_setex :: spec where
  "spec_setex argv now v =
     (if length argv \<noteq> 4 then (err (wrong_args ''setex''), v)
      else case string_to_ll (argv ! 2) of
        None \<Rightarrow> (err (invalid_expire ''setex''), v)
      | Some n \<Rightarrow>
          if n \<le> 0 \<or> n > LLONG_MAX div 1000 then (err (invalid_expire ''setex''), v)
          else (ok_reply, aput now (argv ! 1) (AString (argv ! 3)) (wrap64 (now + n * 1000)) v))"

definition spec_getset :: spec where
  "spec_getset argv now v =
     (if length argv \<noteq> 3 then (err (wrong_args ''getset''), v)
      else let w = v(argv ! 1 \<mapsto> (AString (argv ! 2), - 1))
           in on_string v (argv ! 1) (RNull, w) (\<lambda>x e. (RBulk x, w)))"

definition spec_exists :: spec where
  "spec_exists argv now v =
     (if length argv < 2 then (err (wrong_args ''exists''), v)
      else (RInt (int (length (filter (\<lambda>k. k \<in> dom v) (drop 1 argv)))), v))"

text \<open>Addition on the integers; a result outside \<open>long long\<close> is an error.\<close>

definition spec_incr :: "int \<Rightarrow> spec" where
  "spec_incr delta argv now v =
     (if length argv \<noteq> 2 then (err (wrong_args (argv ! 0)), v)
      else let incr = (\<lambda>i e. if LLONG_MIN \<le> i + delta \<and> i + delta \<le> LLONG_MAX
                 then (RInt (i + delta), v(argv ! 1 \<mapsto> (AString (show_int (i + delta)), e)))
                 else (err would_overflow, v))
           in on_string v (argv ! 1) (incr 0 (- 1))
                (\<lambda>x e. case string_to_ll_n x of None \<Rightarrow> (err not_integer, v) | Some i \<Rightarrow> incr i e))"

definition spec_expire :: "bool \<Rightarrow> spec" where
  "spec_expire is_ms argv now v =
     (if length argv \<noteq> 3 then (err (wrong_args (argv ! 0)), v)
      else case string_to_ll (argv ! 2) of
        None \<Rightarrow> (err (invalid_expire (argv ! 0)), v)
      | Some n \<Rightarrow>
          if n < 0 then (err (invalid_expire (argv ! 0)), v)
          else case v (argv ! 1) of
            None \<Rightarrow> (RInt 0, v)
          | Some (a, e) \<Rightarrow>
              if \<not> is_ms \<and> n > LLONG_MAX div 1000 then (err (invalid_expire (argv ! 0)), v)
              else (RInt 1, aput now (argv ! 1) a (wrap64 (now + (if is_ms then n else n * 1000))) v))"

definition spec_expireat :: "bool \<Rightarrow> spec" where
  "spec_expireat is_ms argv now v =
     (if length argv \<noteq> 3 then (err (wrong_args (argv ! 0)), v)
      else case string_to_ll (argv ! 2) of
        None \<Rightarrow> (err (invalid_expire (argv ! 0)), v)
      | Some n \<Rightarrow>
          if n < 0 \<or> \<not> is_ms \<and> n > LLONG_MAX div 1000 then (err (invalid_expire (argv ! 0)), v)
          else case v (argv ! 1) of
            None \<Rightarrow> (RInt 0, v)
          | Some (a, e) \<Rightarrow> (RInt 1, aput now (argv ! 1) a (if is_ms then n else n * 1000) v))"

definition spec_ttl :: "bool \<Rightarrow> spec" where
  "spec_ttl is_ms argv now v =
     (if length argv \<noteq> 2 then (err (wrong_args (argv ! 0)), v)
      else case v (argv ! 1) of
        None \<Rightarrow> (RInt (- 2), v)
      | Some (a, e) \<Rightarrow>
          (RInt (if e < 0 then - 1 else if is_ms then e - now
                 else c_div (wrap64 (e - now + 500)) 1000), v))"

fun atype :: "aval \<Rightarrow> obj_type" where
  "atype (AString _) = OBJ_STRING"
| "atype (AList _) = OBJ_LIST"
| "atype (AHash _) = OBJ_HASH"
| "atype (ASet _) = OBJ_SET"
| "atype (AZset _) = OBJ_ZSET"

definition spec_type :: spec where
  "spec_type argv now v =
     (if length argv \<noteq> 2 then (err (wrong_args ''type''), v)
      else case v (argv ! 1) of
        None \<Rightarrow> (RSimple ''none'', v)
      | Some (a, e) \<Rightarrow> (RSimple (type_name (atype a)), v))"

definition spec_flushall :: spec where
  "spec_flushall argv now v =
     (if length argv \<noteq> 1 then (err (wrong_args ''flushall''), v) else (ok_reply, Map.empty))"

definition spec_select :: spec where
  "spec_select argv now v =
     (if length argv \<noteq> 2 then err (wrong_args ''select'')
      else case string_to_ll (argv ! 1) of
        None \<Rightarrow> err ''invalid DB index''
      | Some i \<Rightarrow> if i < 0 then err ''invalid DB index'' else ok_reply, v)"

section \<open>Proofs\<close>

lemma atype_abs [simp]: "atype (abs_payload p) = type_of p"
  by (cases p) simp_all

lemma robj_new_string_sel [simp]:
  "ptr (robj_new_string x) = PString x" "expire_at (robj_new_string x) = - 1"
  "ptr (robj_new_string_ll n) = PString (show_int n)"
  by (simp_all add: robj_new_string_def robj_new_string_ll_def)

lemma implements_ping: "implements cmd_ping spec_ping"
  by (rule implementsI) (simp add: cmd_ping_def spec_ping_def)

lemma implements_echo: "implements cmd_echo spec_echo"
  by (rule implementsI) (simp add: cmd_echo_def spec_echo_def)

text \<open>The loop of \<open>cmd_set\<close> keeps the time that remains; \<open>- 1\<close> stands for none.\<close>

definition remaining :: "int \<Rightarrow> int option \<Rightarrow> int" where
  "remaining now d = (case d of None \<Rightarrow> - 1 | Some t \<Rightarrow> t - now)"

lemma remaining_simps: "remaining now None = - 1" "remaining now (Some t) = t - now"
  by (simp_all add: remaining_def)

lemma set_opts_other:
  assumes "time_option a = None"
  shows "set_opts now (a # args) nx xx e =
    (if strcaseeq a ''NX'' then set_opts now args True xx e
     else if strcaseeq a ''XX'' then set_opts now args nx True e
     else Inl ''syntax error'')"
proof -
  have "\<not> strcaseeq a ''EX''" "\<not> strcaseeq a ''PX''" "\<not> strcaseeq a ''EXAT''" "\<not> strcaseeq a ''PXAT''"
    using assms by (simp_all add: time_option_def split: if_splits)
  then show ?thesis by simp
qed

lemma set_opts_time:
  assumes "time_option a = Some (kind, unit)"
  shows "set_opts now [a] nx xx e = Inl ''syntax error''"
    and "string_to_ll x = None \<Longrightarrow> set_opts now (a # x # args) nx xx e = Inl (invalid_expire ''set'')"
    and "string_to_ll x = Some n \<Longrightarrow> set_opts now (a # x # args) nx xx e =
      (if 0 < n \<and> unit * n \<le> LLONG_MAX
       then set_opts now args nx xx (remaining now (last_deadline now [kind (unit * n)] None))
       else Inl (invalid_expire ''set''))"
proof -
  consider "strcaseeq a ''EX''" "kind = Lifetime" "unit = 1000"
    | "\<not> strcaseeq a ''EX''" "strcaseeq a ''PX''" "kind = Lifetime" "unit = 1"
    | "\<not> strcaseeq a ''EX''" "\<not> strcaseeq a ''PX''" "strcaseeq a ''EXAT''" "kind = Deadline" "unit = 1000"
    | "\<not> strcaseeq a ''EX''" "\<not> strcaseeq a ''PX''" "\<not> strcaseeq a ''EXAT''" "strcaseeq a ''PXAT''" "kind = Deadline" "unit = 1"
    using assms by (auto simp: time_option_def split: if_splits)
  note kinds = this
  show "set_opts now [a] nx xx e = Inl ''syntax error''" by (cases rule: kinds) simp_all
  show "set_opts now (a # x # args) nx xx e = Inl (invalid_expire ''set'')" if "string_to_ll x = None"
    using that by (cases rule: kinds) simp_all
  assume n: "string_to_ll x = Some n"
  then have "n \<le> LLONG_MAX" using string_to_ll_range by blast
  with n show "set_opts now (a # x # args) nx xx e =
      (if 0 < n \<and> unit * n \<le> LLONG_MAX
       then set_opts now args nx xx (remaining now (last_deadline now [kind (unit * n)] None))
       else Inl (invalid_expire ''set''))"
    by (cases rule: kinds) (simp_all add: remaining_simps mult.commute)
qed

lemma time_option_kind:
  assumes "time_option a = Some (kind, unit)"
  obtains t where "\<And>opts d. last_deadline now (kind ms # opts) d = last_deadline now opts (Some t)"
    "kind ms \<noteq> Only_new" "kind ms \<noteq> Only_existing"
  using assms that [of "now + ms"] that [of ms] by (auto simp: time_option_def split: if_splits)

lemma set_opts_options:
  "set_opts now args nx xx (remaining now d) =
     (case set_options args of
        Inl m \<Rightarrow> Inl m
      | Inr opts \<Rightarrow>
          Inr (nx \<or> Only_new \<in> set opts, xx \<or> Only_existing \<in> set opts, remaining now (last_deadline now opts d)))"
proof (induction args arbitrary: nx xx d rule: set_options.induct)
  case (2 a args)
  show ?case
  proof (cases "time_option a")
    case None
    then show ?thesis using 2(1,2) [OF None] by (simp add: set_opts_other del: set_opts.simps(2) split: sum.split)
  next
    case (Some p)
    then obtain kind unit where t: "time_option a = Some (kind, unit)" by (cases p) auto
    show ?thesis
    proof (cases args)
      case Nil
      then show ?thesis using t by (simp add: set_opts_time(1) del: set_opts.simps(2))
    next
      case (Cons x args')
      show ?thesis
      proof (cases "string_to_ll x")
        case None
        then show ?thesis using t Cons by (simp add: set_opts_time(2) del: set_opts.simps(2))
      next
        case n: (Some n)
        obtain e where e: "\<And>opts d. last_deadline now (kind (unit * n) # opts) d = last_deadline now opts (Some e)"
          "kind (unit * n) \<noteq> Only_new" "kind (unit * n) \<noteq> Only_existing"
          using time_option_kind [OF t] by blast
        show ?thesis
          using 2(3) [OF t refl Cons n, of nx xx "Some e"] Cons n t e(2,3)
          by (simp add: set_opts_time(3) e(1) not_sym [OF e(2)] not_sym [OF e(3)] del: set_opts.simps(2) split: sum.split)
      qed
    qed
  qed
qed simp

lemma set_expiry_deadline: "set_expiry now (remaining now d) = stored_deadline now d"
  by (simp add: set_expiry_def stored_deadline_def remaining_def split: option.split)

lemma spec_set_opts:
  "spec_set argv now v =
     (if length argv < 3 then (err (wrong_args ''set''), v)
      else case set_opts now (drop 3 argv) False False (- 1) of
        Inl m \<Rightarrow> (err m, v)
      | Inr (nx, xx, expire_ms) \<Rightarrow>
          if nx \<and> xx then (err ''syntax error'', v)
          else if nx \<and> argv ! 1 \<in> dom v \<or> xx \<and> argv ! 1 \<notin> dom v then (RNull, v)
          else (ok_reply, aput now (argv ! 1) (AString (argv ! 2)) (set_expiry now expire_ms) v))"
  using set_opts_options [of now "drop 3 argv" False False None]
  by (simp add: spec_set_def remaining_simps set_expiry_deadline split: sum.split)

lemma implements_set: "implements cmd_set spec_set"
  apply (rule implementsI)
  subgoal for argv s
    by (cases "set_opts (clock s) (drop 3 argv) False False (- 1)";
        cases rule: lookup_key_cases [of s "argv ! 1"])
      (auto simp: cmd_set_def spec_set_opts split_def Let_def)
  done

lemma implements_get: "implements cmd_get spec_get"
  apply (rule implementsI)
  subgoal for argv s
    by (cases rule: string_cases [of s "argv ! 1"]) (simp_all add: cmd_get_def spec_get_def)
  done

lemma implements_append: "implements cmd_append spec_append"
  apply (rule implementsI)
  subgoal for argv s
    by (cases rule: string_cases [of s "argv ! 1"]) (simp_all add: cmd_append_def spec_append_def)
  done

lemma implements_strlen: "implements cmd_strlen spec_strlen"
  apply (rule implementsI)
  subgoal for argv s
    by (cases rule: string_cases [of s "argv ! 1"]) (simp_all add: cmd_strlen_def spec_strlen_def)
  done

lemma getrange_bounds_slice:
  "(case getrange_bounds (int (length x)) i j of None \<Rightarrow> []
    | Some (a, b) \<Rightarrow> take (nat (b - a + 1)) (drop (nat a) x)) = lslice x i j"
proof (cases "getrange_bounds (int (length x)) i j")
  case None
  then have "position (length x) j < max 0 (position (length x) i) \<or>
      int (length x) \<le> max 0 (position (length x) i) \<or> x = []"
    by (auto simp: getrange_bounds_def position_def Let_def split: if_splits)
  then have "lslice x i j = []" by (auto simp: lslice_def)
  with None show ?thesis by simp
next
  case (Some p)
  then have "p = (max 0 (position (length x) i), min (int (length x) - 1) (position (length x) j))"
    by (auto simp: getrange_bounds_def position_def Let_def split: if_splits)
  then show ?thesis using Some by (auto simp: lslice_def min_def diff_add_eq)
qed

lemma implements_getrange: "implements cmd_getrange spec_getrange"
  apply (rule implementsI)
  subgoal for argv s
    by (cases rule: string_cases [of s "argv ! 1"]; cases "string_to_ll (argv ! 2)";
        cases "string_to_ll (argv ! 3)")
      (auto simp: cmd_getrange_def spec_getrange_def getrange_bounds_slice [symmetric] split: option.split)
  done

lemma setrange_overlay: "setrange_bytes old i val = overlay old i val"
  by (auto simp: setrange_bytes_def overlay_def Let_def)

lemma implements_setrange: "implements cmd_setrange spec_setrange"
  apply (rule implementsI)
  subgoal for argv s
    by (cases rule: string_cases [of s "argv ! 1"]; cases "string_to_ll (argv ! 2)")
      (simp_all add: cmd_setrange_def spec_setrange_def setrange_overlay Let_def)
  done

lemma implements_rename: "implements cmd_rename spec_rename"
  apply (rule implementsI)
  subgoal for argv s
    by (cases rule: lookup_key_cases [of s "argv ! 1"])
      (simp_all add: cmd_rename_def spec_rename_def st_ok_store dict_delete_eqs)
  done

lemma implements_setnx: "implements cmd_setnx spec_setnx"
  apply (rule implementsI)
  subgoal for argv s
    by (cases rule: lookup_key_cases [of s "argv ! 1"])
      (auto simp: cmd_setnx_def spec_setnx_def)
  done

lemma implements_setex: "implements cmd_setex spec_setex"
  by (rule implementsI) (auto simp: cmd_setex_def spec_setex_def Let_def split: option.splits)

lemma implements_getset: "implements cmd_getset spec_getset"
  apply (rule implementsI)
  subgoal for argv s
    by (cases rule: string_cases [of s "argv ! 1"])
      (simp_all add: cmd_getset_def spec_getset_def Let_def st_ok_store dict_set_eqs)
  done

lemma mget_loop_correct:
  assumes "st_ok s"
  shows "st_ok (mget_loop ks s) \<and> view (mget_loop ks s) = view s \<and> clock (mget_loop ks s) = clock s \<and>
    closing (mget_loop ks s) = closing s \<and> start_ms (mget_loop ks s) = start_ms s \<and>
    seeds (mget_loop ks s) = seeds s \<and> rands (mget_loop ks s) = rands s \<and>
    outb (mget_loop ks s) = outb s @ concat (map encode (map (string_at (view s)) ks))"
  using assms
proof (induction ks arbitrary: s)
  case (Cons k ks)
  from Cons.prems show ?case
  proof (cases rule: lookup_key_cases [of s k])
    case (absent s1)
    then show ?thesis using Cons.IH [of "reply_null s1"] by (simp add: string_at_def)
  next
    case (present ob)
    then show ?thesis
      using Cons.IH [of "reply_null s"] Cons.IH [of "reply_bulk x s" for x]
      by (cases "ptr ob") (simp_all add: string_at_def)
  qed
qed simp

lemma implements_mget: "implements cmd_mget spec_mget"
  apply (rule implementsI)
  subgoal for argv s
    using mget_loop_correct [of "reply_array_header (length argv - 1) s" "drop 1 argv"]
      encode_array [of "map (string_at (view s)) (drop 1 argv)"]
    by (simp add: cmd_mget_def spec_mget_def)
  done

lemma mset_loop_correct:
  "st_ok s \<Longrightarrow> st_ok (mset_loop kvs s) \<and> view (mset_loop kvs s) = mset_view kvs (view s) \<and>
    clock (mset_loop kvs s) = clock s \<and> closing (mset_loop kvs s) = closing s \<and>
    start_ms (mset_loop kvs s) = start_ms s \<and> seeds (mset_loop kvs s) = seeds s \<and>
    rands (mset_loop kvs s) = rands s \<and> outb (mset_loop kvs s) = outb s"
  by (induction kvs s rule: mset_loop.induct) simp_all

lemma implements_mset: "implements cmd_mset spec_mset"
  apply (rule implementsI)
  subgoal for argv s
    using mset_loop_correct [of s "drop 1 argv"] by (simp add: cmd_mset_def spec_mset_def)
  done

lemma exists_loop_correct:
  assumes "st_ok s"
  shows "\<exists>s1. exists_loop ks n s = (n + length (filter (\<lambda>k. k \<in> dom (view s)) ks), s1) \<and> gives s s1 (view s) []"
  using assms
proof (induction ks arbitrary: n s)
  case (Cons k ks)
  from Cons.prems show ?case
  proof (cases rule: lookup_key_cases [of s k])
    case (absent s1)
    then show ?thesis using Cons.IH [of s1 n] by (auto simp: gives_def)
  next
    case (present ob)
    then show ?thesis using Cons.IH [of s "n + 1"] by (auto simp: gives_def)
  qed
qed (simp add: gives_refl)

lemma implements_exists: "implements cmd_exists spec_exists"
  apply (rule implementsI)
  subgoal for argv s
    using exists_loop_correct [of s "drop 1 argv" 0]
    by (auto simp: cmd_exists_def spec_exists_def gives_def)
  done

lemma implements_incr:
  assumes "delta = 1 \<or> delta = - 1"
  shows "implements (incr_decr delta) (spec_incr delta)"
proof (rule implementsI, goal_cases)
  case (1 argv s)
  have over: "(delta > 0 \<and> wrap64 (i + delta) < i \<or> delta < 0 \<and> wrap64 (i + delta) > i) \<longleftrightarrow>
      \<not> (LLONG_MIN \<le> i + delta \<and> i + delta \<le> LLONG_MAX)" if "- LLONG_MAX \<le> i" "i \<le> LLONG_MAX" for i
    using that assms by (intro add_overflow) auto
  from 1 show ?case
  proof (cases rule: string_cases [of s "argv ! 1"])
    case (absent s1)
    then show ?thesis using assms 1 by (auto simp: incr_decr_def spec_incr_def)
  next
    case (present ob x)
    then show ?thesis
      using over string_to_ll_n_range [of x]
      by (cases "string_to_ll_n x") (simp_all add: incr_decr_def spec_incr_def Let_def)
  next
    case (other ob)
    then show ?thesis by (simp add: incr_decr_def spec_incr_def)
  qed
qed

lemma implements_expire: "implements (cmd_expire_generic is_ms) (spec_expire is_ms)"
  apply (rule implementsI)
  subgoal for argv s
    by (cases rule: lookup_key_cases [of s "argv ! 1"]; cases "string_to_ll (argv ! 2)")
      (simp_all add: cmd_expire_generic_def spec_expire_def Let_def)
  done

lemma implements_expireat: "implements (cmd_expireat_generic is_ms) (spec_expireat is_ms)"
  apply (rule implementsI)
  subgoal for argv s
    by (cases rule: lookup_key_cases [of s "argv ! 1"]; cases "string_to_ll (argv ! 2)")
      (simp_all add: cmd_expireat_generic_def spec_expireat_def)
  done

lemma implements_ttl: "implements (cmd_ttl_generic is_ms) (spec_ttl is_ms)"
  apply (rule implementsI)
  subgoal for argv s
    by (cases rule: lookup_key_cases [of s "argv ! 1"])
      (auto simp: cmd_ttl_generic_def spec_ttl_def Let_def key_expired_def)
  done

lemma implements_type: "implements cmd_type spec_type"
  apply (rule implementsI)
  subgoal for argv s
    by (cases rule: lookup_key_cases [of s "argv ! 1"]) (simp_all add: cmd_type_def spec_type_def)
  done

lemma implements_flushall: "implements cmd_flushall spec_flushall"
  by (rule implementsI) (simp add: cmd_flushall_def spec_flushall_def new_seed_def)

lemma implements_select: "implements cmd_select spec_select"
  by (rule implementsI) (auto simp: cmd_select_def spec_select_def split: option.split)

lemma implements_command: "implements cmd_command spec_command"
  by (rule implementsI) (simp add: cmd_command_def spec_command_def encode.simps)

lemma cmd_quit_correct:
  "st_ok s \<Longrightarrow> gives s ((cmd_quit argv s)\<lparr>closing := closing s\<rparr>) (view s) (encode ok_reply)"
  "closing (cmd_quit argv s)"
  by (simp_all add: cmd_quit_def gives_def)

section \<open>Commands that see expired keys or the order of the table\<close>

text \<open>A key of the view is a key of the table; the table may hold more.\<close>

lemma view_dom: "dom (view s) \<subseteq> dom (dict_get (store s))"
  by (auto simp: view_at split: option.splits)

lemma db_size_view: "st_ok s \<Longrightarrow> card (dom (view s)) \<le> db_size s"
  using view_dom [of s] ds.finite_dom [of "store s"] ds.count_card [of "store s"]
  by (simp add: st_ok_def db_size_def card_mono)

definition spec_dbsize :: spec_set where
  "spec_dbsize argv now v =
     (if length argv \<noteq> 1 then {(err (wrong_args ''dbsize''), v)}
      else {(RInt (int n), v) | n. card (dom v) \<le> n})"

lemma allows_dbsize: "allows cmd_dbsize spec_dbsize"
  using db_size_view by (intro allowsI) (auto simp: cmd_dbsize_def spec_dbsize_def gives_def)

definition info_lines :: "int \<Rightarrow> nat \<Rightarrow> bytes" where
  "info_lines up n =
     concat (map (\<lambda>l. l @ crlf)
       [''# Server'', ''redis_version:6.2.0-miniredis'', ''uptime_in_seconds:'' @ show_int up, [],
        ''# Keyspace'', ''db0:keys='' @ show_nat n @ '',expires=0,avg_ttl=0''])"

lemma info_text_lines: "info_text up n = info_lines up n"
  by (simp add: info_text_def info_lines_def)

definition spec_info :: spec_set where
  "spec_info argv now v = {(RBulk (info_lines up n), v) | up n. card (dom v) \<le> n}"

lemma allows_info: "allows cmd_info spec_info"
  using db_size_view
  by (intro allowsI)
    (auto simp: cmd_info_def spec_info_def info_text_lines Let_def gives_def ob.append_text dynbuf_init_ok)

text \<open>\<open>DEL\<close> removes the keys; it also counts those that had expired but were still stored.\<close>

definition spec_del :: spec_set where
  "spec_del argv now v =
     (if length argv < 2 then {(err (wrong_args ''del''), v)}
      else {(RInt (int n), v |` (- set (drop 1 argv))) | n.
              card (set (drop 1 argv) \<inter> dom v) \<le> n \<and> n \<le> card (set (drop 1 argv))})"

lemma view_of_restrict:
  assumes "dict_get d' = dict_get d |` A"
  shows "view_of now d' = view_of now d |` A"
  using assms by (auto simp: view_of_def fun_eq_iff restrict_map_def)

lemma del_correct:
  assumes "st_ok s" "2 \<le> length argv"
  shows "gives s (cmd_del argv s) (view s |` (- set (drop 1 argv)))
    (encode (RInt (int (card (set (drop 1 argv) \<inter> dom (dict_get (store s)))))))"
proof -
  obtain n d where run: "del_loop dict_delete (drop 1 argv) 0 (store s) = (n, d)" by fastforce
  have d: "n = card (set (drop 1 argv) \<inter> dom (dict_get (store s)))"
    "dict_get d = dict_get (store s) |` (- set (drop 1 argv))" "dict_ok d"
    using ds.del_loop_correct [of "store s" "drop 1 argv" 0] assms run by (simp_all add: st_ok_def)
  have "st_ok (s\<lparr>store := d\<rparr>)"
    using assms(1) d(2,3) by (auto simp: st_ok_def restrict_map_def split: if_splits)
  moreover have "view (s\<lparr>store := d\<rparr>) = view s |` (- set (drop 1 argv))"
    using view_of_restrict [OF d(2)] by (simp add: view_def)
  ultimately show ?thesis
    using assms(2) run d(1) by (simp add: cmd_del_def gives_def)
qed

lemma allows_del: "allows cmd_del spec_del"
proof (rule allowsI)
  fix argv :: command and s :: st
  assume ok: "st_ok s"
  let ?ks = "set (drop 1 argv)"
  have "card (?ks \<inter> dom (view s)) \<le> card (?ks \<inter> dom (dict_get (store s)))"
    "card (?ks \<inter> dom (dict_get (store s))) \<le> card ?ks"
    using view_dom [of s] by (auto intro!: card_mono)
  then show "\<exists>r v. (r, v) \<in> spec_del argv (clock s) (view s) \<and> gives s (cmd_del argv s) v (encode r)"
    using del_correct [OF ok, of argv] ok
    by (cases "length argv < 2") (auto simp: spec_del_def cmd_del_def gives_def)
qed

text \<open>
  What these three report exactly depends on the keys that are stored, expired or not, and on the
  start of the server.
\<close>

definition stored_keys :: "st \<Rightarrow> bytes set" where
  "stored_keys s = dom (dict_get (store s))"

definition counts :: "(command \<Rightarrow> st \<Rightarrow> st) \<Rightarrow> (command \<Rightarrow> st \<Rightarrow> reply \<times> view) \<Rightarrow> bool" where
  "counts f sp = (\<forall>argv s. st_ok s \<longrightarrow> (case sp argv s of (r, v) \<Rightarrow> gives s (f argv s) v (encode r)))"

definition count_del :: "command \<Rightarrow> st \<Rightarrow> reply \<times> view" where
  "count_del argv s =
     (if length argv < 2 then (err (wrong_args ''del''), view s)
      else (RInt (int (card (set (drop 1 argv) \<inter> stored_keys s))), view s |` (- set (drop 1 argv))))"

definition count_dbsize :: "command \<Rightarrow> st \<Rightarrow> reply \<times> view" where
  "count_dbsize argv s =
     (if length argv \<noteq> 1 then err (wrong_args ''dbsize'') else RInt (int (card (stored_keys s))), view s)"

text \<open>The seconds since the start, rounded towards zero.\<close>

definition count_info :: "command \<Rightarrow> st \<Rightarrow> reply \<times> view" where
  "count_info argv s =
     (let ms = clock s - start_ms s
      in (RBulk (info_lines (sgn ms * (\<bar>ms\<bar> div 1000)) (card (stored_keys s))), view s))"

lemma db_size_stored: "st_ok s \<Longrightarrow> db_size s = card (stored_keys s)"
  using ds.count_card [of "store s"] by (simp add: st_ok_def db_size_def stored_keys_def)

lemma counts_del: "counts cmd_del count_del"
  using del_correct by (auto simp: counts_def count_del_def stored_keys_def cmd_del_def gives_def not_less)

lemma counts_dbsize: "counts cmd_dbsize count_dbsize"
  by (auto simp: counts_def count_dbsize_def cmd_dbsize_def gives_def db_size_stored)

lemma c_div_sgn: "c_div a b = sgn a * (\<bar>a\<bar> div b)"
  by (simp add: c_div_def sgn_if)

lemma counts_info: "counts cmd_info count_info"
  by (simp add: counts_def count_info_def cmd_info_def info_text_lines gives_def db_size_stored ob.append_text dynbuf_init_ok
      c_div_sgn Let_def)

definition spec_keys :: spec_set where
  "spec_keys argv now v =
     (if length argv \<noteq> 2 then {(err (wrong_args ''keys''), v)}
      else {(RArray (map RBulk ks), v) | ks.
              distinct ks \<and> set ks = {k. k \<in> dom v \<and> util_glob_match (argv ! 1) k}})"

lemma keys_set:
  assumes "st_ok s"
  shows "set (map ekey (filter (keys_match pat (clock s)) (dict_entries (store s)))) =
    {k. k \<in> dom (view s) \<and> util_glob_match pat k}"
proof -
  have e: "(k, ob) \<in> pair_of ` set (dict_entries (store s)) \<longleftrightarrow> dict_get (store s) k = Some ob" for k ob
    using dict_entries_iff [of "store s" k ob] assms by (simp add: st_ok_def)
  have "k \<in> set (map ekey (filter (keys_match pat (clock s)) (dict_entries (store s)))) \<longleftrightarrow>
      (\<exists>ob. (k, ob) \<in> pair_of ` set (dict_entries (store s)) \<and> \<not> key_expired (clock s) ob \<and> util_glob_match pat k)" for k
    by (auto simp: keys_match_def pair_of_def image_iff)
  moreover have "k \<in> dom (view s) \<longleftrightarrow>
      (\<exists>ob. dict_get (store s) k = Some ob \<and> \<not> key_expired (clock s) ob)" for k
    by (auto simp: view_at split: option.splits)
  ultimately show ?thesis unfolding e by blast
qed

lemma allows_keys: "allows cmd_keys spec_keys"
proof (rule allowsI, goal_cases)
  case (1 argv s)
  show ?case
  proof (cases "length argv = 2")
    case True
    let ?ks = "map ekey (filter (keys_match (argv ! 1) (clock s)) (dict_entries (store s)))"
    have "distinct (map ekey (dict_entries (store s)))"
      using 1 by (simp add: st_ok_def dict_entries_distinct)
    then have "distinct ?ks" by (rule distinct_map_filter)
    with keys_set [OF 1, of "argv ! 1"] True
    have "(RArray (map RBulk ?ks), view s) \<in> spec_keys argv (clock s) (view s)"
      by (auto simp: spec_keys_def simp del: set_map map_map)
    moreover have "gives s (cmd_keys argv s) (view s) (encode (RArray (map RBulk ?ks)))"
      using 1 True by (simp add: cmd_keys_def gives_def Let_def encode.simps)
    ultimately show ?thesis by blast
  next
    case False
    with 1 show ?thesis by (simp add: spec_keys_def cmd_keys_def gives_def)
  qed
qed

section \<open>Properties\<close>

text \<open>
  C14. Every string command does what its specification on the keyspace says, on every branch: it
  keeps the state well formed, changes exactly the specified keys and queues exactly the specified
  reply, the error replies included.
\<close>

theorem string_commands_correct:
  "implements cmd_set spec_set \<and> implements cmd_get spec_get \<and> implements cmd_mget spec_mget \<and>
   implements cmd_mset spec_mset \<and> implements cmd_append spec_append \<and> implements cmd_strlen spec_strlen \<and>
   implements cmd_getrange spec_getrange \<and> implements cmd_setrange spec_setrange \<and>
   implements cmd_setnx spec_setnx \<and> implements cmd_setex spec_setex \<and> implements cmd_getset spec_getset \<and>
   implements cmd_incr (spec_incr 1) \<and> implements cmd_decr (spec_incr (- 1))"
  by (simp add: implements_set implements_get implements_mget implements_mset implements_append
      implements_strlen implements_getrange implements_setrange implements_setnx implements_setex
      implements_getset implements_incr cmd_incr_def cmd_decr_def)

text \<open>
  C15. The commands on keys of any type and on the server meet their specifications. \<open>KEYS\<close> lists
  exactly the visible keys that match, in any order. \<open>DEL\<close>, \<open>DBSIZE\<close> and \<open>INFO\<close> count the keys that are
  stored, expired ones that were not collected yet included: \<open>DEL\<close> removes its arguments and reports
  how many of them were stored, \<open>DBSIZE\<close> the number of stored keys, \<open>INFO\<close> that number and the whole
  seconds since the start of the server; what a client can see of the keyspace bounds these numbers
  from below.
\<close>

theorem key_commands_correct:
  "allows cmd_del spec_del \<and> implements cmd_exists spec_exists \<and> implements cmd_rename spec_rename \<and>
   implements cmd_expire (spec_expire False) \<and> implements cmd_pexpire (spec_expire True) \<and>
   implements cmd_expireat (spec_expireat False) \<and> implements cmd_pexpireat (spec_expireat True) \<and>
   implements cmd_ttl (spec_ttl False) \<and> implements cmd_pttl (spec_ttl True) \<and>
   implements cmd_type spec_type \<and> allows cmd_keys spec_keys \<and> implements cmd_flushall spec_flushall \<and>
   allows cmd_dbsize spec_dbsize \<and> allows cmd_info spec_info \<and> implements cmd_ping spec_ping \<and>
   implements cmd_echo spec_echo \<and> implements cmd_select spec_select \<and> implements cmd_command spec_command \<and>
   counts cmd_del count_del \<and> counts cmd_dbsize count_dbsize \<and> counts cmd_info count_info"
  by (simp add: allows_del counts_del counts_dbsize counts_info implements_exists implements_rename implements_expire implements_expireat
      implements_ttl implements_type allows_keys implements_flushall allows_dbsize allows_info
      implements_ping implements_echo implements_select implements_command
      cmd_expire_def cmd_pexpire_def cmd_expireat_def cmd_pexpireat_def cmd_ttl_def cmd_pttl_def)

text \<open>
  C33. A string stored with an absolute expiration time that has already passed never expires: the
  remaining time is negative, which the code takes for \<open>no expiration\<close>, so the key is stored for
  ever where it should be gone at once.
\<close>

theorem set_past_time_never_expires:
  assumes "st_ok s" "string_to_ll t = Some n" "0 < n" "ms < clock s"
    "strcaseeq opt ''PXAT'' \<and> ms = n \<or> strcaseeq opt ''EXAT'' \<and> ms = 1000 * n \<and> ms \<le> LLONG_MAX"
  shows "view (cmd_set [name, key, val, opt, t] s) key = Some (AString val, - 1) \<and>
    outb (cmd_set [name, key, val, opt, t] s) = outb s @ encode ok_reply"
proof -
  have "to_lower (CHR ''P'') \<noteq> to_lower (CHR ''E'')" by code_simp
  then obtain unit where u: "time_option opt = Some (Deadline, unit)" "unit * n = ms"
    using assms(5) by (auto simp: time_option_def strcaseeq_def)
  moreover have "ms \<le> LLONG_MAX" using assms(5) string_to_ll_range [OF assms(2)] by auto
  ultimately have "set_options [opt, t] = Inr [Deadline ms]" using assms(2,3) by simp
  then have "spec_set [name, key, val, opt, t] (clock s) (view s) = (ok_reply, (view s)(key \<mapsto> (AString val, - 1)))"
    using assms(4) by (simp add: spec_set_def stored_deadline_def del: set_options.simps)
  from implementsD [OF implements_set assms(1) this] show ?thesis by (simp add: gives_def)
qed

theorem set_past_time_never_expires_witness:
  "view (cmd_set [''SET'', ''k'', ''v'', ''PXAT'', ''500''] demo_st) ''k'' = Some (AString ''v'', - 1)"
proof -
  have "strcaseeq ''PXAT'' ''PXAT''" "string_to_ll ''500'' = Some 500" by code_simp+
  then show ?thesis using set_past_time_never_expires [of demo_st "''500''" 500 500 "''PXAT''"] by simp
qed

end
