(* ===== verification/Db_List.thy ===== *)
theory Db_List
  imports Db
begin

text \<open>
  The list commands of \<open>src/db.c\<close> (lines 810 to 1142), on the linked lists of \<open>Linked_List\<close>.
  Loops that follow node pointers carry the length of the list as a bound on their steps.
\<close>

section \<open>The handlers\<close>

text \<open>The loop over the values to push, and the reply.\<close>

definition push_all :: "bool \<Rightarrow> bytes \<Rightarrow> robj \<Rightarrow> bytes llist \<Rightarrow> bytes list \<Rightarrow> st \<Rightarrow> st" where
  "push_all at_head key ob l vs s =
     (let l' = foldl (if at_head then list_push_head else list_push_tail) l vs
      in reply_integer (int (list_len l')) (store_assign key (ob\<lparr>ptr := PList l'\<rparr>) s))"

definition list_push :: "bool \<Rightarrow> bool \<Rightarrow> command \<Rightarrow> st \<Rightarrow> st" where
  "list_push at_head xx argv s =
     (if length argv < 3 then reply_error (wrong_args (argv ! 0)) s
      else case lookup_key (argv ! 1) s of
        (Some ob, s1) \<Rightarrow>
          (case as_list (ptr ob) of
             None \<Rightarrow> reply_wrongtype s1
           | Some l \<Rightarrow> push_all at_head (argv ! 1) ob l (drop 2 argv) s1)
      | (None, s1) \<Rightarrow>
          if xx then reply_integer 0 s1
          else push_all at_head (argv ! 1) robj_new_list list_create (drop 2 argv)
                 (store_set (argv ! 1) robj_new_list s1))"

definition cmd_lpush :: "command \<Rightarrow> st \<Rightarrow> st" where "cmd_lpush = list_push True False"
definition cmd_rpush :: "command \<Rightarrow> st \<Rightarrow> st" where "cmd_rpush = list_push False False"
definition cmd_lpushx :: "command \<Rightarrow> st \<Rightarrow> st" where "cmd_lpushx = list_push True True"
definition cmd_rpushx :: "command \<Rightarrow> st \<Rightarrow> st" where "cmd_rpushx = list_push False True"

definition pop_end :: "bool \<Rightarrow> bytes llist \<Rightarrow> bytes option \<times> bytes llist" where
  "pop_end at_head l = (if at_head then list_pop_head l else list_pop_tail l)"

fun pop_loop :: "bool \<Rightarrow> nat \<Rightarrow> bytes llist \<Rightarrow> bytes list \<times> bytes llist" where
  "pop_loop at_head 0 l = ([], l)"
| "pop_loop at_head (Suc n) l =
     (case pop_end at_head l of
        (None, l') \<Rightarrow> ([], l')
      | (Some v, l') \<Rightarrow> (case pop_loop at_head n l' of (vs, l'') \<Rightarrow> (v # vs, l'')))"

definition list_pop :: "bool \<Rightarrow> command \<Rightarrow> st \<Rightarrow> st" where
  "list_pop at_head argv s =
     (if length argv < 2 \<or> length argv > 3 then reply_error (wrong_args (argv ! 0)) s
      else case (if length argv = 3 then string_to_ll (argv ! 2) else Some 1) of
        None \<Rightarrow> reply_error ''value is out of range, must be positive'' s
      | Some count \<Rightarrow>
          if count < 0 then reply_error ''value is out of range, must be positive'' s
          else case lookup_key (argv ! 1) s of
            (None, s1) \<Rightarrow> reply_null s1
          | (Some ob, s1) \<Rightarrow>
              (case as_list (ptr ob) of
                 None \<Rightarrow> reply_wrongtype s1
               | Some l \<Rightarrow>
                   if count = 1 then
                     (case pop_end at_head l of
                        (None, l') \<Rightarrow>
                          let ob' = ob\<lparr>ptr := PList l'\<rparr>
                          in reply_null (maybe_delete_key (argv ! 1) ob' (store_assign (argv ! 1) ob' s1))
                      | (Some v, l') \<Rightarrow>
                          let ob' = ob\<lparr>ptr := PList l'\<rparr>
                          in maybe_delete_key (argv ! 1) ob' (reply_bulk v (store_assign (argv ! 1) ob' s1)))
                   else
                     let max = (if count < int (list_len l) then count else int (list_len l))
                     in case pop_loop at_head (nat max) l of
                          (items, l') \<Rightarrow>
                            let ob' = ob\<lparr>ptr := PList l'\<rparr>
                            in maybe_delete_key (argv ! 1) ob'
                                 (reply_bulks items
                                   (reply_array_header (length items) (store_assign (argv ! 1) ob' s1)))))"

definition cmd_lpop :: "command \<Rightarrow> st \<Rightarrow> st" where "cmd_lpop = list_pop True"
definition cmd_rpop :: "command \<Rightarrow> st \<Rightarrow> st" where "cmd_rpop = list_pop False"

definition cmd_llen :: "command \<Rightarrow> st \<Rightarrow> st" where
  "cmd_llen argv s =
     (if length argv \<noteq> 2 then reply_error (wrong_args ''llen'') s
      else case lookup_key (argv ! 1) s of
        (None, s1) \<Rightarrow> reply_integer 0 s1
      | (Some ob, s1) \<Rightarrow>
          (case as_list (ptr ob) of
             None \<Rightarrow> reply_wrongtype s1
           | Some l \<Rightarrow> reply_integer (int (list_len l)) s1))"

definition cmd_lrange :: "command \<Rightarrow> st \<Rightarrow> st" where
  "cmd_lrange argv s =
     (if length argv \<noteq> 4 then reply_error (wrong_args ''lrange'') s
      else case (string_to_ll (argv ! 2), string_to_ll (argv ! 3)) of
        (Some start, Some stop) \<Rightarrow>
          (case lookup_key (argv ! 1) s of
             (None, s1) \<Rightarrow> reply_array_header 0 s1
           | (Some ob, s1) \<Rightarrow>
               (case as_list (ptr ob) of
                  None \<Rightarrow> reply_wrongtype s1
                | Some l \<Rightarrow>
                    (case range_normalize (int (list_len l)) start stop of
                       None \<Rightarrow> reply_array_header 0 s1
                     | Some (a, b) \<Rightarrow>
                         let n = nat (b - a + 1)
                         in reply_bulks (walk n l (list_node_at l a)) (reply_array_header n s1))))
      | _ \<Rightarrow> reply_error not_integer s)"

definition cmd_lindex :: "command \<Rightarrow> st \<Rightarrow> st" where
  "cmd_lindex argv s =
     (if length argv \<noteq> 3 then reply_error (wrong_args ''lindex'') s
      else case string_to_ll (argv ! 2) of
        None \<Rightarrow> reply_error not_integer s
      | Some index \<Rightarrow>
          (case lookup_key (argv ! 1) s of
             (None, s1) \<Rightarrow> reply_null s1
           | (Some ob, s1) \<Rightarrow>
               (case as_list (ptr ob) of
                  None \<Rightarrow> reply_wrongtype s1
                | Some l \<Rightarrow>
                    (case list_node_at l index of
                       None \<Rightarrow> reply_null s1
                     | Some a \<Rightarrow> reply_bulk (lval (node_of l a)) s1))))"

text \<open>\<open>x->val = v\<close>.\<close>

definition set_lval :: "'a llist \<Rightarrow> nat \<Rightarrow> 'a \<Rightarrow> 'a llist" where
  "set_lval l a v = l\<lparr>nodes := (nodes l)(a \<mapsto> (node_of l a)\<lparr>lval := v\<rparr>)\<rparr>"

definition cmd_lset :: "command \<Rightarrow> st \<Rightarrow> st" where
  "cmd_lset argv s =
     (if length argv \<noteq> 4 then reply_error (wrong_args ''lset'') s
      else case string_to_ll (argv ! 2) of
        None \<Rightarrow> reply_error not_integer s
      | Some index \<Rightarrow>
          (case lookup_key (argv ! 1) s of
             (None, s1) \<Rightarrow> reply_error ''no such key'' s1
           | (Some ob, s1) \<Rightarrow>
               (case as_list (ptr ob) of
                  None \<Rightarrow> reply_wrongtype s1
                | Some l \<Rightarrow>
                    (case list_node_at l index of
                       None \<Rightarrow> reply_error ''index out of range'' s1
                     | Some a \<Rightarrow>
                         reply_simple ''OK''
                           (store_assign (argv ! 1) (ob\<lparr>ptr := PList (set_lval l a (argv ! 3))\<rparr>) s1)))))"

text \<open>The two loops of \<open>LTRIM\<close>: detach \<open>n\<close> nodes from the front, then pop down to the target.\<close>

fun trim_head :: "nat \<Rightarrow> 'a llist \<Rightarrow> nat option \<Rightarrow> 'a llist" where
  "trim_head 0 l x = l"
| "trim_head (Suc n) l x =
     (case x of
        None \<Rightarrow> l
      | Some a \<Rightarrow> trim_head n (snd (list_detach l (Some a))) (next (node_of l a)))"

fun trim_tail :: "nat \<Rightarrow> nat \<Rightarrow> 'a llist \<Rightarrow> 'a llist" where
  "trim_tail 0 target l = l"
| "trim_tail (Suc fuel) target l =
     (if list_len l > target then trim_tail fuel target (snd (list_pop_tail l)) else l)"

definition cmd_ltrim :: "command \<Rightarrow> st \<Rightarrow> st" where
  "cmd_ltrim argv s =
     (if length argv \<noteq> 4 then reply_error (wrong_args ''ltrim'') s
      else case (string_to_ll (argv ! 2), string_to_ll (argv ! 3)) of
        (Some start, Some stop) \<Rightarrow>
          (case lookup_key (argv ! 1) s of
             (None, s1) \<Rightarrow> reply_simple ''OK'' s1
           | (Some ob, s1) \<Rightarrow>
               (case as_list (ptr ob) of
                  None \<Rightarrow> reply_wrongtype s1
                | Some l \<Rightarrow>
                    (case range_normalize (int (list_len l)) start stop of
                       None \<Rightarrow> reply_simple ''OK'' (store_delete (argv ! 1) s1)
                     | Some (a, b) \<Rightarrow>
                         let l1 = trim_head (nat a) l (list_first l);
                             l2 = trim_tail (list_len l1) (nat (b - a + 1)) l1
                         in reply_simple ''OK'' (store_assign (argv ! 1) (ob\<lparr>ptr := PList l2\<rparr>) s1))))
      | _ \<Rightarrow> reply_error not_integer s)"

text \<open>The loops of \<open>LREM\<close> from either end; the result is the list and \<open>removed\<close>.\<close>

fun lrem_forward :: "nat \<Rightarrow> int \<Rightarrow> 'a \<Rightarrow> 'a llist \<Rightarrow> nat option \<Rightarrow> int \<Rightarrow> 'a llist \<times> int" where
  "lrem_forward 0 count target l x removed = (l, removed)"
| "lrem_forward (Suc fuel) count target l x removed =
     (case x of
        None \<Rightarrow> (l, removed)
      | Some a \<Rightarrow>
          if count = 0 \<or> removed < count then
            let nx = next (node_of l a)
            in if lval (node_of l a) = target
               then lrem_forward fuel count target (snd (list_detach l (Some a))) nx (removed + 1)
               else lrem_forward fuel count target l nx removed
          else (l, removed))"

fun lrem_backward :: "nat \<Rightarrow> int \<Rightarrow> 'a \<Rightarrow> 'a llist \<Rightarrow> nat option \<Rightarrow> int \<Rightarrow> 'a llist \<times> int" where
  "lrem_backward 0 count target l x removed = (l, removed)"
| "lrem_backward (Suc fuel) count target l x removed =
     (case x of
        None \<Rightarrow> (l, removed)
      | Some a \<Rightarrow>
          if removed < - count then
            let pv = prev (node_of l a)
            in if lval (node_of l a) = target
               then lrem_backward fuel count target (snd (list_detach l (Some a))) pv (removed + 1)
               else lrem_backward fuel count target l pv removed
          else (l, removed))"

definition lrem_loop :: "int \<Rightarrow> 'a \<Rightarrow> 'a llist \<Rightarrow> 'a llist \<times> int" where
  "lrem_loop count target l =
     (if count \<ge> 0 then lrem_forward (list_len l) count target l (list_first l) 0
      else lrem_backward (list_len l) count target l (list_last l) 0)"

definition cmd_lrem :: "command \<Rightarrow> st \<Rightarrow> st" where
  "cmd_lrem argv s =
     (if length argv \<noteq> 4 then reply_error (wrong_args ''lrem'') s
      else case string_to_ll (argv ! 2) of
        None \<Rightarrow> reply_error not_integer s
      | Some count \<Rightarrow>
          (case lookup_key (argv ! 1) s of
             (None, s1) \<Rightarrow> reply_integer 0 s1
           | (Some ob, s1) \<Rightarrow>
               (case as_list (ptr ob) of
                  None \<Rightarrow> reply_wrongtype s1
                | Some l \<Rightarrow>
                    (case lrem_loop count (argv ! 3) l of
                       (l', removed) \<Rightarrow>
                         let ob' = ob\<lparr>ptr := PList l'\<rparr>
                         in maybe_delete_key (argv ! 1) ob'
                              (reply_integer removed (store_assign (argv ! 1) ob' s1))))))"

text \<open>The first node with the given value, from node \<open>x\<close> on.\<close>

fun find_node :: "nat \<Rightarrow> 'a llist \<Rightarrow> 'a \<Rightarrow> nat option \<Rightarrow> nat option" where
  "find_node 0 l pivot x = None"
| "find_node (Suc fuel) l pivot x =
     (case x of
        None \<Rightarrow> None
      | Some a \<Rightarrow>
          if lval (node_of l a) = pivot then Some a else find_node fuel l pivot (next (node_of l a)))"

definition cmd_linsert :: "command \<Rightarrow> st \<Rightarrow> st" where
  "cmd_linsert argv s =
     (if length argv \<noteq> 5 then reply_error (wrong_args ''linsert'') s
      else if \<not> strcaseeq (argv ! 2) ''BEFORE'' \<and> \<not> strcaseeq (argv ! 2) ''AFTER''
      then reply_error ''syntax error'' s
      else case lookup_key (argv ! 1) s of
        (None, s1) \<Rightarrow> reply_integer 0 s1
      | (Some ob, s1) \<Rightarrow>
          (case as_list (ptr ob) of
             None \<Rightarrow> reply_wrongtype s1
           | Some l \<Rightarrow>
               (case find_node (list_len l) l (argv ! 3) (list_first l) of
                  None \<Rightarrow> reply_integer (- 1) s1
                | Some a \<Rightarrow>
                    let l' = (if strcaseeq (argv ! 2) ''BEFORE''
                              then list_insert_after l (prev (node_of l a)) (argv ! 4)
                              else list_insert_after l (Some a) (argv ! 4))
                    in reply_integer (int (list_len l'))
                         (store_assign (argv ! 1) (ob\<lparr>ptr := PList l'\<rparr>) s1))))"

section \<open>What they do\<close>

text \<open>A list that became empty takes its key with it.\<close>

definition put_list :: "bytes \<Rightarrow> bytes list \<Rightarrow> int \<Rightarrow> view \<Rightarrow> view" where
  "put_list k xs e v = (if xs = [] then v(k := None) else v(k \<mapsto> (AList xs, e)))"

definition spec_push :: "bool \<Rightarrow> bool \<Rightarrow> spec" where
  "spec_push at_head xx argv now v =
     (if length argv < 3 then (err (wrong_args (argv ! 0)), v)
      else let push = (\<lambda>xs e. let ys = (if at_head then rev (drop 2 argv) @ xs else xs @ drop 2 argv)
                 in (RInt (int (length ys)), v(argv ! 1 \<mapsto> (AList ys, e))))
           in on_list v (argv ! 1) (if xx then (RInt 0, v) else push [] (- 1)) push)"

definition spec_pop :: "bool \<Rightarrow> spec" where
  "spec_pop at_head argv now v =
     (if length argv < 2 \<or> length argv > 3 then (err (wrong_args (argv ! 0)), v)
      else case (if length argv = 3 then string_to_ll (argv ! 2) else Some 1) of
        None \<Rightarrow> (err ''value is out of range, must be positive'', v)
      | Some count \<Rightarrow>
          if count < 0 then (err ''value is out of range, must be positive'', v)
          else on_list v (argv ! 1) (RNull, v)
            (\<lambda>xs e.
               let n = nat count;
                   popped = (if at_head then take n xs else take n (rev xs));
                   rest = (if at_head then drop n xs else rev (drop n (rev xs)))
               in (if count \<noteq> 1 then RArray (map RBulk popped) else if xs = [] then RNull else RBulk (hd popped),
                   put_list (argv ! 1) rest e v)))"

definition spec_llen :: spec where
  "spec_llen argv now v =
     (if length argv \<noteq> 2 then (err (wrong_args ''llen''), v)
      else on_list v (argv ! 1) (RInt 0, v) (\<lambda>xs e. (RInt (int (length xs)), v)))"

definition spec_lrange :: spec where
  "spec_lrange argv now v =
     (if length argv \<noteq> 4 then (err (wrong_args ''lrange''), v)
      else case (string_to_ll (argv ! 2), string_to_ll (argv ! 3)) of
        (Some i, Some j) \<Rightarrow>
          on_list v (argv ! 1) (RArray [], v) (\<lambda>xs e. (RArray (map RBulk (lslice xs i j)), v))
      | _ \<Rightarrow> (err not_integer, v))"

definition spec_lindex :: spec where
  "spec_lindex argv now v =
     (if length argv \<noteq> 3 then (err (wrong_args ''lindex''), v)
      else case string_to_ll (argv ! 2) of
        None \<Rightarrow> (err not_integer, v)
      | Some i \<Rightarrow>
          on_list v (argv ! 1) (RNull, v)
            (\<lambda>xs e. (case norm_index (length xs) i of None \<Rightarrow> RNull | Some j \<Rightarrow> RBulk (xs ! j), v)))"

definition spec_lset :: spec where
  "spec_lset argv now v =
     (if length argv \<noteq> 4 then (err (wrong_args ''lset''), v)
      else case string_to_ll (argv ! 2) of
        None \<Rightarrow> (err not_integer, v)
      | Some i \<Rightarrow>
          on_list v (argv ! 1) (err ''no such key'', v)
            (\<lambda>xs e.
               case norm_index (length xs) i of
                 None \<Rightarrow> (err ''index out of range'', v)
               | Some j \<Rightarrow> (ok_reply, v(argv ! 1 \<mapsto> (AList (xs[j := argv ! 3]), e)))))"

definition spec_ltrim :: spec where
  "spec_ltrim argv now v =
     (if length argv \<noteq> 4 then (err (wrong_args ''ltrim''), v)
      else case (string_to_ll (argv ! 2), string_to_ll (argv ! 3)) of
        (Some i, Some j) \<Rightarrow>
          on_list v (argv ! 1) (ok_reply, v) (\<lambda>xs e. (ok_reply, put_list (argv ! 1) (lslice xs i j) e v))
      | _ \<Rightarrow> (err not_integer, v))"

text \<open>\<open>xs\<close> without the first \<open>n\<close> occurrences of \<open>t\<close>.\<close>

fun drop_first :: "nat \<Rightarrow> 'a \<Rightarrow> 'a list \<Rightarrow> 'a list" where
  "drop_first n t [] = []"
| "drop_first 0 t xs = xs"
| "drop_first (Suc n) t (x # xs) = (if x = t then drop_first n t xs else x # drop_first (Suc n) t xs)"

definition lrem_list :: "int \<Rightarrow> 'a \<Rightarrow> 'a list \<Rightarrow> 'a list" where
  "lrem_list count t xs =
     (if count = 0 then filter (\<lambda>x. x \<noteq> t) xs
      else if count > 0 then drop_first (nat count) t xs
      else rev (drop_first (nat (- count)) t (rev xs)))"

definition spec_lrem :: spec where
  "spec_lrem argv now v =
     (if length argv \<noteq> 4 then (err (wrong_args ''lrem''), v)
      else case string_to_ll (argv ! 2) of
        None \<Rightarrow> (err not_integer, v)
      | Some count \<Rightarrow>
          on_list v (argv ! 1) (RInt 0, v)
            (\<lambda>xs e. let ys = lrem_list count (argv ! 3) xs
                     in (RInt (int (length xs) - int (length ys)), put_list (argv ! 1) ys e v)))"

definition spec_linsert :: spec where
  "spec_linsert argv now v =
     (if length argv \<noteq> 5 then (err (wrong_args ''linsert''), v)
      else if \<not> strcaseeq (argv ! 2) ''BEFORE'' \<and> \<not> strcaseeq (argv ! 2) ''AFTER''
      then (err ''syntax error'', v)
      else on_list v (argv ! 1) (RInt 0, v)
        (\<lambda>xs e.
           let before = takeWhile (\<lambda>x. x \<noteq> argv ! 3) xs; rest = dropWhile (\<lambda>x. x \<noteq> argv ! 3) xs
           in if rest = [] then (RInt (- 1), v)
              else (RInt (int (length xs) + 1),
                    v(argv ! 1 \<mapsto>
                        (AList (if strcaseeq (argv ! 2) ''BEFORE'' then before @ argv ! 4 # rest
                                else before @ hd rest # argv ! 4 # tl rest), e)))))"

section \<open>Proofs\<close>

lemma robj_new_list_sel [simp]: "ptr robj_new_list = PList list_create" "expire_at robj_new_list = - 1"
  by (simp_all add: robj_new_list_def)

lemma push_loop:
  assumes "list_inv l"
  shows "list_inv (foldl (if at_head then list_push_head else list_push_tail) l vs)"
    and "list_vals (foldl (if at_head then list_push_head else list_push_tail) l vs) =
      (if at_head then rev vs @ list_vals l else list_vals l @ vs)"
  using dq.push_heads [OF assms, of vs] dq.push_tails [OF assms, of vs] by simp_all

lemma implements_push: "implements (list_push at_head xx) (spec_push at_head xx)"
  apply (rule implementsI)
  subgoal for argv s
    by (cases rule: list_cases [of s "argv ! 1"])
      (simp_all add: list_push_def spec_push_def push_all_def Let_def push_loop dq.len_vals)
  done

text \<open>The list read from the end the command works on.\<close>

definition from_end :: "bool \<Rightarrow> 'a list \<Rightarrow> 'a list" where
  "from_end at_head xs = (if at_head then xs else rev xs)"

lemma from_end_simps [simp]:
  "from_end h [] = []" "from_end h (from_end h xs) = xs" "length (from_end h xs) = length xs" "from_end h xs = [] \<longleftrightarrow> xs = []"
  by (simp_all add: from_end_def)

lemma rev_tl_rev: "rev (tl (rev xs)) = butlast xs"
  by (cases xs rule: rev_cases) simp_all

lemma pop_end_ok:
  assumes "list_inv l"
  shows "list_vals l = [] \<Longrightarrow> pop_end h l = (None, l)"
    and "list_vals l \<noteq> [] \<Longrightarrow> fst (pop_end h l) = Some (hd (from_end h (list_vals l)))"
    and "list_vals l \<noteq> [] \<Longrightarrow> list_vals (snd (pop_end h l)) = from_end h (tl (from_end h (list_vals l)))"
    and "list_inv (snd (pop_end h l))"
  using dq.pop_empty [OF assms] dq.pop_head_nonempty [OF assms] dq.pop_tail_nonempty [OF assms]
    dq.pop_head_invar [OF assms] dq.pop_tail_invar [OF assms]
  by (auto simp: pop_end_def from_end_def hd_rev rev_tl_rev)

lemma pop_loop_ok:
  "list_inv l \<Longrightarrow>
     fst (pop_loop h n l) = take n (from_end h (list_vals l)) \<and>
     list_vals (snd (pop_loop h n l)) = from_end h (drop n (from_end h (list_vals l))) \<and>
     list_inv (snd (pop_loop h n l))"
proof (induction n arbitrary: l)
  case (Suc n)
  let ?xs = "from_end h (list_vals l)"
  show ?case
  proof (cases "list_vals l = []")
    case True
    then show ?thesis using pop_end_ok(1) [OF Suc.prems True] Suc.prems by simp
  next
    case False
    obtain v l' where p: "pop_end h l = (v, l')" by fastforce
    have l': "v = Some (hd ?xs)" "list_vals l' = from_end h (tl ?xs)" "list_inv l'"
      using pop_end_ok(2-4) [OF Suc.prems, of h] False p by simp_all
    have "?xs \<noteq> []" using False by simp
    then obtain y ys where "?xs = y # ys" by (cases ?xs) auto
    then show ?thesis using Suc.IH [OF l'(3)] l' p by (simp add: split_def)
  qed
qed simp

lemma implements_pop: "implements (list_pop at_head) (spec_pop at_head)"
proof (rule implementsI, goal_cases)
  case (1 argv s)
  let ?c = "if length argv = 3 then string_to_ll (argv ! 2) else Some 1"
  show ?case
  proof (cases "length argv < 2 \<or> length argv > 3 \<or> ?c = None \<or> the ?c < 0")
    case True
    with 1 show ?thesis
      by (cases ?c) (auto simp: list_pop_def spec_pop_def)
  next
    case False
    then obtain c where c: "?c = Some c" "0 \<le> c" by (cases ?c) auto
    from 1 show ?thesis
    proof (cases rule: list_cases [of s "argv ! 1"])
      case (absent s1)
      then show ?thesis using False c by (simp add: list_pop_def spec_pop_def)
    next
      case (other ob)
      then show ?thesis using False c by (simp add: list_pop_def spec_pop_def)
    next
      case (present ob l)
      let ?xs = "from_end at_head (list_vals l)"
      have spec: "spec_pop at_head argv (clock s) (view s) =
          (if c \<noteq> 1 then RArray (map RBulk (take (nat c) ?xs))
           else if list_vals l = [] then RNull else RBulk (hd (take (nat c) ?xs)),
           put_list (argv ! 1) (from_end at_head (drop (nat c) ?xs)) (expire_at ob) (view s))"
        using False c present(8) by (simp add: spec_pop_def from_end_def Let_def)
      show ?thesis
      proof (cases "c = 1")
        case True
        show ?thesis
        proof (cases "list_vals l = []")
          case empty: True
          then show ?thesis
            using True present False c pop_end_ok(1) [OF present(7), of at_head]
            by (simp add: spec list_pop_def Let_def maybe_delete_key_def put_list_def)
        next
          case nonempty: False
          obtain v l' where p: "pop_end at_head l = (v, l')" by fastforce
          with pop_end_ok(2-4) [OF present(7), of at_head] nonempty
          have l': "v = Some (hd ?xs)" "list_vals l' = from_end at_head (tl ?xs)" "list_inv l'" by simp_all
          have "hd (take 1 ?xs) = hd ?xs" "drop 1 ?xs = tl ?xs" by (simp_all add: hd_take drop_Suc)
          then show ?thesis
            using True present False c p l' nonempty
            by (simp add: spec list_pop_def Let_def maybe_delete_key_def put_list_def)
        qed
      next
        case neq: False
        obtain vs l' where p: "pop_loop at_head (nat (if c < int (list_len l) then c else int (list_len l))) l = (vs, l')"
          by fastforce
        have "take (nat (if c < int (list_len l) then c else int (list_len l))) ?xs = take (nat c) ?xs"
          "drop (nat (if c < int (list_len l) then c else int (list_len l))) ?xs = drop (nat c) ?xs"
          using dq.len_vals [OF present(7)] by simp_all
        with pop_loop_ok [OF present(7), of at_head "nat (if c < int (list_len l) then c else int (list_len l))"] p
        have l': "vs = take (nat c) ?xs" "list_vals l' = from_end at_head (drop (nat c) ?xs)" "list_inv l'"
          by simp_all
        have "encode (RArray (map RBulk vs)) = CHR ''*'' # show_nat (length vs) @ crlf @ concat (map encode (map RBulk vs))"
          by (simp add: encode.simps)
        then show ?thesis
          using neq present False c p l'
          by (simp add: spec list_pop_def Let_def maybe_delete_key_def put_list_def)
      qed
    qed
  qed
qed

lemma implements_llen: "implements cmd_llen spec_llen"
  apply (rule implementsI)
  subgoal for argv s
    by (cases rule: list_cases [of s "argv ! 1"]) (simp_all add: cmd_llen_def spec_llen_def dq.len_vals)
  done

lemma walk_take: "list_ok l (xs @ ys) \<Longrightarrow> walk n l (firstp ys None) = take n (map snd ys)"
proof (induction n arbitrary: xs ys)
  case (Suc n)
  show ?case
  proof (cases ys)
    case (Cons m zs)
    obtain a v where m: "m = (a, v)" by fastforce
    then show ?thesis
      using Suc.IH [of "xs @ [m]" zs] Suc.prems Cons list_ok_next [of l xs a v zs] by simp
  qed simp
qed simp

lemma firstp_drop: "k < length ns \<Longrightarrow> firstp (drop k ns) None = Some (fst (ns ! k))"
  by (simp add: Cons_nth_drop_Suc [symmetric])

lemma lrange_walk:
  assumes "list_inv l" "range_normalize (int (list_len l)) i j = Some (a, b)"
  shows "walk (nat (b - a + 1)) l (list_node_at l a) = lslice (list_vals l) i j"
    and "length (lslice (list_vals l) i j) = nat (b - a + 1)"
proof -
  obtain ns where ns: "list_ok l ns" "list_vals l = map snd ns" using list_inv_vals [OF assms(1)] by blast
  have len: "list_len l = length (list_vals l)" using dq.len_vals [OF assms(1)] .
  note r = range_normalize_cases [OF assms(2)] and sl = range_normalize_slice [OF assms(2) [unfolded len]]
  have a: "nat a < length ns" using r(1-3) len ns(2) by (simp add: nat_less_iff)
  have "list_node_at l a = firstp (drop (nat a) ns) None"
    using r(1-3) a len ns(2) by (simp add: list_node_at_ok [OF ns(1)] firstp_drop)
  then have "walk (nat (b - a + 1)) l (list_node_at l a) = take (nat (b - a + 1)) (map snd (drop (nat a) ns))"
    using walk_take [of l "take (nat a) ns" "drop (nat a) ns"] ns(1) by simp
  then show "walk (nat (b - a + 1)) l (list_node_at l a) = lslice (list_vals l) i j"
    by (simp add: sl(1) [unfolded ns(2)] ns(2) drop_map)
  show "length (lslice (list_vals l) i j) = nat (b - a + 1)" unfolding sl(1) by (rule sl(2))
qed

lemma implements_lrange: "implements cmd_lrange spec_lrange"
proof (rule implementsI, goal_cases)
  case (1 argv s)
  have arr: "CHR ''*'' # show_nat 0 @ crlf = encode (RArray [])" by (simp add: encode.simps)
  from 1 show ?case
  proof (cases rule: list_cases [of s "argv ! 1"])
    case (present ob l)
    show ?thesis
    proof (cases "string_to_ll (argv ! 2)"; cases "string_to_ll (argv ! 3)")
      fix i j
      assume ij: "string_to_ll (argv ! 2) = Some i" "string_to_ll (argv ! 3) = Some j"
      show ?thesis
      proof (cases "range_normalize (int (list_len l)) i j")
        case None
        then have "lslice (list_vals l) i j = []"
          using range_normalize_None dq.len_vals [OF present(7)] by simp
        then show ?thesis using present ij None arr by (simp add: cmd_lrange_def spec_lrange_def)
      next
        case (Some p)
        then obtain a b where "range_normalize (int (list_len l)) i j = Some (a, b)" by (cases p) auto
        with lrange_walk [OF present(7) this] present ij show ?thesis
          by (simp add: cmd_lrange_def spec_lrange_def Let_def encode.simps)
      qed
    qed (use present in \<open>simp_all add: cmd_lrange_def spec_lrange_def\<close>)
  qed (use 1 arr in \<open>simp_all add: cmd_lrange_def spec_lrange_def split: option.split\<close>)
qed

lemma implements_lindex: "implements cmd_lindex spec_lindex"
proof (rule implementsI, goal_cases)
  case (1 argv s)
  from 1 show ?case
  proof (cases rule: list_cases [of s "argv ! 1"])
    case (present ob l)
    obtain ns where ns: "list_ok l ns" "list_vals l = map snd ns" using list_inv_vals [OF present(7)] by blast
    have "lval (node_of l (fst (ns ! j))) = snd (ns ! j)" if "j < length ns" for j
      using list_ok_next(3) [of l "take j ns" "fst (ns ! j)" "snd (ns ! j)" "drop (Suc j) ns"] ns(1) that
      by (simp add: id_take_nth_drop [symmetric])
    then show ?thesis
      using present ns norm_index_less [of "length ns"]
      by (auto simp: cmd_lindex_def spec_lindex_def list_node_at_norm split: option.split)
  qed (use 1 in \<open>simp_all add: cmd_lindex_def spec_lindex_def split: option.split\<close>)
qed

lemma set_lval_ok:
  "list_ok l (xs @ (a, w) # ys) \<Longrightarrow> list_ok (set_lval l a v) (xs @ (a, v) # ys)"
  by (auto simp: list_ok_def set_lval_def node_of_def)

lemma implements_lset: "implements cmd_lset spec_lset"
proof (rule implementsI, goal_cases)
  case (1 argv s)
  from 1 show ?case
  proof (cases rule: list_cases [of s "argv ! 1"])
    case (present ob l)
    obtain ns where ns: "list_ok l ns" "list_vals l = map snd ns" using list_inv_vals [OF present(7)] by blast
    have upd: "list_inv (set_lval l (fst (ns ! j)) v)"
      "list_vals (set_lval l (fst (ns ! j)) v) = (list_vals l)[j := v]" if "j < length ns" for j v
    proof -
      have "list_ok (set_lval l (fst (ns ! j)) v) (take j ns @ (fst (ns ! j), v) # drop (Suc j) ns)"
        using set_lval_ok [of l "take j ns" "fst (ns ! j)" "snd (ns ! j)" "drop (Suc j) ns" v] ns(1) that
        by (simp add: id_take_nth_drop [symmetric])
      then show "list_inv (set_lval l (fst (ns ! j)) v)"
        "list_vals (set_lval l (fst (ns ! j)) v) = (list_vals l)[j := v]"
        using that by (auto simp: list_ok_inv list_vals_ok ns(2) upd_conv_take_nth_drop take_map drop_map)
    qed
    then show ?thesis
      using present ns norm_index_less [of "length ns"]
      by (auto simp: cmd_lset_def spec_lset_def list_node_at_norm split: option.split)
  qed (use 1 in \<open>simp_all add: cmd_lset_def spec_lset_def split: option.split\<close>)
qed

lemma trim_head_ok: "list_ok l ns \<Longrightarrow> list_ok (trim_head n l (firstp ns None)) (drop n ns)"
proof (induction n arbitrary: l ns)
  case (Suc n)
  show ?case
  proof (cases ns)
    case (Cons m ms)
    obtain a v where m: "m = (a, v)" by fastforce
    have ok: "list_ok l ([] @ (a, v) # ms)" using Suc.prems Cons m by simp
    then have "next (node_of l a) = firstp ms None" by (simp add: node_of_def list_ok_node [OF ok])
    then show ?thesis
      using Suc.IH [of _ ms] list_detach_ok(2) [OF ok] Cons m by simp
  qed (use Suc.prems in simp)
qed simp

lemma trim_tail_ok:
  "list_inv l \<Longrightarrow> length (list_vals l) \<le> fuel \<Longrightarrow>
     list_inv (trim_tail fuel t l) \<and> list_vals (trim_tail fuel t l) = take t (list_vals l)"
proof (induction fuel arbitrary: l)
  case (Suc fuel)
  show ?case
  proof (cases "list_len l > t")
    case True
    then have "list_vals l \<noteq> []" using dq.len_vals [OF Suc.prems(1)] by auto
    with dq.pop_tail_nonempty [OF Suc.prems(1)] dq.pop_tail_invar [OF Suc.prems(1)]
    have p: "list_vals (snd (list_pop_tail l)) = butlast (list_vals l)" "list_inv (snd (list_pop_tail l))"
      by simp_all
    have "take t (butlast (list_vals l)) = take t (list_vals l)"
      using True dq.len_vals [OF Suc.prems(1)] by (simp add: take_butlast)
    then show ?thesis using True Suc.IH [OF p(2)] Suc.prems p by simp
  next
    case False
    then show ?thesis using Suc.prems dq.len_vals [OF Suc.prems(1)] by simp
  qed
qed simp

lemma ltrim_ok:
  assumes "list_inv l" "range_normalize (int (list_len l)) i j = Some (a, b)"
  defines "l1 \<equiv> trim_head (nat a) l (list_first l)"
  defines "l2 \<equiv> trim_tail (list_len l1) (nat (b - a + 1)) l1"
  shows "list_inv l2" "list_vals l2 = lslice (list_vals l) i j" "lslice (list_vals l) i j \<noteq> []"
proof -
  obtain ns where ns: "list_ok l ns" "list_vals l = map snd ns" using list_inv_vals [OF assms(1)] by blast
  have len: "list_len l = length (list_vals l)" using dq.len_vals [OF assms(1)] .
  note sl = range_normalize_slice [OF assms(2) [unfolded len]]
  have "head l = firstp ns None" using ns(1) by (simp add: list_ok_def)
  then have "list_ok l1 (drop (nat a) ns)"
    using trim_head_ok [OF ns(1), of "nat a"] by (simp add: l1_def list_first_def)
  then have l1: "list_inv l1" "list_vals l1 = drop (nat a) (list_vals l)"
    by (auto simp: list_ok_inv list_vals_ok ns(2) drop_map)
  show "list_inv l2" "list_vals l2 = lslice (list_vals l) i j"
    using trim_tail_ok [OF l1(1), of "list_len l1"] l1(2) sl(1) dq.len_vals [OF l1(1)]
    by (simp_all add: l2_def)
  show "lslice (list_vals l) i j \<noteq> []"
    using sl range_normalize_cases(2) [OF assms(2)] by (metis le_imp_0_less list.size(3) nat_less_iff
        of_nat_0 zle_add1_eq_le zle_diff1_eq zero_less_nat_eq diff_add_cancel add.commute diff_ge_0_iff_ge
        less_irrefl)
qed

lemma implements_ltrim: "implements cmd_ltrim spec_ltrim"
proof (rule implementsI, goal_cases)
  case (1 argv s)
  from 1 show ?case
  proof (cases rule: list_cases [of s "argv ! 1"])
    case (present ob l)
    show ?thesis
    proof (cases "string_to_ll (argv ! 2)"; cases "string_to_ll (argv ! 3)")
      fix i j
      assume ij: "string_to_ll (argv ! 2) = Some i" "string_to_ll (argv ! 3) = Some j"
      show ?thesis
      proof (cases "range_normalize (int (list_len l)) i j")
        case None
        then have "lslice (list_vals l) i j = []"
          using range_normalize_None dq.len_vals [OF present(7)] by simp
        then show ?thesis using present ij None by (simp add: cmd_ltrim_def spec_ltrim_def put_list_def)
      next
        case (Some p)
        then obtain a b where "range_normalize (int (list_len l)) i j = Some (a, b)" by (cases p) auto
        with ltrim_ok [OF present(7) this] present ij show ?thesis
          by (simp add: cmd_ltrim_def spec_ltrim_def Let_def put_list_def)
      qed
    qed (use present in \<open>simp_all add: cmd_ltrim_def spec_ltrim_def\<close>)
  qed (use 1 in \<open>simp_all add: cmd_ltrim_def spec_ltrim_def split: option.split\<close>)
qed

text \<open>What one pass of \<open>LREM\<close> leaves of the values ahead, after \<open>r\<close> removals.\<close>

definition lrem_rest :: "int \<Rightarrow> int \<Rightarrow> 'a \<Rightarrow> 'a list \<Rightarrow> 'a list" where
  "lrem_rest count r t xs = (if count = 0 then filter (\<lambda>x. x \<noteq> t) xs else drop_first (nat (count - r)) t xs)"

lemma drop_first_0 [simp]: "drop_first 0 t xs = xs"
  by (cases xs) simp_all

lemma lrem_rest_simps:
  "lrem_rest count r t [] = []"
  "count = 0 \<or> r < count \<Longrightarrow> lrem_rest count r t (x # xs) =
     (if x = t then lrem_rest count (r + 1) t xs else x # lrem_rest count r t xs)"
  "\<not> (count = 0 \<or> r < count) \<Longrightarrow> lrem_rest count r t xs = xs"
proof -
  have "nat (count - r) = Suc (nat (count - (r + 1)))" if "r < count" using that by simp
  then show "count = 0 \<or> r < count \<Longrightarrow> lrem_rest count r t (x # xs) =
      (if x = t then lrem_rest count (r + 1) t xs else x # lrem_rest count r t xs)"
    by (auto simp: lrem_rest_def)
qed (simp_all add: lrem_rest_def)

lemma lrem_forward_ok:
  "list_ok l (xs @ ys) \<Longrightarrow> length ys \<le> fuel \<Longrightarrow>
     \<exists>l' ns. lrem_forward fuel count t l (firstp ys None) r =
         (l', r + int (length ys) - int (length (lrem_rest count r t (map snd ys)))) \<and>
       list_ok l' ns \<and> map snd ns = map snd xs @ lrem_rest count r t (map snd ys)"
proof (induction fuel arbitrary: l xs ys r)
  case 0
  then show ?case by (auto simp: lrem_rest_simps(1))
next
  case (Suc fuel)
  show ?case
  proof (cases ys)
    case Nil
    then show ?thesis using Suc.prems by (auto simp: lrem_rest_simps(1))
  next
    case (Cons m ms)
    obtain a v where m: "m = (a, v)" by fastforce
    have ok: "list_ok l (xs @ (a, v) # ms)" using Suc.prems Cons m by simp
    then have node: "next (node_of l a) = firstp ms None" "lval (node_of l a) = v"
      by (simp_all add: node_of_def list_ok_node [OF ok])
    show ?thesis
    proof (cases "count = 0 \<or> r < count")
      case True
      note step = lrem_rest_simps(2) [OF True, of t v "map snd ms"]
      show ?thesis
        using Suc.IH [OF list_detach_ok(2) [OF ok], of "r + 1"] Suc.IH [of l "xs @ [(a, v)]" ms r]
          ok True Cons m node step Suc.prems(2)
        by (cases "v = t") (force simp: Let_def)+
    next
      case False
      then show ?thesis using Suc.prems Cons m by (auto simp: lrem_rest_simps(3))
    qed
  qed
qed

lemma lrem_backward_ok:
  "list_ok l (ys @ xs) \<Longrightarrow> length ys \<le> fuel \<Longrightarrow> count < 0 \<Longrightarrow>
     \<exists>l' ns. lrem_backward fuel count t l (lastp None ys) r =
         (l', r + int (length ys) - int (length (lrem_rest (- count) r t (rev (map snd ys))))) \<and>
       list_ok l' ns \<and> map snd ns = rev (lrem_rest (- count) r t (rev (map snd ys))) @ map snd xs"
proof (induction fuel arbitrary: l xs ys r)
  case 0
  then show ?case by (auto simp: lrem_rest_simps(1))
next
  case (Suc fuel)
  show ?case
  proof (cases ys rule: rev_cases)
    case Nil
    then show ?thesis using Suc.prems by (auto simp: lrem_rest_simps(1))
  next
    case (snoc ms m)
    obtain a v where m: "m = (a, v)" by fastforce
    have ok: "list_ok l (ms @ (a, v) # xs)" using Suc.prems snoc m by simp
    then have node: "prev (node_of l a) = lastp None ms" "lval (node_of l a) = v"
      by (simp_all add: node_of_def list_ok_node [OF ok])
    show ?thesis
    proof (cases "r < - count")
      case True
      note step = lrem_rest_simps(2) [of "- count" r t v "rev (map snd ms)"]
      show ?thesis
        using Suc.IH [OF list_detach_ok(2) [OF ok], of "r + 1"] Suc.IH [of l ms "(a, v) # xs" r]
          ok True snoc m node step Suc.prems(2,3)
        by (cases "v = t") (force simp: Let_def rev_map)+
    next
      case False
      then have "lrem_rest (- count) r t zs = zs" for zs
        using Suc.prems(3) by (intro lrem_rest_simps(3)) auto
      then show ?thesis using False Suc.prems snoc m by (auto simp: rev_map)
    qed
  qed
qed

lemma lrem_ok:
  assumes "list_inv l"
  shows "list_inv (fst (lrem_loop count t l))" "list_vals (fst (lrem_loop count t l)) = lrem_list count t (list_vals l)"
    and "snd (lrem_loop count t l) = int (length (list_vals l)) - int (length (lrem_list count t (list_vals l)))"
proof -
  obtain ns where ns: "list_ok l ns" "list_vals l = map snd ns" using list_inv_vals [OF assms(1)] by blast
  have f: "list_first l = firstp ns None" "list_last l = lastp None ns" "list_len l = length ns"
    using ns(1) by (simp_all add: list_ok_def list_first_def list_last_def list_len_def)
  have "\<exists>l' ms. lrem_loop count t l = (l', int (length ns) - int (length (lrem_list count t (map snd ns)))) \<and> list_ok l' ms \<and>
      map snd ms = lrem_list count t (map snd ns)"
    using lrem_forward_ok [of l "[]" ns "length ns" count t 0]
      lrem_backward_ok [of l ns "[]" "length ns" count t 0] ns(1)
    by (cases "count \<ge> 0") (auto simp: lrem_loop_def f lrem_rest_def lrem_list_def)
  then show "list_inv (fst (lrem_loop count t l))"
    "list_vals (fst (lrem_loop count t l)) = lrem_list count t (list_vals l)"
    "snd (lrem_loop count t l) = int (length (list_vals l)) - int (length (lrem_list count t (list_vals l)))"
    by (auto simp: list_ok_inv list_vals_ok ns(2))
qed

lemma implements_lrem: "implements cmd_lrem spec_lrem"
proof (rule implementsI, goal_cases)
  case (1 argv s)
  from 1 show ?case
  proof (cases rule: list_cases [of s "argv ! 1"])
    case (present ob l)
    show ?thesis
    proof (cases "string_to_ll (argv ! 2)")
      case (Some c)
      obtain l' n where p: "lrem_loop c (argv ! 3) l = (l', n)" by fastforce
      note q = lrem_ok [OF present(7), of c "argv ! 3", unfolded p fst_conv snd_conv]
      show ?thesis
        using present Some q
        by (simp add: cmd_lrem_def spec_lrem_def p Let_def put_list_def maybe_delete_key_def)
    qed (use present in \<open>simp add: cmd_lrem_def spec_lrem_def\<close>)
  qed (use 1 in \<open>simp_all add: cmd_lrem_def spec_lrem_def split: option.split\<close>)
qed

lemma find_node_ok:
  "list_ok l (xs @ ys) \<Longrightarrow> length ys \<le> fuel \<Longrightarrow>
     find_node fuel l p (firstp ys None) =
       (case dropWhile (\<lambda>n. snd n \<noteq> p) ys of [] \<Rightarrow> None | n # _ \<Rightarrow> Some (fst n))"
proof (induction fuel arbitrary: xs ys)
  case (Suc fuel)
  show ?case
  proof (cases ys)
    case (Cons m ms)
    obtain a v where m: "m = (a, v)" by fastforce
    have ok: "list_ok l (xs @ (a, v) # ms)" using Suc.prems Cons m by simp
    then have "next (node_of l a) = firstp ms None" "lval (node_of l a) = v"
      by (simp_all add: node_of_def list_ok_node [OF ok])
    then show ?thesis using Suc.IH [of "xs @ [m]" ms] Suc.prems Cons m by simp
  qed simp
qed simp

lemma linsert_before:
  assumes "list_ok l (as @ (a, w) # bs)"
  shows "list_ok (list_insert_after l (prev (node_of l a)) v) (as @ (fresh l, v) # (a, w) # bs)"
proof (cases as rule: rev_cases)
  case Nil
  then show ?thesis
    using assms list_insert_head_ok [of l "(a, w) # bs" v]
    by (simp add: node_of_def list_ok_node [OF assms])
next
  case (snoc cs m)
  then show ?thesis
    using assms list_insert_after_ok [of l cs "fst m" "snd m" "(a, w) # bs" v]
    by (simp add: node_of_def list_ok_node [OF assms])
qed

lemma implements_linsert: "implements cmd_linsert spec_linsert"
proof (rule implementsI, goal_cases)
  case (1 argv s)
  let ?p = "argv ! 3"
  from 1 show ?case
  proof (cases rule: list_cases [of s "argv ! 1"])
    case (present ob l)
    obtain ns where ns: "list_ok l ns" "list_vals l = map snd ns" using list_inv_vals [OF present(7)] by blast
    have f: "list_first l = firstp ns None" "list_len l = length ns"
      using ns(1) by (simp_all add: list_ok_def list_first_def list_len_def)
    define as where "as = takeWhile (\<lambda>n. snd n \<noteq> ?p) ns"
    define ds where "ds = dropWhile (\<lambda>n. snd n \<noteq> ?p) ns"
    have tw: "takeWhile (\<lambda>x. x \<noteq> ?p) (list_vals l) = map snd as"
      "dropWhile (\<lambda>x. x \<noteq> ?p) (list_vals l) = map snd ds" and split: "ns = as @ ds"
      by (simp_all add: ns(2) takeWhile_map dropWhile_map comp_def as_def ds_def)
    have find: "find_node (list_len l) l ?p (list_first l) = (case ds of [] \<Rightarrow> None | n # _ \<Rightarrow> Some (fst n))"
      using find_node_ok [of l "[]" ns "length ns" ?p] ns(1) by (simp add: f ds_def)
    show ?thesis
    proof (cases ds)
      case Nil
      then show ?thesis
        using present tw find
        by (simp add: cmd_linsert_def spec_linsert_def Let_def del: dropWhile_eq_Nil_conv)
    next
      case (Cons m bs)
      obtain a w where m: "m = (a, w)" by fastforce
      have ok: "list_ok l (as @ (a, w) # bs)" using ns(1) split Cons m by simp
      note ins = linsert_before [OF ok, of "argv ! 4"] list_insert_after_ok [OF ok, of "argv ! 4"]
      have len: "length (list_vals l) = length as + length bs + 1"
        using split ns(2) Cons by simp
      show ?thesis
        using present tw find Cons m ins [THEN list_ok_inv] ins [THEN list_vals_ok] len
        by (simp add: cmd_linsert_def spec_linsert_def Let_def dq.len_vals del: dropWhile_eq_Cons_conv dropWhile_eq_Nil_conv)
    qed
  qed (use 1 in \<open>simp_all add: cmd_linsert_def spec_linsert_def\<close>)
qed

section \<open>Properties\<close>

text \<open>
  C16. Every list command does what its specification says on the list of a key as a plain list, on
  every branch, the error replies included; a list that becomes empty takes its key with it.
\<close>

theorem list_commands_correct:
  "implements cmd_lpush (spec_push True False) \<and> implements cmd_rpush (spec_push False False) \<and>
   implements cmd_lpushx (spec_push True True) \<and> implements cmd_rpushx (spec_push False True) \<and>
   implements cmd_lpop (spec_pop True) \<and> implements cmd_rpop (spec_pop False) \<and>
   implements cmd_llen spec_llen \<and> implements cmd_lrange spec_lrange \<and> implements cmd_lindex spec_lindex \<and>
   implements cmd_lset spec_lset \<and> implements cmd_ltrim spec_ltrim \<and> implements cmd_lrem spec_lrem \<and>
   implements cmd_linsert spec_linsert"
  by (simp add: implements_push implements_pop implements_llen implements_lrange implements_lindex
      implements_lset implements_ltrim implements_lrem implements_linsert
      cmd_lpush_def cmd_rpush_def cmd_lpushx_def cmd_rpushx_def cmd_lpop_def cmd_rpop_def)

end
