(* ===== verification/Db_Hash.thy ===== *)
theory Db_Hash
  imports Db
begin

text \<open>
  The hash commands of \<open>src/db.c\<close> (lines 1144 to 1427).
\<close>

section \<open>The handlers\<close>

definition new_hash :: "st \<Rightarrow> robj \<times> st" where
  "new_hash s = (case new_seed s of (seed, s1) \<Rightarrow> (robj_new_hash seed, s1))"

text \<open>The hash under the key, or a new one that is bound to the key first.\<close>

definition hash_for_write :: "bytes \<Rightarrow> robj option \<Rightarrow> st \<Rightarrow> robj \<times> st" where
  "hash_for_write key found s =
     (case found of
        Some ob \<Rightarrow> (ob, s)
      | None \<Rightarrow> (case new_hash s of (ob, s1) \<Rightarrow> (ob, store_set key ob s1)))"

fun arg_pairs :: "bytes list \<Rightarrow> (bytes \<times> bytes) list" where
  "arg_pairs (f # x # rest) = (f, x) # arg_pairs rest"
| "arg_pairs _ = []"

definition hash_set_many :: "bool \<Rightarrow> command \<Rightarrow> st \<Rightarrow> st" where
  "hash_set_many reply_ok argv s =
     (if length argv < 4 \<or> odd (length argv - 2) then reply_error (wrong_args (argv ! 0)) s
      else case lookup_key (argv ! 1) s of (found, s1) \<Rightarrow>
        if type_mismatch OBJ_HASH found then reply_wrongtype s1
        else case hash_for_write (argv ! 1) found s1 of (ob, s2) \<Rightarrow>
          (case as_hash (ptr ob) of
             None \<Rightarrow> s2
           | Some h \<Rightarrow>
               (case put_loop dict_get dict_set (arg_pairs (drop 2 argv)) 0 h of
                  (added, h') \<Rightarrow>
                    let s3 = store_assign (argv ! 1) (ob\<lparr>ptr := PHash h'\<rparr>) s2
                    in if reply_ok then reply_simple ''OK'' s3 else reply_integer (int added) s3)))"

definition cmd_hset :: "command \<Rightarrow> st \<Rightarrow> st" where "cmd_hset = hash_set_many False"
definition cmd_hmset :: "command \<Rightarrow> st \<Rightarrow> st" where "cmd_hmset = hash_set_many True"

definition cmd_hget :: "command \<Rightarrow> st \<Rightarrow> st" where
  "cmd_hget argv s =
     (if length argv \<noteq> 3 then reply_error (wrong_args ''hget'') s
      else case lookup_key (argv ! 1) s of
        (None, s1) \<Rightarrow> reply_null s1
      | (Some ob, s1) \<Rightarrow>
          (case as_hash (ptr ob) of
             None \<Rightarrow> reply_wrongtype s1
           | Some h \<Rightarrow>
               (case dict_get h (argv ! 2) of
                  None \<Rightarrow> reply_null s1
                | Some x \<Rightarrow> reply_bulk x s1)))"

fun hmget_loop :: "bytes dict option \<Rightarrow> bytes list \<Rightarrow> st \<Rightarrow> st" where
  "hmget_loop h [] s = s"
| "hmget_loop h (f # fs) s =
     hmget_loop h fs
       (case Option.bind h (\<lambda>d. dict_get d f) of
          Some x \<Rightarrow> reply_bulk x s
        | None \<Rightarrow> reply_null s)"

definition cmd_hmget :: "command \<Rightarrow> st \<Rightarrow> st" where
  "cmd_hmget argv s =
     (if length argv < 3 then reply_error (wrong_args ''hmget'') s
      else case lookup_key (argv ! 1) s of (found, s1) \<Rightarrow>
        if type_mismatch OBJ_HASH found then reply_wrongtype s1
        else hmget_loop (Option.bind found (\<lambda>ob. as_hash (ptr ob))) (drop 2 argv)
               (reply_array_header (length argv - 2) s1))"

definition cmd_hgetall :: "command \<Rightarrow> st \<Rightarrow> st" where
  "cmd_hgetall argv s =
     (if length argv \<noteq> 2 then reply_error (wrong_args ''hgetall'') s
      else case lookup_key (argv ! 1) s of
        (None, s1) \<Rightarrow> reply_array_header 0 s1
      | (Some ob, s1) \<Rightarrow>
          (case as_hash (ptr ob) of
             None \<Rightarrow> reply_wrongtype s1
           | Some h \<Rightarrow>
               reply_bulks (concat (map (\<lambda>e. [ekey e, evalue e]) (dict_entries h)))
                 (reply_array_header (dict_size h * 2) s1)))"

definition hash_keys_or_vals :: "bool \<Rightarrow> command \<Rightarrow> st \<Rightarrow> st" where
  "hash_keys_or_vals vals argv s =
     (if length argv \<noteq> 2 then reply_error (wrong_args (argv ! 0)) s
      else case lookup_key (argv ! 1) s of
        (None, s1) \<Rightarrow> reply_array_header 0 s1
      | (Some ob, s1) \<Rightarrow>
          (case as_hash (ptr ob) of
             None \<Rightarrow> reply_wrongtype s1
           | Some h \<Rightarrow>
               reply_bulks (map (\<lambda>e. if vals then evalue e else ekey e) (dict_entries h))
                 (reply_array_header (dict_size h) s1)))"

definition cmd_hkeys :: "command \<Rightarrow> st \<Rightarrow> st" where "cmd_hkeys = hash_keys_or_vals False"
definition cmd_hvals :: "command \<Rightarrow> st \<Rightarrow> st" where "cmd_hvals = hash_keys_or_vals True"

definition cmd_hlen :: "command \<Rightarrow> st \<Rightarrow> st" where
  "cmd_hlen argv s =
     (if length argv \<noteq> 2 then reply_error (wrong_args ''hlen'') s
      else case lookup_key (argv ! 1) s of
        (None, s1) \<Rightarrow> reply_integer 0 s1
      | (Some ob, s1) \<Rightarrow>
          (case as_hash (ptr ob) of
             None \<Rightarrow> reply_wrongtype s1
           | Some h \<Rightarrow> reply_integer (int (dict_size h)) s1))"

definition cmd_hexists :: "command \<Rightarrow> st \<Rightarrow> st" where
  "cmd_hexists argv s =
     (if length argv \<noteq> 3 then reply_error (wrong_args ''hexists'') s
      else case lookup_key (argv ! 1) s of
        (None, s1) \<Rightarrow> reply_integer 0 s1
      | (Some ob, s1) \<Rightarrow>
          (case as_hash (ptr ob) of
             None \<Rightarrow> reply_wrongtype s1
           | Some h \<Rightarrow> reply_integer (if dict_get h (argv ! 2) = None then 0 else 1) s1))"

definition cmd_hdel :: "command \<Rightarrow> st \<Rightarrow> st" where
  "cmd_hdel argv s =
     (if length argv < 3 then reply_error (wrong_args ''hdel'') s
      else case lookup_key (argv ! 1) s of
        (None, s1) \<Rightarrow> reply_integer 0 s1
      | (Some ob, s1) \<Rightarrow>
          (case as_hash (ptr ob) of
             None \<Rightarrow> reply_wrongtype s1
           | Some h \<Rightarrow>
               (case del_loop dict_delete (drop 2 argv) 0 h of
                  (removed, h') \<Rightarrow>
                    let ob' = ob\<lparr>ptr := PHash h'\<rparr>
                    in maybe_delete_key (argv ! 1) ob'
                         (reply_integer (int removed) (store_assign (argv ! 1) ob' s1)))))"

definition cmd_hsetnx :: "command \<Rightarrow> st \<Rightarrow> st" where
  "cmd_hsetnx argv s =
     (if length argv \<noteq> 4 then reply_error (wrong_args ''hsetnx'') s
      else case lookup_key (argv ! 1) s of (found, s1) \<Rightarrow>
        if type_mismatch OBJ_HASH found then reply_wrongtype s1
        else case hash_for_write (argv ! 1) found s1 of (ob, s2) \<Rightarrow>
          (case as_hash (ptr ob) of
             None \<Rightarrow> s2
           | Some h \<Rightarrow>
               if dict_get h (argv ! 2) \<noteq> None then reply_integer 0 s2
               else let h' = snd (dict_set h (argv ! 2) (argv ! 3))
                    in reply_integer 1 (store_assign (argv ! 1) (ob\<lparr>ptr := PHash h'\<rparr>) s2)))"

definition cmd_hincrby :: "command \<Rightarrow> st \<Rightarrow> st" where
  "cmd_hincrby argv s =
     (if length argv \<noteq> 4 then reply_error (wrong_args ''hincrby'') s
      else case string_to_ll (argv ! 3) of
        None \<Rightarrow> reply_error not_integer s
      | Some delta \<Rightarrow>
          (case lookup_key (argv ! 1) s of (found, s1) \<Rightarrow>
             if type_mismatch OBJ_HASH found then reply_wrongtype s1
             else case hash_for_write (argv ! 1) found s1 of (ob, s2) \<Rightarrow>
               (case as_hash (ptr ob) of
                  None \<Rightarrow> s2
                | Some h \<Rightarrow>
                    (case (case dict_get h (argv ! 2) of None \<Rightarrow> Some 0 | Some x \<Rightarrow> string_to_ll_n x) of
                       None \<Rightarrow> reply_error ''hash value is not an integer'' s2
                     | Some cur \<Rightarrow>
                         let nv = wrap64 (cur + delta) in
                         if (delta > 0 \<and> nv < cur) \<or> (delta < 0 \<and> nv > cur)
                         then reply_error would_overflow s2
                         else let h' = snd (dict_set h (argv ! 2) (show_int nv))
                              in reply_integer nv
                                   (store_assign (argv ! 1) (ob\<lparr>ptr := PHash h'\<rparr>) s2)))))"

definition not_finite :: bytes where "not_finite = ''increment would produce NaN or Infinity''"

definition nan_or_inf :: "double \<Rightarrow> bool" where
  "nan_or_inf nv = (\<not> d_eq nv nv \<or> d_eq nv (d_make False d_inf_mag) \<or> d_eq nv (d_make True d_inf_mag))"

definition cmd_hincrbyfloat :: "command \<Rightarrow> st \<Rightarrow> st" where
  "cmd_hincrbyfloat argv s =
     (if length argv \<noteq> 4 then reply_error (wrong_args ''hincrbyfloat'') s
      else case parse_double (argv ! 3) of
        None \<Rightarrow> reply_error not_float s
      | Some delta \<Rightarrow>
          (case lookup_key (argv ! 1) s of (found, s1) \<Rightarrow>
             if type_mismatch OBJ_HASH found then reply_wrongtype s1
             else case hash_for_write (argv ! 1) found s1 of (ob, s2) \<Rightarrow>
               (case as_hash (ptr ob) of
                  None \<Rightarrow> s2
                | Some h \<Rightarrow>
                    (case (case dict_get h (argv ! 2) of None \<Rightarrow> Some 0 | Some x \<Rightarrow> parse_double (cstr x)) of
                       None \<Rightarrow> reply_error ''hash value is not a float'' s2
                     | Some cur \<Rightarrow>
                         let nv = d_add cur delta in
                         if nan_or_inf nv
                         then reply_error not_finite s2
                         else let buf = take 63 (fmt17 nv);
                                  h' = snd (dict_set h (argv ! 2) buf)
                              in reply_bulk_cstr buf
                                   (store_assign (argv ! 1) (ob\<lparr>ptr := PHash h'\<rparr>) s2)))))"

section \<open>What they do\<close>

definition put_hash :: "bytes \<Rightarrow> (bytes \<Rightarrow> bytes option) \<Rightarrow> int \<Rightarrow> view \<Rightarrow> view" where
  "put_hash k m e v = (if m = Map.empty then v(k := None) else v(k \<mapsto> (AHash m, e)))"

definition spec_hset :: "bool \<Rightarrow> spec" where
  "spec_hset reply_ok argv now v =
     (if length argv < 4 \<or> odd (length argv - 2) then (err (wrong_args (argv ! 0)), v)
      else let kvs = arg_pairs (drop 2 argv);
               fill = (\<lambda>m e. (if reply_ok then ok_reply else RInt (int (card (fst ` set kvs - dom m))),
                               v(argv ! 1 \<mapsto> (AHash (m ++ map_of (rev kvs)), e))))
           in on_hash v (argv ! 1) (fill Map.empty (- 1)) fill)"

definition spec_hget :: spec where
  "spec_hget argv now v =
     (if length argv \<noteq> 3 then (err (wrong_args ''hget''), v)
      else on_hash v (argv ! 1) (RNull, v)
        (\<lambda>m e. (case m (argv ! 2) of None \<Rightarrow> RNull | Some x \<Rightarrow> RBulk x, v)))"

definition field_reply :: "(bytes \<Rightarrow> bytes option) \<Rightarrow> bytes \<Rightarrow> reply" where
  "field_reply m f = (case m f of None \<Rightarrow> RNull | Some x \<Rightarrow> RBulk x)"

definition spec_hmget :: spec where
  "spec_hmget argv now v =
     (if length argv < 3 then (err (wrong_args ''hmget''), v)
      else on_hash v (argv ! 1) (RArray (map (field_reply Map.empty) (drop 2 argv)), v)
        (\<lambda>m e. (RArray (map (field_reply m) (drop 2 argv)), v)))"

text \<open>The fields of a hash in some order.\<close>

definition listing :: "(bytes \<times> 'a) list \<Rightarrow> (bytes \<Rightarrow> 'a option) \<Rightarrow> bool" where
  "listing fs m = (distinct (map fst fs) \<and> map_of fs = m)"

definition hash_at :: "view \<Rightarrow> bytes \<Rightarrow> bytes \<Rightarrow> bytes option" where
  "hash_at v k = (case v k of Some (AHash m, e) \<Rightarrow> m | _ \<Rightarrow> Map.empty)"

definition spec_hgetall :: spec_set where
  "spec_hgetall argv now v =
     (if length argv \<noteq> 2 then {(err (wrong_args ''hgetall''), v)}
      else {on_hash v (argv ! 1) (RArray [], v)
              (\<lambda>m e. (RArray (concat (map (\<lambda>(f, x). [RBulk f, RBulk x]) fs)), v)) | fs.
            listing fs (hash_at v (argv ! 1))})"

definition spec_hkeys :: "bool \<Rightarrow> spec_set" where
  "spec_hkeys vals argv now v =
     (if length argv \<noteq> 2 then {(err (wrong_args (argv ! 0)), v)}
      else {on_hash v (argv ! 1) (RArray [], v)
              (\<lambda>m e. (RArray (map (\<lambda>(f, x). RBulk (if vals then x else f)) fs), v)) | fs.
            listing fs (hash_at v (argv ! 1))})"

definition spec_hlen :: spec where
  "spec_hlen argv now v =
     (if length argv \<noteq> 2 then (err (wrong_args ''hlen''), v)
      else on_hash v (argv ! 1) (RInt 0, v) (\<lambda>m e. (RInt (int (card (dom m))), v)))"

definition spec_hexists :: spec where
  "spec_hexists argv now v =
     (if length argv \<noteq> 3 then (err (wrong_args ''hexists''), v)
      else on_hash v (argv ! 1) (RInt 0, v)
        (\<lambda>m e. (RInt (if argv ! 2 \<in> dom m then 1 else 0), v)))"

definition spec_hdel :: spec where
  "spec_hdel argv now v =
     (if length argv < 3 then (err (wrong_args ''hdel''), v)
      else on_hash v (argv ! 1) (RInt 0, v)
        (\<lambda>m e. (RInt (int (card (set (drop 2 argv) \<inter> dom m))),
                 put_hash (argv ! 1) (m |` (- set (drop 2 argv))) e v)))"

definition spec_hsetnx :: spec where
  "spec_hsetnx argv now v =
     (if length argv \<noteq> 4 then (err (wrong_args ''hsetnx''), v)
      else let add = (\<lambda>m e. if argv ! 2 \<in> dom m then (RInt 0, v)
                 else (RInt 1, v(argv ! 1 \<mapsto> (AHash (m(argv ! 2 \<mapsto> argv ! 3)), e))))
           in on_hash v (argv ! 1) (add Map.empty (- 1)) add)"

definition spec_hincrby :: spec where
  "spec_hincrby argv now v =
     (if length argv \<noteq> 4 then (err (wrong_args ''hincrby''), v)
      else case string_to_ll (argv ! 3) of
        None \<Rightarrow> (err not_integer, v)
      | Some delta \<Rightarrow>
          let incr = (\<lambda>m e.
                case (case m (argv ! 2) of None \<Rightarrow> Some 0 | Some x \<Rightarrow> string_to_ll_n x) of
                  None \<Rightarrow> (err ''hash value is not an integer'', v)
                | Some i \<Rightarrow>
                    if LLONG_MIN \<le> i + delta \<and> i + delta \<le> LLONG_MAX
                    then (RInt (i + delta),
                          v(argv ! 1 \<mapsto> (AHash (m(argv ! 2 \<mapsto> show_int (i + delta))), e)))
                    else (err would_overflow, v))
          in on_hash v (argv ! 1) (incr Map.empty (- 1)) incr)"

text \<open>
  A failing increment of a field that is not there creates the key with an empty hash.
\<close>

definition spec_hincrbyfloat :: spec where
  "spec_hincrbyfloat argv now v =
     (if length argv \<noteq> 4 then (err (wrong_args ''hincrbyfloat''), v)
      else case parse_double (argv ! 3) of
        None \<Rightarrow> (err not_float, v)
      | Some delta \<Rightarrow>
          let incr = (\<lambda>m e.
                case (case m (argv ! 2) of None \<Rightarrow> Some 0 | Some x \<Rightarrow> parse_double (cstr x)) of
                  None \<Rightarrow> (err ''hash value is not a float'', v(argv ! 1 \<mapsto> (AHash m, e)))
                | Some d \<Rightarrow>
                    if d_finite (d_add d delta)
                    then (score_reply (d_add d delta),
                          v(argv ! 1 \<mapsto> (AHash (m(argv ! 2 \<mapsto> fmt17 (d_add d delta))), e)))
                    else (err not_finite, v(argv ! 1 \<mapsto> (AHash m, e))))
          in on_hash v (argv ! 1) (incr Map.empty (- 1)) incr)"

section \<open>Proofs\<close>

lemma robj_new_hash_sel [simp]: "ptr (robj_new_hash x) = PHash (dict_create x)" "expire_at (robj_new_hash x) = - 1"
  by (simp_all add: robj_new_hash_def)

lemma hash_for_write_simps [simp]:
  "hash_for_write key (Some ob) s = (ob, s)"
  "hash_for_write key None s =
     (robj_new_hash (seeds s (seed_pos s)),
      store_set key (robj_new_hash (seeds s (seed_pos s))) (s\<lparr>seed_pos := seed_pos s + 1\<rparr>))"
  by (simp_all add: hash_for_write_def new_hash_def new_seed_def)

lemma put_loop_dict:
  assumes "dict_ok h" "put_loop dict_get dict_set kvs 0 h = (n, h')"
  shows "n = card (fst ` set kvs - dom (dict_get h))" "dict_get h' = dict_get h ++ map_of (rev kvs)" "dict_ok h'"
  using ds.put_loop_correct [OF assms(1), of kvs 0] assms(2) by simp_all

lemma del_loop_dict:
  assumes "dict_ok h" "del_loop dict_delete ks 0 h = (n, h')"
  shows "n = card (set ks \<inter> dom (dict_get h))" "dict_get h' = dict_get h |` (- set ks)" "dict_ok h'"
  using ds.del_loop_correct [OF assms(1), of ks 0] assms(2) by simp_all

lemma implements_hset: "implements (hash_set_many reply_ok) (spec_hset reply_ok)"
proof (rule implementsI, goal_cases)
  case (1 argv s)
  let ?kvs = "arg_pairs (drop 2 argv)"
  from 1 show ?case
  proof (cases rule: hash_cases [of s "argv ! 1"])
    case (absent s1)
    obtain n h where p: "put_loop dict_get dict_set ?kvs 0 (dict_create (seeds s (seed_pos s1))) = (n, h)"
      by fastforce
    then show ?thesis using absent 1 put_loop_dict [OF _ p]
      by (auto simp: hash_set_many_def spec_hset_def Let_def)
  next
    case (present ob h0)
    obtain n h where p: "put_loop dict_get dict_set ?kvs 0 h0 = (n, h)" by fastforce
    then show ?thesis using present put_loop_dict [OF present(7) p]
      by (auto simp: hash_set_many_def spec_hset_def Let_def)
  next
    case (other ob)
    then show ?thesis by (auto simp: hash_set_many_def spec_hset_def)
  qed
qed

lemma implements_hget: "implements cmd_hget spec_hget"
  apply (rule implementsI)
  subgoal for argv s
    by (cases rule: hash_cases [of s "argv ! 1"]) (auto simp: cmd_hget_def spec_hget_def split: option.split)
  done

lemma hmget_loop_correct:
  "st_ok s \<Longrightarrow> gives s (hmget_loop h fs s) (view s)
     (concat (map encode (map (field_reply (case h of None \<Rightarrow> Map.empty | Some d \<Rightarrow> dict_get d)) fs)))"
proof (induction fs arbitrary: s)
  case (Cons f fs)
  show ?case
    using Cons.IH [of "reply_null s"] Cons.IH [of "reply_bulk x s" for x] Cons.prems
    by (cases h; cases "dict_get (the h) f") (auto simp: gives_def field_reply_def)
qed (simp add: gives_refl)

lemma implements_hmget: "implements cmd_hmget spec_hmget"
  apply (rule implementsI)
  subgoal for argv s
    apply (cases rule: hash_cases [of s "argv ! 1"], assumption)
    subgoal for s1
      using hmget_loop_correct [of "reply_array_header (length argv - 2) s1" None "drop 2 argv"]
        encode_array [of "map (field_reply Map.empty) (drop 2 argv)"]
      by (simp add: cmd_hmget_def spec_hmget_def gives_def)
    subgoal for ob h
      using hmget_loop_correct [of "reply_array_header (length argv - 2) s" "Some h" "drop 2 argv"]
        encode_array [of "map (field_reply (dict_get h)) (drop 2 argv)"]
      by (simp add: cmd_hmget_def spec_hmget_def gives_def)
    subgoal by (simp add: cmd_hmget_def spec_hmget_def)
    done
  done

lemma entries_listing:
  "dict_ok d \<Longrightarrow> listing (map pair_of (dict_entries d)) (dict_get d)"
  by (simp add: listing_def pairs_of_entries ds.pairs_get ds.pairs_distinct)

lemma listing_empty [simp]: "listing [] Map.empty"
  by (simp add: listing_def)

lemma hash_at_other:
  "v k = Some (abs_payload p, e) \<Longrightarrow> type_of p \<noteq> OBJ_HASH \<Longrightarrow> hash_at v k = Map.empty"
  by (cases p) (simp_all add: hash_at_def)

lemma allows_hgetall: "allows cmd_hgetall spec_hgetall"
proof (rule allowsI, goal_cases)
  case (1 argv s)
  show ?case
  proof (cases "length argv = 2")
    case True
    from 1 show ?thesis
    proof (cases rule: hash_cases [of s "argv ! 1"])
      case (absent s1)
      with True have "(RArray [], view s) \<in> spec_hgetall argv (clock s) (view s)"
        by (auto simp: spec_hgetall_def hash_at_def intro: exI [of _ "[]"])
      moreover have "gives s (cmd_hgetall argv s) (view s) (encode (RArray []))"
        using True absent by (simp add: cmd_hgetall_def gives_def encode_empty)
      ultimately show ?thesis by blast
    next
      case (present ob h)
      let ?fs = "map pair_of (dict_entries h)"
      let ?r = "RArray (concat (map (\<lambda>(f, x). [RBulk f, RBulk x]) ?fs))"
      have "(?r, view s) \<in> spec_hgetall argv (clock s) (view s)"
        using True present entries_listing [OF present(7)]
        by (auto simp: spec_hgetall_def hash_at_def intro!: exI [of _ ?fs])
      moreover have "concat (map encode (map RBulk (concat (map (\<lambda>e. [ekey e, evalue e]) es)))) =
          concat (map encode (concat (map (\<lambda>(f, x). [RBulk f, RBulk x]) (map pair_of es))))"
        "length (concat (map (\<lambda>(f, x). [RBulk f, RBulk x]) (map pair_of es))) = length es * 2" for es :: "bytes dict_entry list"
        by (induction es) (simp_all add: pair_of_def)
      then have "gives s (cmd_hgetall argv s) (view s) (encode ?r)"
        using True present by (simp add: cmd_hgetall_def gives_def encode.simps entries_size)
      ultimately show ?thesis by blast
    next
      case (other ob)
      then have "(wrongtype, view s) \<in> spec_hgetall argv (clock s) (view s)"
        using True by (auto simp: spec_hgetall_def hash_at_other intro: exI [of _ "[]"])
      moreover have "gives s (cmd_hgetall argv s) (view s) (encode wrongtype)"
        using True other by (simp add: cmd_hgetall_def gives_def)
      ultimately show ?thesis by blast
    qed
  qed (use 1 in \<open>simp add: spec_hgetall_def cmd_hgetall_def gives_def\<close>)
qed

lemma allows_hkeys: "allows (hash_keys_or_vals vals) (spec_hkeys vals)"
proof (rule allowsI, goal_cases)
  case (1 argv s)
  show ?case
  proof (cases "length argv = 2")
    case True
    from 1 show ?thesis
    proof (cases rule: hash_cases [of s "argv ! 1"])
      case (absent s1)
      with True have "(RArray [], view s) \<in> spec_hkeys vals argv (clock s) (view s)"
        by (auto simp: spec_hkeys_def hash_at_def intro: exI [of _ "[]"])
      moreover have "gives s (hash_keys_or_vals vals argv s) (view s) (encode (RArray []))"
        using True absent by (simp add: hash_keys_or_vals_def gives_def encode_empty)
      ultimately show ?thesis by blast
    next
      case (present ob h)
      let ?fs = "map pair_of (dict_entries h)"
      let ?r = "RArray (map (\<lambda>(f, x). RBulk (if vals then x else f)) ?fs)"
      have "(?r, view s) \<in> spec_hkeys vals argv (clock s) (view s)"
        using True present entries_listing [OF present(7)]
        by (auto simp: spec_hkeys_def hash_at_def intro!: exI [of _ ?fs])
      moreover have "gives s (hash_keys_or_vals vals argv s) (view s) (encode ?r)"
        using True present
        by (simp add: hash_keys_or_vals_def gives_def encode.simps entries_size pair_of_def comp_def)
      ultimately show ?thesis by blast
    next
      case (other ob)
      then have "(wrongtype, view s) \<in> spec_hkeys vals argv (clock s) (view s)"
        using True by (auto simp: spec_hkeys_def hash_at_other intro: exI [of _ "[]"])
      moreover have "gives s (hash_keys_or_vals vals argv s) (view s) (encode wrongtype)"
        using True other by (simp add: hash_keys_or_vals_def gives_def)
      ultimately show ?thesis by blast
    qed
  qed (use 1 in \<open>simp add: spec_hkeys_def hash_keys_or_vals_def gives_def\<close>)
qed

lemma implements_hlen: "implements cmd_hlen spec_hlen"
  apply (rule implementsI)
  subgoal for argv s
    by (cases rule: hash_cases [of s "argv ! 1"]) (simp_all add: cmd_hlen_def spec_hlen_def ds.count_card)
  done

lemma implements_hexists: "implements cmd_hexists spec_hexists"
  apply (rule implementsI)
  subgoal for argv s
    by (cases rule: hash_cases [of s "argv ! 1"]) (auto simp: cmd_hexists_def spec_hexists_def)
  done

lemma implements_hdel: "implements cmd_hdel spec_hdel"
proof (rule implementsI, goal_cases)
  case (1 argv s)
  from 1 show ?case
  proof (cases rule: hash_cases [of s "argv ! 1"])
    case (present ob h)
    obtain n h' where p: "del_loop dict_delete (drop 2 argv) 0 h = (n, h')" by fastforce
    then show ?thesis using present del_loop_dict [OF present(7) p]
      by (simp add: cmd_hdel_def spec_hdel_def Let_def put_hash_def maybe_delete_key_def)
  qed (use 1 in \<open>simp_all add: cmd_hdel_def spec_hdel_def\<close>)
qed

lemma implements_hsetnx: "implements cmd_hsetnx spec_hsetnx"
  apply (rule implementsI)
  subgoal for argv s
    by (cases rule: hash_cases [of s "argv ! 1"])
      (auto simp: cmd_hsetnx_def spec_hsetnx_def Let_def dict_set_eqs)
  done

lemma implements_hincrby: "implements cmd_hincrby spec_hincrby"
proof (rule implementsI, goal_cases)
  case (1 argv s)
  show ?case
  proof (cases "string_to_ll (argv ! 3)")
    case None
    with 1 show ?thesis by (simp add: cmd_hincrby_def spec_hincrby_def)
  next
    case (Some delta)
    have over: "(delta > 0 \<and> wrap64 (i + delta) < i \<or> delta < 0 \<and> wrap64 (i + delta) > i) \<longleftrightarrow>
        \<not> (LLONG_MIN \<le> i + delta \<and> i + delta \<le> LLONG_MAX)" if "- LLONG_MAX \<le> i" "i \<le> LLONG_MAX" for i
      using that string_to_ll_range [OF Some] by (intro add_overflow) auto
    from 1 show ?thesis
    proof (cases rule: hash_cases [of s "argv ! 1"])
      case (absent s1)
      then show ?thesis using Some over [of 0] string_to_ll_range [OF Some] 1
        by (auto simp: cmd_hincrby_def spec_hincrby_def Let_def dict_set_eqs)
    next
      case (present ob h)
      show ?thesis
      proof (cases "dict_get h (argv ! 2)")
        case None
        then show ?thesis using present Some over [of 0] string_to_ll_range [OF Some]
          by (auto simp: cmd_hincrby_def spec_hincrby_def Let_def dict_set_eqs)
      next
        case x: (Some x)
        then show ?thesis using present Some over string_to_ll_n_range [of x]
          by (cases "string_to_ll_n x")
            (simp_all add: cmd_hincrby_def spec_hincrby_def Let_def dict_set_eqs)
      qed
    next
      case (other ob)
      then show ?thesis using Some by (simp add: cmd_hincrby_def spec_hincrby_def)
    qed
  qed
qed

lemma nan_or_inf_iff: "nan_or_inf d \<longleftrightarrow> \<not> d_finite d"
proof -
  have "d_ord (d_make b d_inf_mag) = (if b then - int d_inf_mag else int d_inf_mag)" for b
    by (simp add: d_ord_def)
  then show ?thesis
    by (auto simp: nan_or_inf_def d_eq_def d_finite_def d_isnan_def [of d] d_ord_def [of d])
qed

lemma implements_hincrbyfloat: "implements cmd_hincrbyfloat spec_hincrbyfloat"
proof (rule implementsI, goal_cases)
  case (1 argv s)
  show ?case
  proof (cases "parse_double (argv ! 3)")
    case None
    with 1 show ?thesis by (simp add: cmd_hincrbyfloat_def spec_hincrbyfloat_def)
  next
    case (Some delta)
    from 1 show ?thesis
    proof (cases rule: hash_cases [of s "argv ! 1"])
      case (absent s1)
      then show ?thesis using Some 1
        by (simp add: cmd_hincrbyfloat_def spec_hincrbyfloat_def nan_or_inf_iff Let_def dict_set_eqs
            score_reply_def reply_bulk_cstr_def)
    next
      case (present ob h)
      show ?thesis
      proof (cases "case dict_get h (argv ! 2) of None \<Rightarrow> Some 0 | Some x \<Rightarrow> parse_double (cstr x)")
        case None
        then show ?thesis using present Some
          by (simp add: cmd_hincrbyfloat_def spec_hincrbyfloat_def fun_upd_idem)
      next
        case (Some d)
        then show ?thesis using present \<open>parse_double (argv ! 3) = _\<close>
          by (simp add: cmd_hincrbyfloat_def spec_hincrbyfloat_def nan_or_inf_iff Let_def dict_set_eqs
            score_reply_def reply_bulk_cstr_def fun_upd_idem)
      qed
    next
      case (other ob)
      then show ?thesis using Some by (simp add: cmd_hincrbyfloat_def spec_hincrbyfloat_def)
    qed
  qed
qed

section \<open>Properties\<close>

text \<open>
  C17. Every hash command does what its specification says on the hash of a key as a finite map, on
  every branch, the error replies included; the commands that list a hash do so in any order.
\<close>

theorem hash_commands_correct:
  "implements cmd_hset (spec_hset False) \<and> implements cmd_hmset (spec_hset True) \<and>
   implements cmd_hget spec_hget \<and> implements cmd_hmget spec_hmget \<and> allows cmd_hgetall spec_hgetall \<and>
   allows cmd_hkeys (spec_hkeys False) \<and> allows cmd_hvals (spec_hkeys True) \<and> implements cmd_hlen spec_hlen \<and>
   implements cmd_hexists spec_hexists \<and> implements cmd_hdel spec_hdel \<and> implements cmd_hsetnx spec_hsetnx \<and>
   implements cmd_hincrby spec_hincrby \<and> implements cmd_hincrbyfloat spec_hincrbyfloat"
  by (simp add: implements_hset implements_hget implements_hmget allows_hgetall allows_hkeys implements_hlen
      implements_hexists implements_hdel implements_hsetnx implements_hincrby implements_hincrbyfloat
      cmd_hset_def cmd_hmset_def cmd_hkeys_def cmd_hvals_def)

text \<open>
  C35. A failing \<open>HINCRBYFLOAT\<close> on a key that does not exist leaves a key behind, with an empty
  hash: adding an infinity is refused with an error only after the key has been created.
\<close>

theorem hincrbyfloat_error_creates_key:
  assumes "st_ok s" "view s key = None" "parse_double amount = Some d" "\<not> d_finite (d_add 0 d)"
  shows "view (cmd_hincrbyfloat [name, key, field, amount] s) key = Some (AHash Map.empty, - 1) \<and>
    outb (cmd_hincrbyfloat [name, key, field, amount] s) = outb s @ encode (err not_finite)"
proof -
  have "spec_hincrbyfloat [name, key, field, amount] (clock s) (view s) =
      (err not_finite, (view s)(key \<mapsto> (AHash Map.empty, - 1)))"
    using assms by (simp add: spec_hincrbyfloat_def on_hash_def Let_def numeral_3_eq_3)
  from implementsD [OF implements_hincrbyfloat assms(1) this] show ?thesis by (simp add: gives_def)
qed

theorem hincrbyfloat_error_creates_key_witness:
  "view (cmd_hincrbyfloat [''HINCRBYFLOAT'', ''k'', ''f'', ''inf''] demo_st) ''k'' = Some (AHash Map.empty, - 1)"
proof -
  let ?inf = "d_make False d_inf_mag"
  have "d_mag 0 = 0" "0 < d_inf_mag" by (simp_all add: d_mag_def d_inf_mag_def)
  then have "d_add 0 ?inf = ?inf" by (simp add: d_add_def d_isnan_def [of 0])
  then have "\<not> d_finite (d_add 0 ?inf)" by (simp add: d_finite_def)
  then show ?thesis
    using hincrbyfloat_error_creates_key [of demo_st "''k''" "''inf''"] by (simp add: parse_double_inf)
qed

end
