(* ===== verification/Db_Set.thy ===== *)
theory Db_Set
  imports Db
begin

text \<open>
  The set commands of \<open>src/db.c\<close> (lines 1429 to 1719). The multi-set commands hold pointers to the
  dicts of several keys; distinct keys own distinct dicts, so a pointer is the pair of the key and
  the dict, and pointers are equal exactly when the keys are.
\<close>

section \<open>The handlers\<close>

definition set_for_write :: "bytes \<Rightarrow> robj option \<Rightarrow> st \<Rightarrow> robj \<times> st" where
  "set_for_write key found s =
     (case found of
        Some ob \<Rightarrow> (ob, s)
      | None \<Rightarrow>
          (case new_seed s of
             (seed, s1) \<Rightarrow> let ob = robj_new_set seed in (ob, store_set key ob s1)))"

definition cmd_sadd :: "command \<Rightarrow> st \<Rightarrow> st" where
  "cmd_sadd argv s =
     (if length argv < 3 then reply_error (wrong_args ''sadd'') s
      else case lookup_key (argv ! 1) s of (found, s1) \<Rightarrow>
        if type_mismatch OBJ_SET found then reply_wrongtype s1
        else case set_for_write (argv ! 1) found s1 of (ob, s2) \<Rightarrow>
          (case as_set (ptr ob) of
             None \<Rightarrow> s2
           | Some d \<Rightarrow>
               (case add_loop dict_get dict_set () (drop 2 argv) 0 d of
                  (added, d') \<Rightarrow>
                    reply_integer (int added) (store_assign (argv ! 1) (ob\<lparr>ptr := PSet d'\<rparr>) s2))))"

definition cmd_srem :: "command \<Rightarrow> st \<Rightarrow> st" where
  "cmd_srem argv s =
     (if length argv < 3 then reply_error (wrong_args ''srem'') s
      else case lookup_key (argv ! 1) s of
        (None, s1) \<Rightarrow> reply_integer 0 s1
      | (Some ob, s1) \<Rightarrow>
          (case as_set (ptr ob) of
             None \<Rightarrow> reply_wrongtype s1
           | Some d \<Rightarrow>
               (case del_loop dict_delete (drop 2 argv) 0 d of
                  (removed, d') \<Rightarrow>
                    let ob' = ob\<lparr>ptr := PSet d'\<rparr>
                    in maybe_delete_key (argv ! 1) ob'
                         (reply_integer (int removed) (store_assign (argv ! 1) ob' s1)))))"

definition cmd_sismember :: "command \<Rightarrow> st \<Rightarrow> st" where
  "cmd_sismember argv s =
     (if length argv \<noteq> 3 then reply_error (wrong_args ''sismember'') s
      else case lookup_key (argv ! 1) s of
        (None, s1) \<Rightarrow> reply_integer 0 s1
      | (Some ob, s1) \<Rightarrow>
          (case as_set (ptr ob) of
             None \<Rightarrow> reply_wrongtype s1
           | Some d \<Rightarrow> reply_integer (if dict_get d (argv ! 2) = None then 0 else 1) s1))"

definition cmd_scard :: "command \<Rightarrow> st \<Rightarrow> st" where
  "cmd_scard argv s =
     (if length argv \<noteq> 2 then reply_error (wrong_args ''scard'') s
      else case lookup_key (argv ! 1) s of
        (None, s1) \<Rightarrow> reply_integer 0 s1
      | (Some ob, s1) \<Rightarrow>
          (case as_set (ptr ob) of
             None \<Rightarrow> reply_wrongtype s1
           | Some d \<Rightarrow> reply_integer (int (dict_size d)) s1))"

definition cmd_smembers :: "command \<Rightarrow> st \<Rightarrow> st" where
  "cmd_smembers argv s =
     (if length argv \<noteq> 2 then reply_error (wrong_args ''smembers'') s
      else case lookup_key (argv ! 1) s of
        (None, s1) \<Rightarrow> reply_array_header 0 s1
      | (Some ob, s1) \<Rightarrow>
          (case as_set (ptr ob) of
             None \<Rightarrow> reply_wrongtype s1
           | Some d \<Rightarrow> reply_bulks (map ekey (dict_entries d)) (reply_array_header (dict_size d) s1)))"

text \<open>The loop of \<open>SPOP\<close>: reply with a random member and delete it, \<open>n\<close> times at most.\<close>

fun spop_loop :: "nat \<Rightarrow> unit dict \<Rightarrow> st \<Rightarrow> unit dict \<times> st" where
  "spop_loop 0 d s = (d, s)"
| "spop_loop (Suc n) d s =
     (case dict_random_entry (rands s) (rand_pos s) d of
        (None, pos) \<Rightarrow> (d, s\<lparr>rand_pos := pos\<rparr>)
      | (Some e, pos) \<Rightarrow>
          spop_loop n (snd (dict_delete d (ekey e))) (reply_bulk (ekey e) (s\<lparr>rand_pos := pos\<rparr>)))"

definition cmd_spop :: "command \<Rightarrow> st \<Rightarrow> st" where
  "cmd_spop argv s =
     (if length argv < 2 \<or> length argv > 3 then reply_error (wrong_args ''spop'') s
      else case (if length argv = 3 then string_to_ll (argv ! 2) else Some 1) of
        None \<Rightarrow> reply_error ''value is out of range, must be positive'' s
      | Some count \<Rightarrow>
          if count < 0 then reply_error ''value is out of range, must be positive'' s
          else case lookup_key (argv ! 1) s of
            (None, s1) \<Rightarrow> if count = 1 then reply_null s1 else reply_array_header 0 s1
          | (Some ob, s1) \<Rightarrow>
              (case as_set (ptr ob) of
                 None \<Rightarrow> reply_wrongtype s1
               | Some d \<Rightarrow>
                   if count = 1 then
                     (case dict_random_entry (rands s1) (rand_pos s1) d of
                        (None, pos) \<Rightarrow> reply_null (s1\<lparr>rand_pos := pos\<rparr>)
                      | (Some e, pos) \<Rightarrow>
                          let s2 = reply_bulk (ekey e) (s1\<lparr>rand_pos := pos\<rparr>);
                              ob' = ob\<lparr>ptr := PSet (snd (dict_delete d (ekey e)))\<rparr>
                          in maybe_delete_key (argv ! 1) ob' (store_assign (argv ! 1) ob' s2))
                   else
                     let max = (if count < int (dict_size d) then count else int (dict_size d))
                     in case spop_loop (nat max) d (reply_array_header (nat max) s1) of
                          (d', s2) \<Rightarrow>
                            let ob' = ob\<lparr>ptr := PSet d'\<rparr>
                            in maybe_delete_key (argv ! 1) ob' (store_assign (argv ! 1) ob' s2)))"

text \<open>
  The loop over the key arguments with \<open>set_arg_get\<close>: the pointers, NULL for a missing key, or
  \<open>None\<close> after a WRONGTYPE reply.
\<close>

type_synonym set_ptr = "(bytes \<times> unit dict) option"

definition set_arg_get :: "bytes \<Rightarrow> st \<Rightarrow> set_ptr option \<times> st" where
  "set_arg_get key s =
     (case lookup_key key s of (found, s1) \<Rightarrow>
        if type_mismatch OBJ_SET found then (None, reply_wrongtype s1)
        else (Some (case found of
                      None \<Rightarrow> None
                    | Some ob \<Rightarrow> map_option (Pair key) (as_set (ptr ob))), s1))"

fun set_args :: "bytes list \<Rightarrow> st \<Rightarrow> set_ptr list option \<times> st" where
  "set_args [] s = (Some [], s)"
| "set_args (k # ks) s =
     (case set_arg_get k s of
        (None, s1) \<Rightarrow> (None, s1)
      | (Some p, s1) \<Rightarrow> (case set_args ks s1 of (ps, s2) \<Rightarrow> (map_option ((#) p) ps, s2)))"

definition smallest_set :: "(bytes \<times> unit dict) list \<Rightarrow> bytes \<times> unit dict" where
  "smallest_set ds =
     foldl (\<lambda>m d. if dict_size (snd d) < dict_size (snd m) then d else m) (hd ds) (tl ds)"

definition in_all :: "(bytes \<times> unit dict) list \<Rightarrow> bytes \<times> unit dict \<Rightarrow> bytes \<Rightarrow> bool" where
  "in_all ds small k = list_all (\<lambda>d. fst d = fst small \<or> dict_get (snd d) k \<noteq> None) ds"

definition cmd_sinter :: "command \<Rightarrow> st \<Rightarrow> st" where
  "cmd_sinter argv s =
     (if length argv < 2 then reply_error (wrong_args ''sinter'') s
      else case set_args (drop 1 argv) s of
        (None, s1) \<Rightarrow> s1
      | (Some ps, s1) \<Rightarrow>
          if None \<in> set ps then reply_array_header 0 s1
          else let ds = map the ps; small = smallest_set ds;
                   members = filter (in_all ds small) (map ekey (dict_entries (snd small)))
               in reply_bulks members (reply_array_header (length members) s1))"

text \<open>The loop of \<open>SUNION\<close>, with the set collected so far.\<close>

fun union_loop :: "bytes list \<Rightarrow> unit dict \<Rightarrow> st \<Rightarrow> unit dict option \<times> st" where
  "union_loop [] u s = (Some u, s)"
| "union_loop (k # ks) u s =
     (case set_arg_get k s of
        (None, s1) \<Rightarrow> (None, s1)
      | (Some None, s1) \<Rightarrow> union_loop ks u s1
      | (Some (Some p), s1) \<Rightarrow>
          union_loop ks (foldl (\<lambda>u e. snd (dict_set u (ekey e) ())) u (dict_entries (snd p))) s1)"

definition cmd_sunion :: "command \<Rightarrow> st \<Rightarrow> st" where
  "cmd_sunion argv s =
     (if length argv < 2 then reply_error (wrong_args ''sunion'') s
      else case new_seed s of (seed, s0) \<Rightarrow>
        (case union_loop (drop 1 argv) (dict_create seed) s0 of
           (None, s1) \<Rightarrow> s1
         | (Some u, s1) \<Rightarrow>
             reply_bulks (map ekey (dict_entries u)) (reply_array_header (dict_size u) s1)))"

definition in_others :: "set_ptr list \<Rightarrow> bytes \<Rightarrow> bool" where
  "in_others ps k =
     list_ex (\<lambda>p. case p of None \<Rightarrow> False | Some d \<Rightarrow> dict_get (snd d) k \<noteq> None) ps"

definition cmd_sdiff :: "command \<Rightarrow> st \<Rightarrow> st" where
  "cmd_sdiff argv s =
     (if length argv < 2 then reply_error (wrong_args ''sdiff'') s
      else case set_args (drop 1 argv) s of
        (None, s1) \<Rightarrow> s1
      | (Some ps, s1) \<Rightarrow>
          (case hd ps of
             None \<Rightarrow> reply_array_header 0 s1
           | Some d0 \<Rightarrow>
               let members = filter (\<lambda>k. \<not> in_others (tl ps) k) (map ekey (dict_entries (snd d0)))
               in reply_bulks members (reply_array_header (length members) s1)))"

section \<open>What they do\<close>

definition put_set :: "bytes \<Rightarrow> bytes set \<Rightarrow> int \<Rightarrow> view \<Rightarrow> view" where
  "put_set k S e v = (if S = {} then v(k := None) else v(k \<mapsto> (ASet S, e)))"

definition spec_sadd :: spec where
  "spec_sadd argv now v =
     (if length argv < 3 then (err (wrong_args ''sadd''), v)
      else let add = (\<lambda>S e. (RInt (int (card (set (drop 2 argv) - S))),
                              v(argv ! 1 \<mapsto> (ASet (S \<union> set (drop 2 argv)), e))))
           in on_set v (argv ! 1) (add {} (- 1)) add)"

definition spec_srem :: spec where
  "spec_srem argv now v =
     (if length argv < 3 then (err (wrong_args ''srem''), v)
      else on_set v (argv ! 1) (RInt 0, v)
        (\<lambda>S e. (RInt (int (card (set (drop 2 argv) \<inter> S))), put_set (argv ! 1) (S - set (drop 2 argv)) e v)))"

definition spec_sismember :: spec where
  "spec_sismember argv now v =
     (if length argv \<noteq> 3 then (err (wrong_args ''sismember''), v)
      else on_set v (argv ! 1) (RInt 0, v) (\<lambda>S e. (RInt (if argv ! 2 \<in> S then 1 else 0), v)))"

definition spec_scard :: spec where
  "spec_scard argv now v =
     (if length argv \<noteq> 2 then (err (wrong_args ''scard''), v)
      else on_set v (argv ! 1) (RInt 0, v) (\<lambda>S e. (RInt (int (card S)), v)))"

definition set_at :: "view \<Rightarrow> bytes \<Rightarrow> bytes set" where
  "set_at v k = (case v k of Some (ASet S, e) \<Rightarrow> S | _ \<Rightarrow> {})"

definition set_key :: "view \<Rightarrow> bytes \<Rightarrow> bool" where
  "set_key v k = (case v k of None \<Rightarrow> True | Some (ASet S, e) \<Rightarrow> True | _ \<Rightarrow> False)"

abbreviation all_sets :: "view \<Rightarrow> bytes list \<Rightarrow> bool" where
  "all_sets v ks \<equiv> list_all (set_key v) ks"

text \<open>An array of the members of a set, each once, in some order.\<close>

definition members_of :: "bytes set \<Rightarrow> view \<Rightarrow> (reply \<times> view) set" where
  "members_of S v = {(RArray (map RBulk xs), v) | xs. distinct xs \<and> set xs = S}"

definition spec_multi :: "bytes \<Rightarrow> (view \<Rightarrow> bytes list \<Rightarrow> bytes set) \<Rightarrow> spec_set" where
  "spec_multi name comb argv now v =
     (if length argv < 2 then {(err (wrong_args name), v)}
      else if \<not> all_sets v (drop 1 argv) then {(wrongtype, v)}
      else members_of (comb v (drop 1 argv)) v)"

definition spec_sinter :: spec_set where
  "spec_sinter = spec_multi ''sinter'' (\<lambda>v ks. \<Inter>k\<in>set ks. set_at v k)"

definition spec_sunion :: spec_set where
  "spec_sunion = spec_multi ''sunion'' (\<lambda>v ks. \<Union>k\<in>set ks. set_at v k)"

definition spec_sdiff :: spec_set where
  "spec_sdiff = spec_multi ''sdiff'' (\<lambda>v ks. set_at v (hd ks) - (\<Union>k\<in>set (tl ks). set_at v k))"

definition spec_smembers :: spec_set where
  "spec_smembers argv now v =
     (if length argv \<noteq> 2 then {(err (wrong_args ''smembers''), v)}
      else if \<not> set_key v (argv ! 1) then {(wrongtype, v)}
      else members_of (set_at v (argv ! 1)) v)"

text \<open>\<open>SPOP\<close> takes any members, as many as asked for or all of them.\<close>

definition spop_result :: "view \<Rightarrow> bytes \<Rightarrow> int \<Rightarrow> bytes list \<Rightarrow> reply \<times> view" where
  "spop_result v k count xs =
     on_set v k (if count = 1 then RNull else RArray [], v)
       (\<lambda>S e. (if count \<noteq> 1 then RArray (map RBulk xs) else if S = {} then RNull else RBulk (hd xs),
                if count = 1 \<and> S = {} then v else put_set k (S - set xs) e v))"

definition spec_spop :: spec_set where
  "spec_spop argv now v =
     (if length argv < 2 \<or> length argv > 3 then {(err (wrong_args ''spop''), v)}
      else case (if length argv = 3 then string_to_ll (argv ! 2) else Some 1) of
        None \<Rightarrow> {(err ''value is out of range, must be positive'', v)}
      | Some count \<Rightarrow>
          if count < 0 then {(err ''value is out of range, must be positive'', v)}
          else {spop_result v (argv ! 1) count xs | xs.
                distinct xs \<and> set xs \<subseteq> set_at v (argv ! 1) \<and>
                length xs = min (nat count) (card (set_at v (argv ! 1)))})"

section \<open>Proofs\<close>

lemma robj_new_set_sel [simp]: "ptr (robj_new_set x) = PSet (dict_create x)" "expire_at (robj_new_set x) = - 1"
  by (simp_all add: robj_new_set_def)

lemma set_for_write_simps [simp]:
  "set_for_write key (Some ob) s = (ob, s)"
  "set_for_write key None s =
     (robj_new_set (seeds s (seed_pos s)),
      store_set key (robj_new_set (seeds s (seed_pos s))) (s\<lparr>seed_pos := seed_pos s + 1\<rparr>))"
  by (simp_all add: set_for_write_def new_seed_def Let_def)

lemma add_loop_dict:
  assumes "dict_ok d" "add_loop dict_get dict_set () ks 0 d = (n, d')"
  shows "n = card (set ks - dom (dict_get d))" "dom (dict_get d') = dom (dict_get d) \<union> set ks" "dict_ok d'"
  using ds.add_loop_correct [OF assms(1), of "()" ks 0] assms(2) by (auto split: if_splits)

lemma del_loop_set:
  assumes "dict_ok d" "del_loop dict_delete ks 0 d = (n, d')"
  shows "n = card (set ks \<inter> dom (dict_get d))" "dom (dict_get d') = dom (dict_get d) - set ks" "dict_ok d'"
  using ds.del_loop_correct [OF assms(1), of ks 0] assms(2) by auto

lemma implements_sadd: "implements cmd_sadd spec_sadd"
proof (rule implementsI, goal_cases)
  case (1 argv s)
  from 1 show ?case
  proof (cases rule: set_cases [of s "argv ! 1"])
    case (absent s1)
    obtain n d where p: "add_loop dict_get dict_set () (drop 2 argv) 0 (dict_create (seeds s (seed_pos s1))) = (n, d)"
      by fastforce
    then show ?thesis using absent 1 add_loop_dict [OF _ p]
      by (simp add: cmd_sadd_def spec_sadd_def Let_def)
  next
    case (present ob d0)
    obtain n d where p: "add_loop dict_get dict_set () (drop 2 argv) 0 d0 = (n, d)" by fastforce
    then show ?thesis using present add_loop_dict [OF present(7) p]
      by (simp add: cmd_sadd_def spec_sadd_def Let_def)
  next
    case (other ob)
    then show ?thesis by (simp add: cmd_sadd_def spec_sadd_def)
  qed
qed

lemma implements_srem: "implements cmd_srem spec_srem"
proof (rule implementsI, goal_cases)
  case (1 argv s)
  from 1 show ?case
  proof (cases rule: set_cases [of s "argv ! 1"])
    case (present ob d)
    obtain n d' where p: "del_loop dict_delete (drop 2 argv) 0 d = (n, d')" by fastforce
    note q = del_loop_set [OF present(7) p]
    have "dict_get d' = Map.empty \<longleftrightarrow> dom (dict_get d) - set (drop 2 argv) = {}"
      using q(2) by (metis dom_eq_empty_conv)
    then show ?thesis using present p q
      by (simp add: cmd_srem_def spec_srem_def Let_def put_set_def maybe_delete_key_def)
  qed (use 1 in \<open>simp_all add: cmd_srem_def spec_srem_def\<close>)
qed

lemma implements_sismember: "implements cmd_sismember spec_sismember"
  apply (rule implementsI)
  subgoal for argv s
    by (cases rule: set_cases [of s "argv ! 1"]) (auto simp: cmd_sismember_def spec_sismember_def)
  done

lemma implements_scard: "implements cmd_scard spec_scard"
  apply (rule implementsI)
  subgoal for argv s
    by (cases rule: set_cases [of s "argv ! 1"]) (simp_all add: cmd_scard_def spec_scard_def ds.count_card)
  done

text \<open>A pointer to the set under a key.\<close>

definition ptr_for :: "view \<Rightarrow> bytes \<Rightarrow> set_ptr \<Rightarrow> bool" where
  "ptr_for v k p =
     (case p of
        None \<Rightarrow> set_at v k = {}
      | Some (k', d) \<Rightarrow> k' = k \<and> dict_ok d \<and> dom (dict_get d) = set_at v k)"

lemma set_arg_get_ok:
  assumes "st_ok s"
  obtains (found) p s1 where "set_arg_get k s = (Some p, s1)" "gives s s1 (view s) []" "ptr_for (view s) k p"
      "set_key (view s) k"
    | (wrong) s1 where "set_arg_get k s = (None, s1)" "gives s s1 (view s) (encode wrongtype)"
      "\<not> set_key (view s) k"
  using assms
proof (cases rule: set_cases [of s k])
  case (absent s1)
  then show thesis
    by (intro found [of None s1])
      (simp_all add: set_arg_get_def gives_def ptr_for_def set_at_def set_key_def)
next
  case (present ob d)
  then show thesis
    by (intro found [of "Some (k, d)" s])
      (simp_all add: set_arg_get_def gives_def ptr_for_def set_at_def set_key_def)
next
  case (other ob)
  then have "\<not> set_key (view s) k" by (cases "ptr ob") (simp_all add: set_key_def)
  with other show thesis by (intro wrong [of "reply_wrongtype s"]) (simp_all add: set_arg_get_def gives_def)
qed

lemma set_args_ok:
  assumes "st_ok s"
  obtains (found) ps s1 where "set_args ks s = (Some ps, s1)" "gives s s1 (view s) []"
      "list_all2 (ptr_for (view s)) ks ps" "all_sets (view s) ks"
    | (wrong) s1 where "set_args ks s = (None, s1)" "gives s s1 (view s) (encode wrongtype)"
      "\<not> all_sets (view s) ks"
  using assms
proof (induction ks arbitrary: s thesis)
  case Nil
  then show thesis by (simp add: gives_refl)
next
  case (Cons k ks)
  from Cons.prems(3) show thesis
  proof (cases rule: set_arg_get_ok [of s k])
    case (found p s1)
    then have s1: "st_ok s1" "view s1 = view s" by (simp_all add: gives_def)
    from s1(1) show thesis
    proof (rule Cons.IH [rotated 2])
      fix ps s2
      assume *: "set_args ks s1 = (Some ps, s2)" "gives s1 s2 (view s1) []"
        "list_all2 (ptr_for (view s1)) ks ps" "all_sets (view s1) ks"
      show thesis
        by (rule Cons.prems(1) [of "p # ps" s2])
          (use found * s1 gives_trans [OF found(2) *(2)] in simp_all)
    next
      fix s2
      assume *: "set_args ks s1 = (None, s2)" "gives s1 s2 (view s1) (encode wrongtype)"
        "\<not> all_sets (view s1) ks"
      show thesis
        by (rule Cons.prems(2) [of s2])
          (use found * s1 gives_trans [OF found(2) *(2)] in simp_all)
    qed
  next
    case (wrong s1)
    then show thesis by (intro Cons.prems(2) [of s1]) simp_all
  qed
qed

lemma members_ofI: "distinct xs \<Longrightarrow> set xs = S \<Longrightarrow> (RArray (map RBulk xs), v) \<in> members_of S v"
  by (auto simp: members_of_def)

text \<open>The commands on several sets differ in the members they select.\<close>

lemma allows_multi:
  assumes "\<And>argv s. st_ok s \<Longrightarrow> length argv < 2 \<Longrightarrow> gives s (cmd argv s) (view s) (encode (err (wrong_args name)))"
    and "\<And>argv s. st_ok s \<Longrightarrow> 2 \<le> length argv \<Longrightarrow> \<not> all_sets (view s) (drop 1 argv) \<Longrightarrow>
      gives s (cmd argv s) (view s) (encode wrongtype)"
    and "\<And>argv s. st_ok s \<Longrightarrow> 2 \<le> length argv \<Longrightarrow> all_sets (view s) (drop 1 argv) \<Longrightarrow>
      \<exists>xs. distinct xs \<and> set xs = comb (view s) (drop 1 argv) \<and>
        gives s (cmd argv s) (view s) (encode (RArray (map RBulk xs)))"
  shows "allows cmd (spec_multi name comb)"
proof (rule allowsI, goal_cases)
  case (1 argv s)
  consider (few) "length argv < 2" | (wrong) "2 \<le> length argv" "\<not> all_sets (view s) (drop 1 argv)"
    | (sets) "2 \<le> length argv" "all_sets (view s) (drop 1 argv)" by linarith
  then show ?case
  proof cases
    case sets
    from assms(3) [OF 1 sets] sets show ?thesis
      by (auto simp: spec_multi_def simp del: drop_Suc intro: members_ofI)
  qed (use assms(1,2) [OF 1] in \<open>auto simp: spec_multi_def simp del: drop_Suc\<close>)
qed

lemma smallest_set_in: "ds \<noteq> [] \<Longrightarrow> smallest_set ds \<in> set ds"
proof -
  have "foldl (\<lambda>m d. if dict_size (snd d) < dict_size (snd m) then d else m) m xs \<in> insert m (set xs)"
    for m :: "bytes \<times> unit dict" and xs
    by (induction xs arbitrary: m) auto
  then show "ds \<noteq> [] \<Longrightarrow> smallest_set ds \<in> set ds" by (cases ds) (auto simp: smallest_set_def)
qed

lemma list_all2_set: "list_all2 P xs ys \<Longrightarrow> y \<in> set ys \<Longrightarrow> \<exists>x\<in>set xs. P x y"
  by (metis in_set_conv_nth list_all2_conv_all_nth)

lemma list_all2_set': "list_all2 P xs ys \<Longrightarrow> x \<in> set xs \<Longrightarrow> \<exists>y\<in>set ys. P x y"
  by (metis in_set_conv_nth list_all2_conv_all_nth)

lemma sinter_members:
  assumes all: "list_all2 (ptr_for v) ks ps" "None \<notin> set ps" "ps \<noteq> []"
  defines "ds \<equiv> map the ps"
  defines "small \<equiv> smallest_set ds"
  shows "dict_ok (snd small)"
    and "set (filter (in_all ds small) (map ekey (dict_entries (snd small)))) = (\<Inter>k\<in>set ks. set_at v k)"
proof -
  have ds: "dict_ok (snd d) \<and> fst d \<in> set ks \<and> dom (dict_get (snd d)) = set_at v (fst d)" if "d \<in> set ds" for d
    using list_all2_set [OF all(1)] all(2) that by (force simp: ds_def ptr_for_def split: option.splits)
  have keys: "\<exists>d\<in>set ds. fst d = k" if "k \<in> set ks" for k
    using list_all2_set' [OF all(1) that] all(2) by (force simp: ds_def ptr_for_def split: option.splits)
  have small: "small \<in> set ds" using smallest_set_in [of ds] all(3) by (simp add: small_def ds_def)
  with ds show ok: "dict_ok (snd small)" by blast
  have sel: "dict_get (snd d) x \<noteq> None \<longleftrightarrow> x \<in> set_at v (fst d)" if "d \<in> set ds" for d x
    using ds [OF that] by blast
  have "x \<in> (\<Inter>k\<in>set ks. set_at v k) \<longleftrightarrow> x \<in> dom (dict_get (snd small)) \<and> in_all ds small x" for x
  proof
    assume "x \<in> (\<Inter>k\<in>set ks. set_at v k)"
    then have "x \<in> set_at v (fst d)" if "d \<in> set ds" for d using ds [OF that] by blast
    then show "x \<in> dom (dict_get (snd small)) \<and> in_all ds small x"
      using small sel by (simp add: in_all_def list_all_iff domIff)
  next
    assume x: "x \<in> dom (dict_get (snd small)) \<and> in_all ds small x"
    show "x \<in> (\<Inter>k\<in>set ks. set_at v k)"
    proof
      fix k assume "k \<in> set ks"
      then obtain d where d: "d \<in> set ds" "fst d = k" using keys by blast
      with x have "fst d = fst small \<or> dict_get (snd d) x \<noteq> None"
        unfolding in_all_def list_all_iff by blast
      with d x ds [OF small] sel [OF d(1)] show "x \<in> set_at v k" by metis
    qed
  qed
  then show "set (filter (in_all ds small) (map ekey (dict_entries (snd small)))) = (\<Inter>k\<in>set ks. set_at v k)"
    using entries_keys(1) [OF ok] by auto
qed

lemma allows_sinter: "allows cmd_sinter spec_sinter"
  unfolding spec_sinter_def
proof (rule allows_multi, goal_cases)
  case (1 argv s)
  then show ?case by (simp add: cmd_sinter_def gives_def)
next
  case (2 argv s)
  then show ?case
    by (cases rule: set_args_ok [OF 2(1), of "drop 1 argv"]) (simp_all add: cmd_sinter_def)
next
  case (3 argv s)
  let ?ks = "drop 1 argv"
  from 3(1) show ?case
  proof (cases rule: set_args_ok [of s ?ks])
    case (found ps s1)
    then have s1: "st_ok s1" by (simp add: gives_def)
    show ?thesis
    proof (cases "None \<in> set ps")
      case True
      then obtain k where "k \<in> set ?ks" "set_at (view s) k = {}"
        using list_all2_set [OF found(3) True] by (auto simp: ptr_for_def)
      then have "(\<Inter>k\<in>set ?ks. set_at (view s) k) = {}" by blast
      moreover have "gives s (cmd_sinter argv s) (view s) (encode (RArray (map RBulk [])))"
        using 3 found(1,2) True s1 by (simp add: cmd_sinter_def gives_def encode_empty)
      ultimately show ?thesis by (intro exI [of _ "[]"]) simp
    next
      case False
      let ?ds = "map the ps"
      let ?xs = "filter (in_all ?ds (smallest_set ?ds)) (map ekey (dict_entries (snd (smallest_set ?ds))))"
      have "ps \<noteq> []" using found(3) 3(2) by (cases argv) auto
      note m = sinter_members [OF found(3) False this]
      have "distinct ?xs" using entries_keys(2) [OF m(1)] by (rule distinct_filter)
      moreover have "gives s (cmd_sinter argv s) (view s) (encode (RArray (map RBulk ?xs)))"
        using 3 found(1,2) False s1 by (simp add: cmd_sinter_def gives_def Let_def encode.simps(6))
      ultimately show ?thesis using m(2) by blast
    qed
  qed (use 3 in simp)
qed

lemma sdiff_members:
  assumes all: "list_all2 (ptr_for v) (k # ks) (Some d # ps)"
  shows "dict_ok (snd d)"
    and "set (filter (\<lambda>x. \<not> in_others ps x) (map ekey (dict_entries (snd d)))) =
      set_at v k - (\<Union>k\<in>set ks. set_at v k)"
proof -
  have d: "dict_ok (snd d)" "dom (dict_get (snd d)) = set_at v k" and ps: "list_all2 (ptr_for v) ks ps"
    using all by (auto simp: ptr_for_def split: prod.splits)
  show "dict_ok (snd d)" by (rule d)
  have "in_others ps x \<longleftrightarrow> x \<in> (\<Union>k\<in>set ks. set_at v k)" for x
    using ps
    by (induction rule: list_all2_induct) (auto simp: in_others_def ptr_for_def split: option.splits)
  then show "set (filter (\<lambda>x. \<not> in_others ps x) (map ekey (dict_entries (snd d)))) =
      set_at v k - (\<Union>k\<in>set ks. set_at v k)"
    using entries_keys(1) [OF d(1)] d(2) by auto
qed

lemma allows_sdiff: "allows cmd_sdiff spec_sdiff"
  unfolding spec_sdiff_def
proof (rule allows_multi, goal_cases)
  case (1 argv s)
  then show ?case by (simp add: cmd_sdiff_def gives_def)
next
  case (2 argv s)
  then show ?case
    by (cases rule: set_args_ok [OF 2(1), of "drop 1 argv"]) (simp_all add: cmd_sdiff_def)
next
  case (3 argv s)
  then obtain k ks where ks: "drop 1 argv = k # ks" by (cases argv; cases "tl argv") auto
  from 3(1) show ?case
  proof (cases rule: set_args_ok [of s "drop 1 argv"])
    case (found ps s1)
    then have s1: "st_ok s1" by (simp add: gives_def)
    from found(3) ks obtain p ps' where ps: "ps = p # ps'" by (cases ps) auto
    show ?thesis
    proof (cases p)
      case None
      then have "set_at (view s) k = {}" using found(3) ks ps by (simp add: ptr_for_def)
      moreover have "gives s (cmd_sdiff argv s) (view s) (encode (RArray (map RBulk [])))"
        using 3 found(1,2) None ps s1 by (simp add: cmd_sdiff_def gives_def encode_empty)
      ultimately show ?thesis using ks by (intro exI [of _ "[]"]) simp
    next
      case (Some d)
      let ?xs = "filter (\<lambda>x. \<not> in_others ps' x) (map ekey (dict_entries (snd d)))"
      have m: "dict_ok (snd d)" "set ?xs = set_at (view s) k - (\<Union>k\<in>set ks. set_at (view s) k)"
        using sdiff_members [of "view s" k ks d ps'] found(3) ks ps Some by simp_all
      have "distinct ?xs" using entries_keys(2) [OF m(1)] by (rule distinct_filter)
      moreover have "gives s (cmd_sdiff argv s) (view s) (encode (RArray (map RBulk ?xs)))"
        using 3 found(1,2) Some ps s1 by (simp add: cmd_sdiff_def gives_def Let_def encode.simps(6))
      ultimately show ?thesis using m(2) ks by (intro exI [of _ ?xs]) simp
    qed
  qed (use 3 in simp)
qed

lemma union_entries:
  assumes "dict_ok u"
  shows "dict_ok (foldl (\<lambda>u e. snd (dict_set u (ekey e) ())) u es) \<and>
    dom (dict_get (foldl (\<lambda>u e. snd (dict_set u (ekey e) ())) u es)) = dom (dict_get u) \<union> set (map ekey es)"
  using assms by (induction es arbitrary: u) (auto simp: dict_set_eqs)

lemma union_loop_ok:
  assumes "st_ok s" "dict_ok u"
  obtains (found) w s1 where "union_loop ks u s = (Some w, s1)" "gives s s1 (view s) []" "dict_ok w"
      "dom (dict_get w) = dom (dict_get u) \<union> (\<Union>k\<in>set ks. set_at (view s) k)" "all_sets (view s) ks"
    | (wrong) s1 where "union_loop ks u s = (None, s1)" "gives s s1 (view s) (encode wrongtype)"
      "\<not> all_sets (view s) ks"
  using assms
proof (induction ks arbitrary: s u thesis)
  case Nil
  then show thesis by (simp add: gives_refl)
next
  case (Cons k ks)
  from Cons.prems(3) show thesis
  proof (cases rule: set_arg_get_ok [of s k])
    case (found p s1)
    then have s1: "st_ok s1" "view s1 = view s" by (simp_all add: gives_def)
    define u' where "u' = (case p of None \<Rightarrow> u
      | Some q \<Rightarrow> foldl (\<lambda>u e. snd (dict_set u (ekey e) ())) u (dict_entries (snd q)))"
    have u': "dict_ok u'" "dom (dict_get u') = dom (dict_get u) \<union> set_at (view s) k"
      using union_entries [OF Cons.prems(4), of "dict_entries (snd (the p))"] found(3) Cons.prems(4)
        entries_keys(1) [of "snd (the p)"]
      by (cases p; force simp: u'_def ptr_for_def)+
    have step: "union_loop (k # ks) u s = union_loop ks u' s1"
      using found(1) by (simp add: u'_def split: option.split)
    show thesis
    proof (rule Cons.IH [OF _ _ s1(1) u'(1)])
      fix w s2
      assume *: "union_loop ks u' s1 = (Some w, s2)" "gives s1 s2 (view s1) []" "dict_ok w"
        "dom (dict_get w) = dom (dict_get u') \<union> (\<Union>k\<in>set ks. set_at (view s1) k)" "all_sets (view s1) ks"
      show thesis
        by (rule Cons.prems(1) [of w s2])
          (use found(2,4) * s1 u' step gives_trans [OF found(2) *(2)] in \<open>auto simp del: union_loop.simps\<close>)
    next
      fix s2
      assume *: "union_loop ks u' s1 = (None, s2)" "gives s1 s2 (view s1) (encode wrongtype)"
        "\<not> all_sets (view s1) ks"
      show thesis
        by (rule Cons.prems(2) [of s2])
          (use found(2,4) * s1 step gives_trans [OF found(2) *(2)] in \<open>simp_all del: union_loop.simps\<close>)
    qed
  next
    case (wrong s1)
    then show thesis by (intro Cons.prems(2) [of s1]) simp_all
  qed
qed

lemma allows_sunion: "allows cmd_sunion spec_sunion"
  unfolding spec_sunion_def
proof (rule allows_multi, goal_cases)
  case (1 argv s)
  then show ?case by (simp add: cmd_sunion_def gives_def)
next
  case (2 argv s)
  let ?s = "s\<lparr>seed_pos := seed_pos s + 1\<rparr>"
  have "st_ok ?s" "dict_ok (dict_create (seeds s (seed_pos s)))" using 2(1) by simp_all
  then show ?case
  proof (cases rule: union_loop_ok [where ks = "drop 1 argv"])
    case (wrong s1)
    then show ?thesis using 2 by (simp add: cmd_sunion_def new_seed_def gives_def)
  qed (use 2 in simp)
next
  case (3 argv s)
  let ?s = "s\<lparr>seed_pos := seed_pos s + 1\<rparr>"
  have "st_ok ?s" "dict_ok (dict_create (seeds s (seed_pos s)))" using 3(1) by simp_all
  then show ?case
  proof (cases rule: union_loop_ok [where ks = "drop 1 argv"])
    case (found w s1)
    let ?xs = "map ekey (dict_entries w)"
    have "gives s (cmd_sunion argv s) (view s) (encode (RArray (map RBulk ?xs)))"
      using 3 found(1-3) by (simp add: cmd_sunion_def new_seed_def gives_def encode.simps(6) entries_size)
    then show ?thesis using entries_keys [OF found(3)] found(4) by (intro exI [of _ ?xs]) simp
  qed (use 3 in simp)
qed

lemma allows_smembers: "allows cmd_smembers spec_smembers"
proof (rule allowsI, goal_cases)
  case (1 argv s)
  show ?case
  proof (cases "length argv = 2")
    case True
    from 1 show ?thesis
    proof (cases rule: set_cases [of s "argv ! 1"])
      case (absent s1)
      with True have "(RArray (map RBulk []), view s) \<in> spec_smembers argv (clock s) (view s)"
        by (auto simp: spec_smembers_def set_at_def set_key_def members_of_def)
      moreover have "gives s (cmd_smembers argv s) (view s) (encode (RArray (map RBulk [])))"
        using True absent by (simp add: cmd_smembers_def gives_def encode_empty)
      ultimately show ?thesis by blast
    next
      case (present ob d)
      let ?xs = "map ekey (dict_entries d)"
      have "(RArray (map RBulk ?xs), view s) \<in> members_of (set_at (view s) (argv ! 1)) (view s)"
        using present entries_keys [OF present(7)] by (intro members_ofI) (simp_all add: set_at_def)
      then have "(RArray (map RBulk ?xs), view s) \<in> spec_smembers argv (clock s) (view s)"
        using True present by (simp add: spec_smembers_def set_key_def)
      moreover have "gives s (cmd_smembers argv s) (view s) (encode (RArray (map RBulk ?xs)))"
        using True present by (simp add: cmd_smembers_def gives_def encode.simps(6) entries_size)
      ultimately show ?thesis by blast
    next
      case (other ob)
      then have "\<not> set_key (view s) (argv ! 1)" by (cases "ptr ob") (simp_all add: set_key_def)
      then have "(wrongtype, view s) \<in> spec_smembers argv (clock s) (view s)"
        using True by (simp add: spec_smembers_def)
      moreover have "gives s (cmd_smembers argv s) (view s) (encode wrongtype)"
        using True other by (simp add: cmd_smembers_def gives_def)
      ultimately show ?thesis by blast
    qed
  qed (use 1 in \<open>simp add: spec_smembers_def cmd_smembers_def gives_def\<close>)
qed

lemma random_entry_cases:
  assumes "dict_ok d"
  obtains (none) pos' where "dict_random_entry rand pos d = (None, pos')" "dom (dict_get d) = {}"
    | (some) e pos' where "dict_random_entry rand pos d = (Some e, pos')" "ekey e \<in> dom (dict_get d)"
  using dict_random_entry_correct [OF assms, of rand pos]
  by (cases "dict_random_entry rand pos d"; cases "fst (dict_random_entry rand pos d)")
    (auto simp: dict_get_map [OF assms])

lemma spop_loop_ok:
  assumes "st_ok s" "dict_ok d"
  shows "\<exists>xs d' s'. spop_loop n d s = (d', s') \<and> dict_ok d' \<and> distinct xs \<and> set xs \<subseteq> dom (dict_get d) \<and>
    length xs = min n (card (dom (dict_get d))) \<and> dom (dict_get d') = dom (dict_get d) - set xs \<and>
    gives s s' (view s) (concat (map encode (map RBulk xs))) \<and> store s' = store s"
  using assms
proof (induction n arbitrary: d s)
  case 0
  then show ?case by (auto intro!: exI [of _ "[]"] simp: gives_refl)
next
  case (Suc n)
  from Suc.prems(2) show ?case
  proof (cases rule: random_entry_cases [of d "rands s" "rand_pos s"])
    case (none pos)
    then show ?thesis
      using Suc.prems by (intro exI [of _ "[]"] exI [of _ d] exI [of _ "s\<lparr>rand_pos := pos\<rparr>"]) (simp add: gives_def)
  next
    case (some e pos)
    let ?d = "snd (dict_delete d (ekey e))" and ?s = "reply_bulk (ekey e) (s\<lparr>rand_pos := pos\<rparr>)"
    have d: "dict_ok ?d" "dom (dict_get ?d) = dom (dict_get d) - {ekey e}"
      using Suc.prems(2) by (auto simp: dict_delete_eqs)
    have s: "st_ok ?s" "gives s ?s (view s) (encode (RBulk (ekey e)))" "store ?s = store s"
      using Suc.prems(1) by (simp_all add: gives_def)
    obtain xs d' s' where r: "spop_loop n ?d ?s = (d', s')" "dict_ok d'" "distinct xs"
      "set xs \<subseteq> dom (dict_get ?d)" "length xs = min n (card (dom (dict_get ?d)))"
      "dom (dict_get d') = dom (dict_get ?d) - set xs"
      "gives ?s s' (view ?s) (concat (map encode (map RBulk xs)))" "store s' = store ?s"
      using Suc.IH [OF s(1) d(1)] by blast
    have "finite (dom (dict_get d))" using ds.finite_dom [OF Suc.prems(2)] .
    then have card: "card (dom (dict_get d)) = Suc (card (dom (dict_get d) - {ekey e}))"
      using some(2) by (metis card.remove)
    have "view ?s = view s" by simp
    then have "gives s s' (view s) (concat (map encode (map RBulk (ekey e # xs))))"
      using gives_trans [OF s(2) r(7)] by (simp only: list.map concat.simps)
    moreover have "spop_loop (Suc n) d s = (d', s')" using r(1) some(1) by simp
    moreover have "set (ekey e # xs) \<subseteq> dom (dict_get d)" "distinct (ekey e # xs)"
      using r(3,4) some(2) unfolding d(2) by auto
    moreover have "length (ekey e # xs) = min (Suc n) (card (dom (dict_get d)))"
      using r(5) unfolding d(2) card by simp
    moreover have "dom (dict_get d') = dom (dict_get d) - set (ekey e # xs)"
      using r(6) unfolding d(2) by auto
    ultimately show ?thesis using r(2,8) s(3) by metis
  qed
qed

lemma spec_spop_mem:
  assumes "length argv = 2 \<or> length argv = 3" "(if length argv = 3 then string_to_ll (argv ! 2) else Some 1) = Some c" "0 \<le> c"
    and "distinct xs" "set xs \<subseteq> set_at v (argv ! 1)" "length xs = min (nat c) (card (set_at v (argv ! 1)))"
  shows "spop_result v (argv ! 1) c xs \<in> spec_spop argv now v"
  using assms unfolding spec_spop_def by auto

lemma put_back:
  assumes "st_ok s" "dict_get (store s) k = Some ob" "\<not> key_expired (clock s) ob" "dict_ok d"
  shows "gives s (maybe_delete_key k (ob\<lparr>ptr := PSet d\<rparr>) (store_assign k (ob\<lparr>ptr := PSet d\<rparr>) s))
    (put_set k (dom (dict_get d)) (expire_at ob) (view s)) []"
  using assms by (simp add: gives_def put_set_def maybe_delete_key_def)

lemma allows_spop_set:
  assumes "length argv = 2 \<or> length argv = 3" "(if length argv = 3 then string_to_ll (argv ! 2) else Some 1) = Some c"
    and "0 \<le> c" "lookup_key (argv ! 1) s = (Some ob, s)" "st_ok s" "ptr ob = PSet d"
    and "view s (argv ! 1) = Some (ASet (dom (dict_get d)), expire_at ob)" "dict_get (store s) (argv ! 1) = Some ob"
    and "\<not> key_expired (clock s) ob" "dict_ok d"
  shows "\<exists>r v. (r, v) \<in> spec_spop argv (clock s) (view s) \<and> gives s (cmd_spop argv s) v (encode r)"
proof -
  let ?S = "dom (dict_get d)"
  have fin: "finite ?S" using ds.finite_dom [OF assms(10)] .
  have mem: "spop_result (view s) (argv ! 1) c xs \<in> spec_spop argv (clock s) (view s)"
    if "distinct xs" "set xs \<subseteq> ?S" "length xs = min (nat c) (card ?S)" for xs
    using that assms by (intro spec_spop_mem) (simp_all add: set_at_def)
  have res: "spop_result (view s) (argv ! 1) c xs =
     (if c \<noteq> 1 then RArray (map RBulk xs) else if ?S = {} then RNull else RBulk (hd xs),
      if c = 1 \<and> ?S = {} then view s else put_set (argv ! 1) (?S - set xs) (expire_at ob) (view s))" for xs
    using assms by (simp add: spop_result_def on_set_def)
  show ?thesis
  proof (cases "c = 1")
    case True
    from assms(10) show ?thesis
    proof (cases rule: random_entry_cases [of d "rands s" "rand_pos s"])
      case (none pos)
      then show ?thesis
        using mem [of "[]"] assms True unfolding res
        by (intro exI [of _ RNull] exI [of _ "view s"]) (auto simp: cmd_spop_def gives_def)
    next
      case (some e pos)
      then have "?S \<noteq> {}" by blast
      then have "card ?S \<noteq> 0" using fin by simp
      then have "(RBulk (ekey e), put_set (argv ! 1) (?S - {ekey e}) (expire_at ob) (view s)) \<in> spec_spop argv (clock s) (view s)"
        using mem [of "[ekey e]"] True some \<open>?S \<noteq> {}\<close> unfolding res by (simp add: min_def)
      moreover have "gives s (cmd_spop argv s) (put_set (argv ! 1) (?S - {ekey e}) (expire_at ob) (view s)) (encode (RBulk (ekey e)))"
        using put_back [of "reply_bulk (ekey e) (s\<lparr>rand_pos := pos\<rparr>)" "argv ! 1" ob "snd (dict_delete d (ekey e))"] assms True some(1)
        by (auto simp: cmd_spop_def gives_def Let_def dict_delete_eqs)
      ultimately show ?thesis by blast
    qed
  next
    case False
    let ?n = "min (nat c) (card ?S)" and ?s = "\<lambda>n. reply_array_header n s"
    have n: "nat (if c < int (dict_size d) then c else int (dict_size d)) = ?n"
      using assms(3,10) by (auto simp: ds.count_card)
    have ok: "st_ok (?s ?n)" using assms(5) by simp
    obtain xs d' s' where r: "spop_loop ?n d (?s ?n) = (d', s')" "dict_ok d'" "distinct xs" "set xs \<subseteq> ?S"
      "length xs = min ?n (card ?S)" "dom (dict_get d') = ?S - set xs"
      "gives (?s ?n) s' (view (?s ?n)) (concat (map encode (map RBulk xs)))" "store s' = store (?s ?n)"
      using spop_loop_ok [OF ok assms(10)] by blast
    have len: "length xs = ?n" using r(5) by simp
    have "(RArray (map RBulk xs), put_set (argv ! 1) (?S - set xs) (expire_at ob) (view s)) \<in> spec_spop argv (clock s) (view s)"
      using mem [OF r(3,4) len] False unfolding res by simp
    moreover have "gives s (cmd_spop argv s) (put_set (argv ! 1) (?S - set xs) (expire_at ob) (view s)) (encode (RArray (map RBulk xs)))"
      using put_back [of s' "argv ! 1" ob d'] assms False r
      by (auto simp: cmd_spop_def gives_def Let_def n encode.simps(6) len)
    ultimately show ?thesis by blast
  qed
qed

lemma allows_spop: "allows cmd_spop spec_spop"
proof (rule allowsI, goal_cases)
  case (1 argv s)
  define cnt where "cnt = (if length argv = 3 then string_to_ll (argv ! 2) else Some 1)"
  show ?case
  proof (cases "length argv < 2 \<or> length argv > 3 \<or> cnt = None \<or> the cnt < 0")
    case True
    then show ?thesis
      using 1 by (auto simp: cmd_spop_def spec_spop_def cnt_def [symmetric] gives_def split: option.split)
  next
    case False
    then obtain c where "cnt = Some c" by (cases cnt) auto
    with False have c: "length argv = 2 \<or> length argv = 3" "(if length argv = 3 then string_to_ll (argv ! 2) else Some 1) = Some c" "0 \<le> c"
      unfolding cnt_def by auto
    from 1 show ?thesis
    proof (cases rule: set_cases [of s "argv ! 1"])
      case (absent s1)
      have "spop_result (view s) (argv ! 1) c [] \<in> spec_spop argv (clock s) (view s)"
        using absent by (intro spec_spop_mem [OF c]) (simp_all add: set_at_def)
      moreover have "gives s (cmd_spop argv s) (view s) (encode (if c = 1 then RNull else RArray []))"
        using absent c by (auto simp add: cmd_spop_def gives_def encode_empty)
      ultimately show ?thesis using absent by (simp add: spop_result_def) blast
    next
      case (present ob d)
      show ?thesis using c present by (intro allows_spop_set) assumption+
    next
      case (other ob)
      have "spop_result (view s) (argv ! 1) c [] \<in> spec_spop argv (clock s) (view s)"
        using other by (intro spec_spop_mem [OF c]) (cases "ptr ob"; simp add: set_at_def)+
      moreover have "gives s (cmd_spop argv s) (view s) (encode wrongtype)"
        using other c by (auto simp add: cmd_spop_def gives_def)
      ultimately show ?thesis using other by (simp add: spop_result_def) blast
    qed
  qed
qed

section \<open>Properties\<close>

text \<open>
  C18. Every set command does what its specification says on the set of a key, on every branch: the
  algebra of \<open>SINTER\<close>, \<open>SUNION\<close> and \<open>SDIFF\<close> is that of sets, listed in any order, and \<open>SPOP\<close> removes
  distinct members, as many as asked for and available, and returns exactly those.
\<close>

theorem set_commands_correct:
  "implements cmd_sadd spec_sadd \<and> implements cmd_srem spec_srem \<and> implements cmd_sismember spec_sismember \<and>
   implements cmd_scard spec_scard \<and> allows cmd_smembers spec_smembers \<and> allows cmd_spop spec_spop \<and>
   allows cmd_sinter spec_sinter \<and> allows cmd_sunion spec_sunion \<and> allows cmd_sdiff spec_sdiff"
  by (simp add: implements_sadd implements_srem implements_sismember implements_scard allows_smembers
      allows_spop allows_sinter allows_sunion allows_sdiff)

end
