(* ===== verification/Db_Zset.thy ===== *)
theory Db_Zset
  imports Db
begin

text \<open>
  The sorted-set commands of \<open>src/db.c\<close> (lines 1721 to 2119). The walks over the skip list follow \<open>level[0].forward\<close> and \<open>backward\<close> from
  node to node.
\<close>

section \<open>The handlers\<close>

definition zset_for_write :: "bytes \<Rightarrow> robj option \<Rightarrow> st \<Rightarrow> robj \<times> st" where
  "zset_for_write key found s =
     (case found of
        Some ob \<Rightarrow> (ob, s)
      | None \<Rightarrow>
          (case new_seed s of
             (seed, s1) \<Rightarrow> let ob = robj_new_zset seed in (ob, store_set key ob s1)))"

record zadd_flags =
  nx :: bool
  xx :: bool
  ch :: bool
  incr :: bool

text \<open>The leading options of \<open>ZADD\<close> and the arguments after them.\<close>

fun zadd_opts :: "bytes list \<Rightarrow> zadd_flags \<Rightarrow> zadd_flags \<times> bytes list" where
  "zadd_opts [] fl = (fl, [])"
| "zadd_opts (a # rest) fl =
     (if strcaseeq a ''NX'' then zadd_opts rest (fl\<lparr>nx := True\<rparr>)
      else if strcaseeq a ''XX'' then zadd_opts rest (fl\<lparr>xx := True\<rparr>)
      else if strcaseeq a ''CH'' then zadd_opts rest (fl\<lparr>ch := True\<rparr>)
      else if strcaseeq a ''INCR'' then zadd_opts rest (fl\<lparr>incr := True\<rparr>)
      else (fl, a # rest))"

text \<open>How the loop over the pairs ends: with an error, a null, a score, or the two counts.\<close>

datatype zadd_end = Zerr bytes | Znull | Zscore double | Zcounts int int

definition score_nan :: bytes where "score_nan = ''resulting score is not a number (NaN)''"

fun zadd_loop :: "zadd_flags \<Rightarrow> bytes list \<Rightarrow> int \<Rightarrow> int \<Rightarrow> (nat \<Rightarrow> nat) \<Rightarrow> nat \<Rightarrow> zset
    \<Rightarrow> zadd_end \<times> zset \<times> nat" where
  "zadd_loop fl (sc # member # rest) added changed rand pos zs =
     (case parse_double sc of
        None \<Rightarrow> (Zerr not_float, zs, pos)
      | Some score \<Rightarrow>
          let existing = zset_score zs member in
          if incr fl then
            if nx fl \<and> existing \<noteq> None \<or> xx fl \<and> existing = None then (Znull, zs, pos)
            else let sum = (case existing of Some old \<Rightarrow> d_add old score | None \<Rightarrow> score)
                 in if \<not> d_eq sum sum then (Zerr score_nan, zs, pos)
                    else case zset_add rand pos zs sum member of (r, n, zs', pos') \<Rightarrow> (Zscore sum, zs', pos')
          else if nx fl \<and> existing \<noteq> None then zadd_loop fl rest added changed rand pos zs
          else if xx fl \<and> existing = None then zadd_loop fl rest added changed rand pos zs
          else case zset_add rand pos zs score member of (r, n, zs', pos') \<Rightarrow>
            zadd_loop fl rest (if r = 1 then added + 1 else added) (if r = 2 then changed + 1 else changed)
              rand pos' zs')"
| "zadd_loop fl _ added changed rand pos zs = (Zcounts added changed, zs, pos)"

definition zadd_reply :: "zadd_flags \<Rightarrow> zadd_end \<Rightarrow> st \<Rightarrow> st" where
  "zadd_reply fl r s =
     (case r of
        Zerr m \<Rightarrow> reply_error m s
      | Znull \<Rightarrow> reply_null s
      | Zscore d \<Rightarrow> reply_double d s
      | Zcounts added changed \<Rightarrow> reply_integer (if ch fl then added + changed else added) s)"

definition cmd_zadd :: "command \<Rightarrow> st \<Rightarrow> st" where
  "cmd_zadd argv s =
     (if length argv < 4 then reply_error (wrong_args ''zadd'') s
      else case zadd_opts (drop 2 argv) \<lparr>nx = False, xx = False, ch = False, incr = False\<rparr> of (fl, pairs) \<Rightarrow>
        if nx fl \<and> xx fl then reply_error ''syntax error'' s
        else if pairs = [] \<or> odd (length pairs) then reply_error ''syntax error'' s
        else if incr fl \<and> length pairs \<noteq> 2
        then reply_error ''INCR option supports a single increment-element pair'' s
        else case lookup_key (argv ! 1) s of (found, s1) \<Rightarrow>
          if type_mismatch OBJ_ZSET found then reply_wrongtype s1
          else if found = None \<and> xx fl then reply_integer 0 s1
          else case zset_for_write (argv ! 1) found s1 of (ob, s2) \<Rightarrow>
            (case as_zset (ptr ob) of
               None \<Rightarrow> s2
             | Some zs \<Rightarrow>
                 (case zadd_loop fl pairs 0 0 (rands s2) (rand_pos s2) zs of (r, zs', pos) \<Rightarrow>
                    zadd_reply fl r
                      (store_assign (argv ! 1) (ob\<lparr>ptr := PZset zs'\<rparr>) (s2\<lparr>rand_pos := pos\<rparr>)))))"

definition cmd_zcard :: "command \<Rightarrow> st \<Rightarrow> st" where
  "cmd_zcard argv s =
     (if length argv \<noteq> 2 then reply_error (wrong_args ''zcard'') s
      else case lookup_key (argv ! 1) s of
        (None, s1) \<Rightarrow> reply_integer 0 s1
      | (Some ob, s1) \<Rightarrow>
          (case as_zset (ptr ob) of
             None \<Rightarrow> reply_wrongtype s1
           | Some zs \<Rightarrow> reply_integer (int (zset_len zs)) s1))"

definition cmd_zscore :: "command \<Rightarrow> st \<Rightarrow> st" where
  "cmd_zscore argv s =
     (if length argv \<noteq> 3 then reply_error (wrong_args ''zscore'') s
      else case lookup_key (argv ! 1) s of
        (None, s1) \<Rightarrow> reply_null s1
      | (Some ob, s1) \<Rightarrow>
          (case as_zset (ptr ob) of
             None \<Rightarrow> reply_wrongtype s1
           | Some zs \<Rightarrow>
               (case zset_score zs (argv ! 2) of
                  None \<Rightarrow> reply_null s1
                | Some score \<Rightarrow> reply_double score s1)))"

fun zrem_loop :: "bytes list \<Rightarrow> nat \<Rightarrow> zset \<Rightarrow> nat \<times> zset" where
  "zrem_loop [] n zs = (n, zs)"
| "zrem_loop (m # ms) n zs =
     (case zset_remove zs m of (hit, zs') \<Rightarrow> zrem_loop ms (if hit then n + 1 else n) zs')"

definition cmd_zrem :: "command \<Rightarrow> st \<Rightarrow> st" where
  "cmd_zrem argv s =
     (if length argv < 3 then reply_error (wrong_args ''zrem'') s
      else case lookup_key (argv ! 1) s of
        (None, s1) \<Rightarrow> reply_integer 0 s1
      | (Some ob, s1) \<Rightarrow>
          (case as_zset (ptr ob) of
             None \<Rightarrow> reply_wrongtype s1
           | Some zs \<Rightarrow>
               (case zrem_loop (drop 2 argv) 0 zs of
                  (removed, zs') \<Rightarrow>
                    let ob' = ob\<lparr>ptr := PZset zs'\<rparr>
                    in maybe_delete_key (argv ! 1) ob'
                         (reply_integer (int removed) (store_assign (argv ! 1) ob' s1)))))"

text \<open>
  The replies for the nodes of a walk. \<open>ZRANGE\<close> normalises its bounds with the same statements as
  \<open>range_normalize\<close>.
\<close>

fun reply_nodes :: "bool \<Rightarrow> zskiplist \<Rightarrow> nat list \<Rightarrow> st \<Rightarrow> st" where
  "reply_nodes withscores z [] s = s"
| "reply_nodes withscores z (x # xs) s =
     (let s1 = reply_bulk (zmember (znode_of z x)) s;
          s2 = (if withscores then reply_double (zscore (znode_of z x)) s1 else s1)
      in reply_nodes withscores z xs s2)"

definition zrange_reply :: "bool \<Rightarrow> bool \<Rightarrow> int \<Rightarrow> int \<Rightarrow> zset \<Rightarrow> st \<Rightarrow> st" where
  "zrange_reply reverse withscores start stop zs s =
     (let len = int (zset_len zs)
      in case range_normalize len start stop of
           None \<Rightarrow> reply_array_header 0 s
         | Some (a, b) \<Rightarrow>
             let n = nat (b - a + 1);
                 x = zsl_get_element_by_rank (zsl zs) (if reverse then len - a else a + 1);
                 nodes = (if reverse then zsl_walk_back n (zsl zs) x else zsl_walk n (zsl zs) x)
             in reply_nodes withscores (zsl zs) nodes
                  (reply_array_header (if withscores then n * 2 else n) s))"

definition zrange_common :: "bool \<Rightarrow> command \<Rightarrow> st \<Rightarrow> st" where
  "zrange_common reverse argv s =
     (if length argv \<noteq> 4 \<and> length argv \<noteq> 5 then reply_error (wrong_args (argv ! 0)) s
      else if length argv = 5 \<and> \<not> strcaseeq (argv ! 4) ''WITHSCORES'' then reply_error ''syntax error'' s
      else case (string_to_ll (argv ! 2), string_to_ll (argv ! 3)) of
        (Some start, Some stop) \<Rightarrow>
          (case lookup_key (argv ! 1) s of
             (None, s1) \<Rightarrow> reply_array_header 0 s1
           | (Some ob, s1) \<Rightarrow>
               (case as_zset (ptr ob) of
                  None \<Rightarrow> reply_wrongtype s1
                | Some zs \<Rightarrow> zrange_reply reverse (length argv = 5) start stop zs s1))
      | _ \<Rightarrow> reply_error not_integer s)"

definition cmd_zrange :: "command \<Rightarrow> st \<Rightarrow> st" where "cmd_zrange = zrange_common False"

definition cmd_zrevrange :: "command \<Rightarrow> st \<Rightarrow> st" where "cmd_zrevrange = zrange_common True"

text \<open>The options of \<open>ZRANGEBYSCORE\<close>: \<open>withscores\<close>, \<open>offset\<close> and \<open>limit\<close>, or the text of the error.\<close>

definition zrbs_opts :: "bytes list \<Rightarrow> bytes + bool \<times> int \<times> int" where
  "zrbs_opts args =
     (let withscores = (args \<noteq> [] \<and> strcaseeq (args ! 0) ''WITHSCORES'');
          rest = (if withscores then drop 1 args else args)
      in if rest \<noteq> [] \<and> strcaseeq (rest ! 0) ''LIMIT'' then
           if length rest < 3 then Inl ''syntax error''
           else case (string_to_ll (rest ! 1), string_to_ll (rest ! 2)) of
             (Some offset, Some limit) \<Rightarrow>
               if offset < 0 \<or> limit < 0 then Inl ''LIMIT offset and count must be non-negative integers''
               else if length rest \<noteq> 3 then Inl ''syntax error''
               else Inr (withscores, offset, limit)
           | _ \<Rightarrow> Inl ''LIMIT offset and count must be non-negative integers''
         else if rest \<noteq> [] then Inl ''syntax error''
         else Inr (withscores, 0, - 1))"

text \<open>The ranks of the ends of a score range, \<open>None\<close> when nothing lies in it.\<close>

definition score_range :: "zskiplist \<Rightarrow> double \<times> bool \<Rightarrow> double \<times> bool \<Rightarrow> (nat \<times> nat \<times> int) option" where
  "score_range z lo hi =
     (case (zsl_first_in_score_range z (fst lo) (snd lo), zsl_last_in_score_range z (fst hi) (snd hi)) of
        (Some first, Some fin) \<Rightarrow>
          let rfirst = zsl_get_rank z (zscore (znode_of z first)) (zmember (znode_of z first));
              rlast = zsl_get_rank z (zscore (znode_of z fin)) (zmember (znode_of z fin))
          in if rfirst = 0 \<or> rlast = 0 \<or> rfirst > rlast then None
             else Some (first, fin, rlast - rfirst + 1)
      | _ \<Rightarrow> None)"

text \<open>\<open>while (skip > 0)\<close>: stops at \<open>last\<close>, with a NULL.\<close>

fun skip_loop :: "nat \<Rightarrow> zskiplist \<Rightarrow> nat \<Rightarrow> nat option \<Rightarrow> nat option" where
  "skip_loop 0 z fin x = x"
| "skip_loop (Suc k) z fin x =
     (if x = Some fin then None
      else skip_loop k z fin (Option.bind x (\<lambda>a. forward (level_of z a 0))))"

fun emit_loop :: "nat \<Rightarrow> zskiplist \<Rightarrow> nat \<Rightarrow> nat option \<Rightarrow> nat list" where
  "emit_loop 0 z fin x = []"
| "emit_loop (Suc k) z fin None = []"
| "emit_loop (Suc k) z fin (Some a) =
     a # (if a = fin then [] else emit_loop k z fin (forward (level_of z a 0)))"

text \<open>
  The conversion of the number of elements to \<open>size_t\<close>, which wraps a negative number; the
  number of nodes of a list in memory does not.
\<close>

definition emit_count :: "bool \<Rightarrow> int \<Rightarrow> nat" where
  "emit_count withscores emit =
     (if emit < 0 then to_size_t (if withscores then emit * 2 else emit)
      else if withscores then nat emit * 2 else nat emit)"

definition zrbs_reply :: "bool \<Rightarrow> int \<Rightarrow> int \<Rightarrow> zskiplist \<Rightarrow> (nat \<times> nat \<times> int) option \<Rightarrow> st \<Rightarrow> st" where
  "zrbs_reply withscores offset limit z found s =
     (case found of
        None \<Rightarrow> reply_array_header 0 s
      | Some (first, fin, cnt) \<Rightarrow>
          let x = skip_loop (nat offset) z fin (Some first);
              emit0 = (if limit < 0 then cnt - offset else limit);
              emit1 = (if emit0 < 0 then 0 else emit0);
              emit = (if emit1 > cnt - offset then cnt - offset else emit1)
          in reply_nodes withscores z (emit_loop (nat emit) z fin x)
               (reply_array_header (emit_count withscores emit) s))"

definition min_max_not_float :: bytes where "min_max_not_float = ''min or max is not a float''"

definition cmd_zrangebyscore :: "command \<Rightarrow> st \<Rightarrow> st" where
  "cmd_zrangebyscore argv s =
     (if length argv < 4 then reply_error (wrong_args ''zrangebyscore'') s
      else case (parse_score_arg (argv ! 2), parse_score_arg (argv ! 3)) of
        (Some lo, Some hi) \<Rightarrow>
          (case zrbs_opts (drop 4 argv) of
             Inl m \<Rightarrow> reply_error m s
           | Inr (withscores, offset, limit) \<Rightarrow>
               (case lookup_key (argv ! 1) s of
                  (None, s1) \<Rightarrow> reply_array_header 0 s1
                | (Some ob, s1) \<Rightarrow>
                    (case as_zset (ptr ob) of
                       None \<Rightarrow> reply_wrongtype s1
                     | Some zs \<Rightarrow>
                         zrbs_reply withscores offset limit (zsl zs) (score_range (zsl zs) lo hi) s1)))
      | _ \<Rightarrow> reply_error min_max_not_float s)"

definition zrank_common :: "bool \<Rightarrow> bytes \<Rightarrow> command \<Rightarrow> st \<Rightarrow> st" where
  "zrank_common reverse name argv s =
     (if length argv \<noteq> 3 then reply_error (wrong_args name) s
      else case lookup_key (argv ! 1) s of
        (None, s1) \<Rightarrow> reply_null s1
      | (Some ob, s1) \<Rightarrow>
          (case as_zset (ptr ob) of
             None \<Rightarrow> reply_wrongtype s1
           | Some zs \<Rightarrow>
               (case dict_get (zdict zs) (argv ! 2) of
                  None \<Rightarrow> reply_null s1
                | Some n \<Rightarrow>
                    let rank = zsl_get_rank (zsl zs) (zscore (znode_of (zsl zs) n)) (zmember (znode_of (zsl zs) n))
                    in reply_integer (if reverse then int (zset_len zs) - rank else rank - 1) s1)))"

definition cmd_zrank :: "command \<Rightarrow> st \<Rightarrow> st" where "cmd_zrank = zrank_common False ''zrank''"

definition cmd_zrevrank :: "command \<Rightarrow> st \<Rightarrow> st" where "cmd_zrevrank = zrank_common True ''zrevrank''"

definition cmd_zincrby :: "command \<Rightarrow> st \<Rightarrow> st" where
  "cmd_zincrby argv s =
     (if length argv \<noteq> 4 then reply_error (wrong_args ''zincrby'') s
      else case parse_double (argv ! 2) of
        None \<Rightarrow> reply_error not_float s
      | Some increment \<Rightarrow>
          (case lookup_key (argv ! 1) s of (found, s1) \<Rightarrow>
             if type_mismatch OBJ_ZSET found then reply_wrongtype s1
             else case zset_for_write (argv ! 1) found s1 of (ob, s2) \<Rightarrow>
               (case as_zset (ptr ob) of
                  None \<Rightarrow> s2
                | Some zs \<Rightarrow>
                    let sum = (case zset_score zs (argv ! 3) of
                                 Some old \<Rightarrow> d_add old increment
                               | None \<Rightarrow> increment)
                    in if \<not> d_eq sum sum then reply_error score_nan s2
                       else case zset_add (rands s2) (rand_pos s2) zs sum (argv ! 3) of (r, n, zs', pos) \<Rightarrow>
                         reply_double sum
                           (store_assign (argv ! 1) (ob\<lparr>ptr := PZset zs'\<rparr>) (s2\<lparr>rand_pos := pos\<rparr>)))))"

definition cmd_zcount :: "command \<Rightarrow> st \<Rightarrow> st" where
  "cmd_zcount argv s =
     (if length argv \<noteq> 4 then reply_error (wrong_args ''zcount'') s
      else case (parse_score_arg (argv ! 2), parse_score_arg (argv ! 3)) of
        (Some lo, Some hi) \<Rightarrow>
          (case lookup_key (argv ! 1) s of
             (None, s1) \<Rightarrow> reply_integer 0 s1
           | (Some ob, s1) \<Rightarrow>
               (case as_zset (ptr ob) of
                  None \<Rightarrow> reply_wrongtype s1
                | Some zs \<Rightarrow>
                    (case score_range (zsl zs) lo hi of
                       None \<Rightarrow> reply_integer 0 s1
                     | Some (first, fin, cnt) \<Rightarrow> reply_integer cnt s1)))
      | _ \<Rightarrow> reply_error min_max_not_float s)"

section \<open>Specifications\<close>

definition put_zset :: "bytes \<Rightarrow> (bytes \<Rightarrow> double option) \<Rightarrow> int \<Rightarrow> view \<Rightarrow> view" where
  "put_zset k m e v = (if m = Map.empty then v(k := None) else v(k \<mapsto> (AZset m, e)))"

text \<open>\<open>ZADD\<close> on the map from members to scores.\<close>

fun zadd_abs :: "zadd_flags \<Rightarrow> bytes list \<Rightarrow> int \<Rightarrow> int \<Rightarrow> (bytes \<Rightarrow> double option)
    \<Rightarrow> zadd_end \<times> (bytes \<Rightarrow> double option)" where
  "zadd_abs fl (sc # member # rest) added changed m =
     (case parse_double sc of
        None \<Rightarrow> (Zerr not_float, m)
      | Some score \<Rightarrow>
          if incr fl then
            if nx fl \<and> m member \<noteq> None \<or> xx fl \<and> m member = None then (Znull, m)
            else let sum = (case m member of Some old \<Rightarrow> d_add old score | None \<Rightarrow> score)
                 in if d_isnan sum then (Zerr score_nan, m) else (Zscore sum, zadd_map m sum member)
          else if nx fl \<and> m member \<noteq> None \<or> xx fl \<and> m member = None then zadd_abs fl rest added changed m
          else zadd_abs fl rest
                 (added + of_bool (m member = None))
                 (changed + of_bool (\<exists>old. m member = Some old \<and> \<not> d_eq old score))
                 (zadd_map m score member))"
| "zadd_abs fl _ added changed m = (Zcounts added changed, m)"

definition zadd_end_reply :: "zadd_flags \<Rightarrow> zadd_end \<Rightarrow> reply" where
  "zadd_end_reply fl r =
     (case r of
        Zerr m \<Rightarrow> err m
      | Znull \<Rightarrow> RNull
      | Zscore d \<Rightarrow> score_reply d
      | Zcounts added changed \<Rightarrow> RInt (if ch fl then added + changed else added))"

text \<open>The words before the first pair, and which of the options are among them.\<close>

definition zadd_word :: "bytes \<Rightarrow> bool" where
  "zadd_word a = list_ex (strcaseeq a) [''NX'', ''XX'', ''CH'', ''INCR'']"

definition zadd_given :: "bytes \<Rightarrow> bytes list \<Rightarrow> bool" where
  "zadd_given opt args = list_ex (\<lambda>a. strcaseeq a opt) (takeWhile zadd_word args)"

definition zadd_syntax :: "bytes list \<Rightarrow> zadd_flags \<times> bytes list" where
  "zadd_syntax args =
     (\<lparr>nx = zadd_given ''NX'' args, xx = zadd_given ''XX'' args, ch = zadd_given ''CH'' args,
       incr = zadd_given ''INCR'' args\<rparr>, dropWhile zadd_word args)"

definition spec_zadd :: spec where
  "spec_zadd argv now v =
     (if length argv < 4 then (err (wrong_args ''zadd''), v)
      else case zadd_syntax (drop 2 argv) of (fl, pairs) \<Rightarrow>
        if nx fl \<and> xx fl \<or> pairs = [] \<or> odd (length pairs) then (err ''syntax error'', v)
        else if incr fl \<and> length pairs \<noteq> 2
        then (err ''INCR option supports a single increment-element pair'', v)
        else let add = (\<lambda>m e. case zadd_abs fl pairs 0 0 m of (r, m') \<Rightarrow>
                     (zadd_end_reply fl r, v(argv ! 1 \<mapsto> (AZset m', e))))
             in on_zset v (argv ! 1) (if xx fl then (RInt 0, v) else add Map.empty (- 1)) add)"

definition spec_zcard :: spec where
  "spec_zcard argv now v =
     (if length argv \<noteq> 2 then (err (wrong_args ''zcard''), v)
      else on_zset v (argv ! 1) (RInt 0, v) (\<lambda>m e. (RInt (int (card (dom m))), v)))"

definition spec_zscore :: spec where
  "spec_zscore argv now v =
     (if length argv \<noteq> 3 then (err (wrong_args ''zscore''), v)
      else on_zset v (argv ! 1) (RNull, v)
        (\<lambda>m e. (case m (argv ! 2) of None \<Rightarrow> RNull | Some d \<Rightarrow> score_reply d, v)))"

definition spec_zrem :: spec where
  "spec_zrem argv now v =
     (if length argv < 3 then (err (wrong_args ''zrem''), v)
      else on_zset v (argv ! 1) (RInt 0, v)
        (\<lambda>m e. (RInt (int (card (set (drop 2 argv) \<inter> dom m))),
                 put_zset (argv ! 1) (m |` (- set (drop 2 argv))) e v)))"

definition spec_zincrby :: spec where
  "spec_zincrby argv now v =
     (if length argv \<noteq> 4 then (err (wrong_args ''zincrby''), v)
      else case parse_double (argv ! 2) of
        None \<Rightarrow> (err not_float, v)
      | Some d \<Rightarrow>
          on_zset v (argv ! 1) (score_reply d, v(argv ! 1 \<mapsto> (AZset [argv ! 3 \<mapsto> d], - 1)))
            (\<lambda>m e. let sum = (case m (argv ! 3) of Some old \<Rightarrow> d_add old d | None \<Rightarrow> d)
                    in if d_isnan sum then (err score_nan, v)
                       else (score_reply sum, v(argv ! 1 \<mapsto> (AZset (zadd_map m sum (argv ! 3)), e)))))"

text \<open>The members of a sorted set in the order of their scores, ties by member.\<close>

definition in_order :: "(bytes \<Rightarrow> double option) \<Rightarrow> (bytes \<times> double) list \<Rightarrow> bool" where
  "in_order m xs = (sorted_wrt item_less xs \<and> distinct (map fst xs) \<and> map_of xs = m)"

definition item_reply :: "bool \<Rightarrow> bytes \<times> double \<Rightarrow> reply list" where
  "item_reply withscores p = RBulk (fst p) # (if withscores then [score_reply (snd p)] else [])"

definition items_reply :: "bool \<Rightarrow> (bytes \<times> double) list \<Rightarrow> reply" where
  "items_reply withscores xs = RArray (concat (map (item_reply withscores) xs))"

definition zset_at :: "view \<Rightarrow> bytes \<Rightarrow> bytes \<Rightarrow> double option" where
  "zset_at v k = (case v k of Some (AZset m, e) \<Rightarrow> m | _ \<Rightarrow> Map.empty)"

definition zset_key :: "view \<Rightarrow> bytes \<Rightarrow> bool" where
  "zset_key v k = (case v k of Some (AZset m, e) \<Rightarrow> True | Some _ \<Rightarrow> False | None \<Rightarrow> True)"

definition spec_zrange :: "bool \<Rightarrow> spec_set" where
  "spec_zrange reverse argv now v =
     (if length argv \<noteq> 4 \<and> length argv \<noteq> 5 then {(err (wrong_args (argv ! 0)), v)}
      else if length argv = 5 \<and> \<not> strcaseeq (argv ! 4) ''WITHSCORES'' then {(err ''syntax error'', v)}
      else case (string_to_ll (argv ! 2), string_to_ll (argv ! 3)) of
        (Some i, Some j) \<Rightarrow>
          if \<not> zset_key v (argv ! 1) then {(wrongtype, v)}
          else {(items_reply (length argv = 5) (lslice (if reverse then rev xs else xs) i j), v) | xs.
                in_order (zset_at v (argv ! 1)) xs}
      | _ \<Rightarrow> {(err not_integer, v)})"

definition in_range :: "double \<times> bool \<Rightarrow> double \<times> bool \<Rightarrow> double \<Rightarrow> bool" where
  "in_range lo hi d = (\<not> below_min (fst lo) (snd lo) d \<and> below_max (fst hi) (snd hi) d)"

text \<open>
  \<open>ZRANGEBYSCORE\<close> with an offset beyond the end of a range that is not empty announces a huge
  number of elements and sends none.
\<close>

definition score_bound :: "bytes \<Rightarrow> (double \<times> bool) option" where
  "score_bound arg =
     (case arg of
        [] \<Rightarrow> None
      | c # rest \<Rightarrow>
          if c = CHR ''('' then map_option (\<lambda>d. (d, True)) (parse_double rest)
          else map_option (\<lambda>d. (d, False)) (parse_double arg))"

fun limit_clause :: "bytes list \<Rightarrow> bytes + int \<times> int" where
  "limit_clause [] = Inr (0, - 1)"
| "limit_clause [w] = Inl ''syntax error''"
| "limit_clause [w, x] = Inl ''syntax error''"
| "limit_clause (w # x # y # rest) =
     (if \<not> strcaseeq w ''LIMIT'' then Inl ''syntax error''
      else case (string_to_ll x, string_to_ll y) of
        (Some offset, Some count) \<Rightarrow>
          if 0 \<le> offset \<and> 0 \<le> count then if rest = [] then Inr (offset, count) else Inl ''syntax error''
          else Inl ''LIMIT offset and count must be non-negative integers''
      | _ \<Rightarrow> Inl ''LIMIT offset and count must be non-negative integers'')"

fun window_options :: "bytes list \<Rightarrow> bytes + bool \<times> int \<times> int" where
  "window_options [] = Inr (False, 0, - 1)"
| "window_options (w # rest) =
     (if strcaseeq w ''WITHSCORES'' then map_sum id (Pair True) (limit_clause rest)
      else map_sum id (Pair False) (limit_clause (w # rest)))"

definition window_reply :: "bool \<Rightarrow> int \<Rightarrow> int \<Rightarrow> (bytes \<times> double) list \<Rightarrow> reply" where
  "window_reply withscores offset limit xs =
     (if xs \<noteq> [] \<and> int (length xs) < offset
      then RHeader (nat (((if withscores then 2 else 1) * (int (length xs) - offset)) mod 2 ^ 64))
      else items_reply withscores
             (let ys = drop (nat offset) xs in if limit < 0 then ys else take (nat limit) ys))"

definition spec_zrangebyscore :: spec_set where
  "spec_zrangebyscore argv now v =
     (if length argv < 4 then {(err (wrong_args ''zrangebyscore''), v)}
      else case (score_bound (argv ! 2), score_bound (argv ! 3)) of
        (Some lo, Some hi) \<Rightarrow>
          (case window_options (drop 4 argv) of
             Inl m \<Rightarrow> {(err m, v)}
           | Inr (withscores, offset, limit) \<Rightarrow>
               if \<not> zset_key v (argv ! 1) then {(wrongtype, v)}
               else {(window_reply withscores offset limit (filter (in_range lo hi \<circ> snd) xs), v) | xs.
                     in_order (zset_at v (argv ! 1)) xs})
      | _ \<Rightarrow> {(err min_max_not_float, v)})"

definition spec_zcount :: spec where
  "spec_zcount argv now v =
     (if length argv \<noteq> 4 then (err (wrong_args ''zcount''), v)
      else case (score_bound (argv ! 2), score_bound (argv ! 3)) of
        (Some lo, Some hi) \<Rightarrow>
          on_zset v (argv ! 1) (RInt 0, v)
            (\<lambda>m e. (RInt (int (card {k. \<exists>d. m k = Some d \<and> in_range lo hi d})), v))
      | _ \<Rightarrow> (err min_max_not_float, v))"

definition item_before :: "(bytes \<Rightarrow> double option) \<Rightarrow> bytes \<times> double \<Rightarrow> bytes set" where
  "item_before m p = {k. \<exists>d. m k = Some d \<and> item_less (k, d) p}"

definition spec_zrank :: "bool \<Rightarrow> bytes \<Rightarrow> spec" where
  "spec_zrank reverse name argv now v =
     (if length argv \<noteq> 3 then (err (wrong_args name), v)
      else on_zset v (argv ! 1) (RNull, v)
        (\<lambda>m e. (case m (argv ! 2) of
                   None \<Rightarrow> RNull
                 | Some d \<Rightarrow>
                     let below = card (item_before m (argv ! 2, d))
                     in RInt (if reverse then int (card (dom m)) - (int below + 1) else int below), v)))"

section \<open>Proofs\<close>

lemma robj_new_zset_sel [simp]: "ptr (robj_new_zset x) = PZset (zset_create x)" "expire_at (robj_new_zset x) = - 1"
  by (simp_all add: robj_new_zset_def)

lemma zset_for_write_simps [simp]:
  "zset_for_write key (Some ob) s = (ob, s)"
  "zset_for_write key None s =
     (robj_new_zset (seeds s (seed_pos s)),
      store_set key (robj_new_zset (seeds s (seed_pos s))) (s\<lparr>seed_pos := seed_pos s + 1\<rparr>))"
  by (simp_all add: zset_for_write_def new_seed_def Let_def)

lemma implements_zcard: "implements cmd_zcard spec_zcard"
  apply (rule implementsI)
  subgoal for argv s
    by (cases rule: zset_cases [of s "argv ! 1"]) (simp_all add: cmd_zcard_def spec_zcard_def zset_len_card)
  done

lemma implements_zscore: "implements cmd_zscore spec_zscore"
  apply (rule implementsI)
  subgoal for argv s
    by (cases rule: zset_cases [of s "argv ! 1"])
      (auto simp: cmd_zscore_def spec_zscore_def score_reply_def split: option.split)
  done

lemma zrem_loop_ok:
  "zset_ok zs \<Longrightarrow>
     zset_ok (snd (zrem_loop ms n zs)) \<and>
     zset_score (snd (zrem_loop ms n zs)) = zset_score zs |` (- set ms) \<and>
     fst (zrem_loop ms n zs) = n + card (set ms \<inter> dom (zset_score zs))"
proof (induction ms arbitrary: n zs)
  case (Cons m ms)
  obtain hit zs' where r: "zset_remove zs m = (hit, zs')" by fastforce
  note ok = zset_remove_ok [OF Cons.prems, of m, unfolded r fst_conv snd_conv]
  have fin: "finite (dom (zset_score zs))"
    using zset_items_map [OF Cons.prems] finite_dom_map_of by metis
  have "set (m # ms) \<inter> dom (zset_score zs) =
      (if hit then insert m (set ms \<inter> dom (zset_score zs')) else set ms \<inter> dom (zset_score zs'))"
    using ok by auto
  moreover have "m \<notin> set ms \<inter> dom (zset_score zs')" "finite (set ms \<inter> dom (zset_score zs'))"
    using ok by auto
  ultimately have "card (set (m # ms) \<inter> dom (zset_score zs)) =
      (if hit then 1 else 0) + card (set ms \<inter> dom (zset_score zs'))"
    by simp
  moreover have "zset_score zs |` (- set (m # ms)) = zset_score zs' |` (- set ms)"
    using ok(3) by (auto simp: restrict_map_def fun_eq_iff)
  ultimately show ?case using Cons.IH [OF ok(2)] r by (simp split: if_splits)
qed (simp add: restrict_map_def)

lemma implements_zrem: "implements cmd_zrem spec_zrem"
proof (rule implementsI, goal_cases)
  case (1 argv s)
  from 1 show ?case
  proof (cases rule: zset_cases [of s "argv ! 1"])
    case (present ob zs)
    obtain n zs' where p: "zrem_loop (drop 2 argv) 0 zs = (n, zs')" by fastforce
    note q = zrem_loop_ok [OF present(7), of "drop 2 argv" 0, unfolded p fst_conv snd_conv]
    have "zset_len zs' = 0 \<longleftrightarrow> zset_score zs' = Map.empty"
      using zset_len_card [of zs'] q zset_items_map [of zs'] finite_dom_map_of
      by (metis card_0_eq dom_eq_empty_conv)
    then show ?thesis using present p q
      by (simp add: cmd_zrem_def spec_zrem_def Let_def put_zset_def maybe_delete_key_def)
  qed (use 1 in \<open>simp_all add: cmd_zrem_def spec_zrem_def\<close>)
qed

lemma zadd_loop_ok:
  "zset_ok zs \<Longrightarrow>
     \<exists>r zs' pos'. zadd_loop fl ps a c rand pos zs = (r, zs', pos') \<and> zset_ok zs' \<and>
       zadd_abs fl ps a c (zset_score zs) = (r, zset_score zs')"
proof (induction fl ps a c "zset_score zs" arbitrary: pos zs rule: zadd_abs.induct)
  case (1 fl sc member rest a c)
  show ?case
  proof (cases "parse_double sc")
    case None
    then show ?thesis using 1 by simp
  next
    case (Some score)
    note nn = parse_double_number [OF Some]
    let ?sum = "case zset_score zs member of Some old \<Rightarrow> d_add old score | None \<Rightarrow> score"
    let ?m = "zset_score zs"
    consider (skip) "nx fl \<and> ?m member \<noteq> None \<or> xx fl \<and> ?m member = None"
      | (incr) "\<not> (nx fl \<and> ?m member \<noteq> None \<or> xx fl \<and> ?m member = None)" "incr fl"
      | (add) "\<not> (nx fl \<and> ?m member \<noteq> None \<or> xx fl \<and> ?m member = None)" "\<not> incr fl" by blast
    then show ?thesis
    proof cases
      case skip
      show ?thesis
      proof (cases "incr fl")
        case True
        then show ?thesis using skip Some 1 by auto
      next
        case False
        have "zadd_loop fl (sc # member # rest) a c rand pos zs = zadd_loop fl rest a c rand pos zs"
          "zadd_abs fl (sc # member # rest) a c ?m = zadd_abs fl rest a c ?m"
          using skip False Some by auto
        then show ?thesis using "1.hyps"(1) [OF Some False skip refl "1.prems"] by simp
      qed
    next
      case incr
      show ?thesis
      proof (cases "d_isnan ?sum")
        case True
        then show ?thesis using incr Some 1 by (auto simp: d_eq_refl Let_def)
      next
        case False
        obtain n zs' pos' where "zset_add rand pos zs ?sum member = (zadd_result ?m ?sum member, n, zs', pos')"
          "zset_ok zs'" "zset_score zs' = zadd_map ?m ?sum member"
          using zset_add_ok [OF "1.prems" False] by metis
        then show ?thesis using incr Some False by (auto simp: d_eq_refl Let_def)
      qed
    next
      case add
      obtain n zs' pos' where z: "zset_add rand pos zs score member = (zadd_result ?m score member, n, zs', pos')"
        "zset_ok zs'" "zset_score zs' = zadd_map ?m score member"
        using zset_add_ok [OF "1.prems" nn] by metis
      let ?a = "a + of_bool (?m member = None)"
      let ?c = "c + of_bool (\<exists>old. ?m member = Some old \<and> \<not> d_eq old score)"
      have "(if zadd_result ?m score member = 1 then a + 1 else a) = ?a"
        "(if zadd_result ?m score member = 2 then c + 1 else c) = ?c"
        by (auto simp: zadd_result_def split: option.split)
      then have "zadd_loop fl (sc # member # rest) a c rand pos zs = zadd_loop fl rest ?a ?c rand pos' zs'"
        using add Some z by auto
      moreover have "zadd_abs fl (sc # member # rest) a c ?m = zadd_abs fl rest ?a ?c (zset_score zs')"
        using add Some z(3) by auto
      ultimately show ?thesis using "1.hyps"(2) [OF Some add(2,1) z(3) [symmetric] z(2)] by simp
    qed
  qed
qed auto

lemma zadd_reply_simps [simp]:
  "store (zadd_reply fl r s) = store s" "clock (zadd_reply fl r s) = clock s" "view (zadd_reply fl r s) = view s"
  "closing (zadd_reply fl r s) = closing s" "start_ms (zadd_reply fl r s) = start_ms s"
  "seeds (zadd_reply fl r s) = seeds s" "rands (zadd_reply fl r s) = rands s"
  "st_ok s \<Longrightarrow> st_ok (zadd_reply fl r s)"
  "st_ok s \<Longrightarrow> outb (zadd_reply fl r s) = outb s @ encode (zadd_end_reply fl r)"
  by (simp_all add: zadd_reply_def zadd_end_reply_def score_reply_def split: zadd_end.split)

lemma zadd_words_differ:
  "strcaseeq a ''NX'' \<Longrightarrow> \<not> strcaseeq a ''XX''" "strcaseeq a ''NX'' \<Longrightarrow> \<not> strcaseeq a ''CH''"
  "strcaseeq a ''NX'' \<Longrightarrow> \<not> strcaseeq a ''INCR''" "strcaseeq a ''XX'' \<Longrightarrow> \<not> strcaseeq a ''CH''"
  "strcaseeq a ''XX'' \<Longrightarrow> \<not> strcaseeq a ''INCR''" "strcaseeq a ''CH'' \<Longrightarrow> \<not> strcaseeq a ''INCR''"
proof -
  have "to_lower (CHR ''N'') \<noteq> to_lower (CHR ''X'')" "to_lower (CHR ''N'') \<noteq> to_lower (CHR ''C'')"
    "to_lower (CHR ''X'') \<noteq> to_lower (CHR ''C'')" by code_simp+
  then show "strcaseeq a ''NX'' \<Longrightarrow> \<not> strcaseeq a ''XX''" "strcaseeq a ''NX'' \<Longrightarrow> \<not> strcaseeq a ''CH''"
    "strcaseeq a ''NX'' \<Longrightarrow> \<not> strcaseeq a ''INCR''" "strcaseeq a ''XX'' \<Longrightarrow> \<not> strcaseeq a ''CH''"
    "strcaseeq a ''XX'' \<Longrightarrow> \<not> strcaseeq a ''INCR''" "strcaseeq a ''CH'' \<Longrightarrow> \<not> strcaseeq a ''INCR''"
    by (auto simp: strcaseeq_def)
qed

lemma zadd_opts_given:
  "zadd_opts args fl =
     (\<lparr>nx = nx fl \<or> zadd_given ''NX'' args, xx = xx fl \<or> zadd_given ''XX'' args, ch = ch fl \<or> zadd_given ''CH'' args,
       incr = incr fl \<or> zadd_given ''INCR'' args\<rparr>, dropWhile zadd_word args)"
proof (induction args fl rule: zadd_opts.induct)
  case (2 a rest fl)
  consider "strcaseeq a ''NX''" | "strcaseeq a ''XX''" | "strcaseeq a ''CH''" | "strcaseeq a ''INCR''" | "\<not> zadd_word a"
    by (auto simp: zadd_word_def)
  then show ?case
  proof cases
    case 5
    then show ?thesis by (simp add: zadd_given_def zadd_word_def)
  qed (use 2 zadd_words_differ [of a] in \<open>auto simp: zadd_given_def zadd_word_def\<close>)
qed (simp add: zadd_given_def)

lemma zadd_opts_syntax: "zadd_syntax args = zadd_opts args \<lparr>nx = False, xx = False, ch = False, incr = False\<rparr>"
  by (simp add: zadd_syntax_def zadd_opts_given)

lemmas spec_zadd_opts = spec_zadd_def [unfolded zadd_opts_syntax]

lemma implements_zadd: "implements cmd_zadd spec_zadd"
proof (rule implementsI, goal_cases)
  case (1 argv s)
  obtain fl ps where o: "zadd_opts (drop 2 argv) \<lparr>nx = False, xx = False, ch = False, incr = False\<rparr> = (fl, ps)"
    by fastforce
  show ?case
  proof (cases "length argv < 4 \<or> nx fl \<and> xx fl \<or> ps = [] \<or> odd (length ps) \<or> incr fl \<and> length ps \<noteq> 2")
    case True
    then show ?thesis using 1 o by (auto simp: cmd_zadd_def spec_zadd_opts)
  next
    case False
    then have ok: "\<not> length argv < 4" "\<not> (nx fl \<and> xx fl)" "ps \<noteq> []" "even (length ps)" "incr fl \<Longrightarrow> length ps = 2"
      by auto
    from 1 show ?thesis
    proof (cases rule: zset_cases [of s "argv ! 1"])
      case (absent s1)
      show ?thesis
      proof (cases "xx fl")
        case True
        then show ?thesis using absent 1 ok o by (cases "incr fl"; cases "xx fl") (simp_all add: cmd_zadd_def spec_zadd_opts Let_def)
      next
        case nxx: False
        let ?zs = "zset_create (seeds s1 (seed_pos s1))"
        obtain r zs' pos' where z: "zadd_loop fl ps 0 0 (rands s1) (rand_pos s1) ?zs = (r, zs', pos')" "zset_ok zs'"
          "zadd_abs fl ps 0 0 (zset_score ?zs) = (r, zset_score zs')"
          using zadd_loop_ok [of ?zs fl ps 0 0 "rands s1" "rand_pos s1"] by auto
        then show ?thesis using absent 1 ok nxx o by (cases "incr fl"; cases "xx fl") (simp_all add: cmd_zadd_def spec_zadd_opts Let_def)
      qed
    next
      case (present ob zs)
      obtain r zs' pos' where z: "zadd_loop fl ps 0 0 (rands s) (rand_pos s) zs = (r, zs', pos')" "zset_ok zs'"
        "zadd_abs fl ps 0 0 (zset_score zs) = (r, zset_score zs')"
        using zadd_loop_ok [OF present(7), of fl ps 0 0 "rands s" "rand_pos s"] by auto
      then show ?thesis using present ok o by (cases "incr fl"; cases "xx fl") (simp_all add: cmd_zadd_def spec_zadd_opts Let_def)
    next
      case (other ob)
      then show ?thesis using ok o by (cases "incr fl"; cases "xx fl") (simp_all add: cmd_zadd_def spec_zadd_opts Let_def)
    qed
  qed
qed

lemma implements_zincrby: "implements cmd_zincrby spec_zincrby"
proof (rule implementsI, goal_cases)
  case (1 argv s)
  show ?case
  proof (cases "length argv \<noteq> 4 \<or> parse_double (argv ! 2) = None")
    case True
    then show ?thesis using 1 by (auto simp: cmd_zincrby_def spec_zincrby_def)
  next
    case False
    then obtain d where d: "length argv = 4" "parse_double (argv ! 2) = Some d" by auto
    note nn = parse_double_number [OF d(2)]
    from 1 show ?thesis
    proof (cases rule: zset_cases [of s "argv ! 1"])
      case (absent s1)
      let ?zs = "zset_create (seeds s1 (seed_pos s1))"
      obtain n zs' pos' where z: "zset_add (rands s1) (rand_pos s1) ?zs d (argv ! 3) =
          (zadd_result (zset_score ?zs) d (argv ! 3), n, zs', pos')" "zset_ok zs'"
        "zset_score zs' = zadd_map (zset_score ?zs) d (argv ! 3)"
        using zset_add_ok [OF zset_create_ok nn] by metis
      then show ?thesis
        using absent d nn
        by (simp add: cmd_zincrby_def spec_zincrby_def Let_def d_eq_refl zadd_map_def score_reply_def)
    next
      case (present ob zs)
      let ?sum = "case zset_score zs (argv ! 3) of Some old \<Rightarrow> d_add old d | None \<Rightarrow> d"
      show ?thesis
      proof (cases "d_isnan ?sum")
        case True
        then show ?thesis
          using present d by (simp add: cmd_zincrby_def spec_zincrby_def Let_def d_eq_refl)
      next
        case False
        obtain n zs' pos' where z: "zset_add (rands s) (rand_pos s) zs ?sum (argv ! 3) =
            (zadd_result (zset_score zs) ?sum (argv ! 3), n, zs', pos')" "zset_ok zs'"
          "zset_score zs' = zadd_map (zset_score zs) ?sum (argv ! 3)"
          using zset_add_ok [OF present(7) False] by metis
        then show ?thesis
          using present d False by (simp add: cmd_zincrby_def spec_zincrby_def Let_def d_eq_refl score_reply_def)
      qed
    next
      case (other ob)
      then show ?thesis using d by (simp add: cmd_zincrby_def spec_zincrby_def)
    qed
  qed
qed

lemma zset_in_order: "zset_ok zs \<Longrightarrow> in_order (zset_score zs) (zset_items zs)"
  by (simp add: in_order_def zset_items_sorted zset_items_map)

lemma item_less_asym: "item_less p q \<Longrightarrow> \<not> item_less q p"
  by (auto simp: item_less_def d_less_def d_eq_def member_less_lex)

lemma in_order_rank:
  assumes "in_order m xs" "i < length xs"
  shows "card (item_before m (xs ! i)) = i"
proof -
  have s: "item_less (xs ! j) (xs ! k)" if "j < k" "k < length xs" for j k
    using assms(1) that by (simp add: in_order_def sorted_wrt_iff_nth_less)
  have "item_less (xs ! j) (xs ! i) \<longleftrightarrow> j < i" if "j < length xs" for j
    using s [of j i] s [of i j] item_less_asym that assms(2) by (metis linorder_neqE_nat)
  then have l: "item_less (xs ! j) (xs ! i) \<longleftrightarrow> j < i" if "j < length xs" for j using that by blast
  have m: "m k = Some d \<longleftrightarrow> (\<exists>j<length xs. xs ! j = (k, d))" for k d
    using assms(1) map_of_eq_Some_iff [of xs k d] unfolding in_order_def in_set_conv_nth by blast
  have "item_before m (xs ! i) = (\<lambda>j. fst (xs ! j)) ` {..<i}"
  proof (intro set_eqI iffI)
    fix k assume "k \<in> item_before m (xs ! i)"
    then obtain d j where "j < length xs" "xs ! j = (k, d)" "item_less (xs ! j) (xs ! i)"
      by (auto simp: item_before_def m)
    then show "k \<in> (\<lambda>j. fst (xs ! j)) ` {..<i}" using l by (metis fst_conv image_eqI lessThan_iff)
  next
    fix k assume "k \<in> (\<lambda>j. fst (xs ! j)) ` {..<i}"
    then obtain j where j: "j < i" "k = fst (xs ! j)" by auto
    then have "j < length xs" using assms(2) by simp
    then show "k \<in> item_before m (xs ! i)"
      using j l [of j] by (auto simp: item_before_def m intro!: exI [of _ "snd (xs ! j)"] exI [of _ j])
  qed
  moreover have "inj_on (\<lambda>j. fst (xs ! j)) {..<i}"
    using assms nth_eq_iff_index_eq [of "map fst xs"] by (auto simp: inj_on_def in_order_def)
  ultimately show ?thesis by (simp add: card_image)
qed

lemma implements_zrank: "implements (zrank_common reverse name) (spec_zrank reverse name)"
proof (rule implementsI, goal_cases)
  case (1 argv s)
  from 1 show ?case
  proof (cases rule: zset_cases [of s "argv ! 1"])
    case (present ob zs)
    show ?thesis
    proof (cases "dict_get (zdict zs) (argv ! 2)")
      case None
      then have "zset_score zs (argv ! 2) = None" by (simp add: zset_score_def)
      then show ?thesis using present None by (simp add: zrank_common_def spec_zrank_def)
    next
      case (Some n)
      let ?d = "zscore (znode_of (zsl zs) n)"
      have sc: "zset_score zs (argv ! 2) = Some ?d" "zmember (znode_of (zsl zs) n) = argv ! 2"
        using Some present(7) by (auto simp: zset_score_def zset_ok_def)
      obtain i where i: "i < length (zset_items zs)" "zset_items zs ! i = (argv ! 2, ?d)"
        using zset_score_items [OF present(7)] sc(1) by (metis in_set_conv_nth)
      have "zsl_get_rank (zsl zs) ?d (argv ! 2) = int i + 1" by (rule zset_rank_ok [OF present(7) i])
      moreover have "card (item_before (zset_score zs) (argv ! 2, ?d)) = i"
        using in_order_rank [OF zset_in_order [OF present(7)] i(1)] i(2) by simp
      ultimately show ?thesis
        using present Some sc by (simp add: zrank_common_def spec_zrank_def Let_def zset_len_card)
    qed
  qed (use 1 in \<open>simp_all add: zrank_common_def spec_zrank_def\<close>)
qed

lemma reply_nodes_ok:
  "st_ok s \<Longrightarrow> gives s (reply_nodes ws z xs s) (view s)
     (concat (map encode (concat (map (item_reply ws) (map (node_item z) xs)))))"
proof (induction xs arbitrary: s)
  case Nil
  then show ?case by (simp add: gives_refl)
next
  case (Cons x xs)
  let ?s1 = "reply_bulk (zmember (znode_of z x)) s"
  let ?s2 = "if ws then reply_double (zscore (znode_of z x)) ?s1 else ?s1"
  have s2: "gives s ?s2 (view s) (concat (map encode (item_reply ws (node_item z x))))" "st_ok ?s2" "view ?s2 = view s"
    using Cons.prems by (auto simp: gives_def item_reply_def node_item_def score_reply_def)
  have "reply_nodes ws z (x # xs) s = reply_nodes ws z xs ?s2" by (simp add: Let_def)
  then show ?case
    using gives_trans [OF s2(1) Cons.IH [OF s2(2)]] unfolding s2(3) by (simp add: Let_def)
qed

lemma header_nodes_ok:
  assumes "st_ok s" "n = length (concat (map (item_reply ws) (map (node_item z) xs)))"
  shows "gives s (reply_nodes ws z xs (reply_array_header n s)) (view s) (encode (items_reply ws (map (node_item z) xs)))"
proof -
  have "gives s (reply_array_header n s) (view s) (CHR ''*'' # show_nat n @ crlf)" "st_ok (reply_array_header n s)"
    "view (reply_array_header n s) = view s"
    using assms(1) by (simp_all add: gives_def)
  from gives_trans [OF this(1) reply_nodes_ok [OF this(2)]] this(3) show ?thesis
    by (simp add: items_reply_def encode.simps assms(2))
qed

lemma items_length: "length (concat (map (item_reply ws) xs)) = (if ws then length xs * 2 else length xs)"
  by (induction xs) (simp_all add: item_reply_def)

lemma hd_opt_drop: "k < length ns \<Longrightarrow> hd_opt (drop k ns) = Some (ns ! k)"
  by (simp add: hd_opt_def hd_drop_conv_nth)

lemma zrange_nodes:
  assumes "zset_ok zs" "range_normalize (int (zset_len zs)) i j = Some (a, b)"
  defines "ns \<equiv> zsl_nodes (zsl zs)"
  shows "zsl_walk (nat (b - a + 1)) (zsl zs) (zsl_get_element_by_rank (zsl zs) (a + 1)) = lslice ns i j"
    and "zsl_walk_back (nat (b - a + 1)) (zsl zs) (zsl_get_element_by_rank (zsl zs) (int (zset_len zs) - a)) =
      lslice (rev ns) i j"
    and "length (lslice ns i j) = nat (b - a + 1)" "length (lslice (rev ns) i j) = nat (b - a + 1)"
proof -
  have ok: "zsl_ok (zsl zs) ns" and len: "zset_len zs = length ns"
    using assms(1) zset_len_ok [OF assms(1)] by (simp_all add: zset_ok_def ns_def zset_items_def)
  note r = range_normalize_cases [OF assms(2)] and sl = range_normalize_slice [OF assms(2) [unfolded len]]
    and sr = range_normalize_slice [of "rev ns" i j a b]
  define k where "k = nat a"
  have k: "a = int k" "k < length ns" using r(1-3) len unfolding k_def by linarith+
  have "zsl_get_element_by_rank (zsl zs) (a + 1) = hd_opt (drop k ns)"
    using zsl_get_element_by_rank_ok [OF ok, of "k + 1"] k by (simp add: hd_opt_drop add.commute)
  then show "zsl_walk (nat (b - a + 1)) (zsl zs) (zsl_get_element_by_rank (zsl zs) (a + 1)) = lslice ns i j"
    using zsl_walk_ok [of "zsl zs" "take k ns" "drop k ns"] ok k sl(1) by simp
  have "zsl_get_element_by_rank (zsl zs) (int (zset_len zs) - a) = hd_opt (rev (take (length ns - k) ns))"
    using zsl_get_element_by_rank_ok [OF ok, of "length ns - k"] k len hd_opt_drop [of k "rev ns"]
    by (simp add: of_nat_diff rev_take rev_nth)
  moreover have "rev (take (length ns - k) ns) = drop k (rev ns)" using k by (simp add: rev_take)
  ultimately show "zsl_walk_back (nat (b - a + 1)) (zsl zs) (zsl_get_element_by_rank (zsl zs) (int (zset_len zs) - a)) =
      lslice (rev ns) i j"
    using zsl_walk_back_ok [of "zsl zs" "take (length ns - k) ns" "drop (length ns - k) ns"] ok k sr(1) assms(2) len
    by simp
  show "length (lslice ns i j) = nat (b - a + 1)" "length (lslice (rev ns) i j) = nat (b - a + 1)"
    using sl sr assms(2) len by simp_all
qed

lemma lslice_map: "lslice (map f xs) i j = map f (lslice xs i j)"
  by (simp add: lslice_def take_map drop_map)

lemma zrange_reply_ok:
  assumes "st_ok s" "zset_ok zs"
  shows "gives s (zrange_reply reverse ws i j zs s) (view s)
    (encode (items_reply ws (lslice (if reverse then rev (zset_items zs) else zset_items zs) i j)))"
proof (cases "range_normalize (int (zset_len zs)) i j")
  case None
  have "lslice (if reverse then rev (zset_items zs) else zset_items zs) i j = []"
    using None zset_len_ok [OF assms(2)] by (intro range_normalize_None) auto
  then show ?thesis
    using None assms(1) by (simp add: zrange_reply_def items_reply_def gives_def encode_empty)
next
  case (Some r)
  obtain a b where r: "r = (a, b)" by fastforce
  note n = zrange_nodes [OF assms(2) Some [unfolded r]]
  define nodes where "nodes = lslice (if reverse then rev (zsl_nodes (zsl zs)) else zsl_nodes (zsl zs)) i j"
  have len: "length nodes = nat (b - a + 1)" using n(3,4) by (simp add: nodes_def)
  have items: "map (node_item (zsl zs)) nodes = lslice (if reverse then rev (zset_items zs) else zset_items zs) i j"
    by (simp add: nodes_def zset_items_def rev_map lslice_map)
  have "zrange_reply reverse ws i j zs s =
      reply_nodes ws (zsl zs) nodes (reply_array_header (if ws then length nodes * 2 else length nodes) s)"
    using n Some r by (simp add: zrange_reply_def Let_def nodes_def)
  moreover have "gives s (reply_nodes ws (zsl zs) nodes (reply_array_header (if ws then length nodes * 2 else length nodes) s))
      (view s) (encode (items_reply ws (map (node_item (zsl zs)) nodes)))"
    by (rule header_nodes_ok [OF assms(1)]) (simp only: items_length length_map)
  ultimately show ?thesis unfolding items by metis
qed

lemma allows_zrange: "allows (zrange_common reverse) (spec_zrange reverse)"
proof (rule allowsI, goal_cases)
  case (1 argv s)
  show ?case
  proof (cases "length argv \<noteq> 4 \<and> length argv \<noteq> 5 \<or> length argv = 5 \<and> \<not> strcaseeq (argv ! 4) ''WITHSCORES'' \<or>
      string_to_ll (argv ! 2) = None \<or> string_to_ll (argv ! 3) = None")
    case True
    then show ?thesis
      using 1 by (auto simp: zrange_common_def spec_zrange_def gives_def split: option.split)
  next
    case False
    then obtain i j where ij: "string_to_ll (argv ! 2) = Some i" "string_to_ll (argv ! 3) = Some j"
      by (cases "string_to_ll (argv ! 2)"; cases "string_to_ll (argv ! 3)") auto
    let ?k = "argv ! 1"
    have cmd: "zrange_common reverse argv s =
       (case lookup_key ?k s of
          (None, s1) \<Rightarrow> reply_array_header 0 s1
        | (Some ob, s1) \<Rightarrow>
            (case as_zset (ptr ob) of
               None \<Rightarrow> reply_wrongtype s1
             | Some zs \<Rightarrow> zrange_reply reverse (length argv = 5) i j zs s1))"
      using False ij by (auto simp: zrange_common_def split: option.split)
    have spec: "spec_zrange reverse argv (clock s) (view s) = (if \<not> zset_key (view s) ?k then {(wrongtype, view s)}
       else {(items_reply (length argv = 5) (lslice (if reverse then rev xs else xs) i j), view s) | xs.
             in_order (zset_at (view s) ?k) xs})"
      using False ij by (auto simp: spec_zrange_def)
    from 1 show ?thesis
    proof (cases rule: zset_cases [of s ?k])
      case (absent s1)
      have "gives s (zrange_common reverse argv s) (view s) (encode (items_reply (length argv = 5) (lslice [] i j)))"
        using absent by (simp add: cmd gives_def items_reply_def lslice_def encode_empty)
      moreover have "in_order (zset_at (view s) ?k) []" "zset_key (view s) ?k"
        using absent by (simp_all add: zset_at_def in_order_def zset_key_def)
      ultimately show ?thesis unfolding spec by force
    next
      case (present ob zs)
      let ?r = "items_reply (length argv = 5) (lslice (if reverse then rev (zset_items zs) else zset_items zs) i j)"
      have "zset_at (view s) ?k = zset_score zs" "zset_key (view s) ?k"
        using present by (simp_all add: zset_at_def zset_key_def)
      then have "(?r, view s) \<in> spec_zrange reverse argv (clock s) (view s)"
        using zset_in_order [OF present(7)] unfolding spec by auto
      moreover have "zrange_common reverse argv s = zrange_reply reverse (length argv = 5) i j zs s"
        using present by (simp add: cmd)
      ultimately show ?thesis using zrange_reply_ok [OF present(2,7)] by metis
    next
      case (other ob)
      then have "\<not> zset_key (view s) ?k" by (cases "ptr ob") (simp_all add: zset_key_def)
      moreover have "gives s (zrange_common reverse argv s) (view s) (encode wrongtype)"
        using other by (simp add: cmd gives_def)
      ultimately show ?thesis unfolding spec by auto
    qed
  qed
qed

text \<open>A predicate that holds on a prefix of the nodes, as the two tests of a score range do.\<close>

lemma find_split:
  assumes "\<forall>a\<in>set as. P a" "\<forall>a\<in>set ws. \<not> P a"
  shows "find (\<lambda>a. \<not> P a) (as @ ws) = hd_opt ws" "find P (rev (as @ ws)) = hd_opt (rev as)"
proof -
  show "find (\<lambda>a. \<not> P a) (as @ ws) = hd_opt ws" using assms by (induction as) (cases ws; simp)+
  show "find P (rev (as @ ws)) = hd_opt (rev as)"
    using assms by (induction ws rule: rev_induct; cases as rule: rev_cases) auto
qed

lemma score_range_ends:
  assumes ok: "zsl_ok z ns" and ns: "ns = as @ ws" "ns = us @ vs"
    and first: "zsl_first_in_score_range z (fst lo) (snd lo) = hd_opt ws"
    and fin: "zsl_last_in_score_range z (fst hi) (snd hi) = hd_opt (rev us)"
  shows "score_range z lo hi =
    (if length as < length us then Some (ns ! length as, last us, int (length us) - int (length as)) else None)"
proof (cases "ws = [] \<or> us = []")
  case True
  then have "\<not> length as < length us" using ns by (metis append_Nil2 length_append not_add_less1 list.size(3) not_less0)
  then show ?thesis using True first fin by (auto simp: score_range_def split: option.split)
next
  case False
  have rank: "zsl_get_rank z (zscore (znode_of z (ns ! i))) (zmember (znode_of z (ns ! i))) = int i + 1"
    if "i < length ns" for i by (rule zsl_get_rank_ok [OF ok that])
  have "hd ws = ns ! length as" "length as < length ns" using False ns(1) by (simp_all add: hd_conv_nth nth_append)
  moreover have "last us = ns ! (length us - 1)" "length us - 1 < length ns"
    using False unfolding ns(2) by (simp_all add: last_conv_nth nth_append diff_less trans_less_add1)
  ultimately have h: "hd ws = ns ! length as" "last us = ns ! (length us - 1)" "length as < length ns"
    "length us - 1 < length ns" by blast+
  have len: "int (length us - 1) + 1 = int (length us)" using False by (cases us) simp_all
  show ?thesis
    using False first fin rank [OF h(3)] rank [OF h(4), unfolded len] unfolding h(1,2)
    by (auto simp: score_range_def hd_opt_def hd_rev h Let_def of_nat_diff)
qed

lemma score_range_ok:
  fixes lo hi :: "double \<times> bool"
  assumes "zset_ok zs"
  defines "z \<equiv> zsl zs"
  defines "ns \<equiv> zsl_nodes z"
  defines "R \<equiv> filter (\<lambda>a. in_range lo hi (zscore (znode_of z a))) ns"
  obtains (none) "R = []" "score_range z lo hi = None"
    | (some) as bs where "ns = as @ R @ bs" "R \<noteq> []" "score_range z lo hi = Some (hd R, last R, int (length R))"
proof -
  have ok: "zsl_ok z ns" using assms(1) by (simp add: zset_ok_def ns_def z_def)
  let ?P = "\<lambda>a. below_min (fst lo) (snd lo) (zscore (znode_of z a))"
  let ?Q = "\<lambda>a. below_max (fst hi) (snd hi) (zscore (znode_of z a))"
  obtain as ws where p: "ns = as @ ws" "\<forall>a\<in>set as. ?P a" "\<forall>a\<in>set ws. \<not> ?P a"
    by (rule zsl_score_cut [OF ok below_mono(1)])
  obtain us vs where q: "ns = us @ vs" "\<forall>a\<in>set us. ?Q a" "\<forall>a\<in>set vs. \<not> ?Q a"
    by (rule zsl_score_cut [OF ok below_mono(2)])
  have first: "zsl_first_in_score_range z (fst lo) (snd lo) = hd_opt ws"
    using zsl_first_in_score_range_ok [OF ok] find_split(1) [OF p(2,3)] p(1) by simp
  have fin: "zsl_last_in_score_range z (fst hi) (snd hi) = hd_opt (rev us)"
    using zsl_last_in_score_range_ok [OF ok] find_split(2) [OF q(2,3)] q(1) by simp
  note ends = score_range_ends [OF ok p(1) q(1) first fin]
  have R: "R = filter (\<lambda>a. \<not> ?P a \<and> ?Q a) ns" by (simp add: R_def in_range_def)
  show thesis
  proof (cases "length as < length us")
    case True
    then obtain mid where m: "us = as @ mid" "ws = mid @ vs" "mid \<noteq> []"
      using p(1) q(1) by (auto simp: append_eq_append_conv2)
    have "filter (\<lambda>a. \<not> ?P a \<and> ?Q a) as = []" "filter (\<lambda>a. \<not> ?P a \<and> ?Q a) vs = []"
      "filter (\<lambda>a. \<not> ?P a \<and> ?Q a) mid = mid"
      using p(2,3) q(2,3) m by (auto simp: filter_empty_conv filter_id_conv)
    then have Rm: "R = mid" using R p(1) m(2) by simp
    moreover have "ns ! length as = hd mid" "last us = last mid" using p(1) m by (simp_all add: nth_append hd_conv_nth)
    ultimately show thesis using some [of as vs] p(1) m ends by simp
  next
    case False
    then obtain mid where "as = us @ mid" using p(1) q(1) by (auto simp: append_eq_append_conv2)
    then have "R = []" using R p q by (auto simp: filter_empty_conv)
    then show thesis using none ends False by simp
  qed
qed

lemma skip_loop_ok:
  "zsl_ok z (as @ xs @ bs) \<Longrightarrow> xs \<noteq> [] \<Longrightarrow>
     skip_loop k z (last xs) (Some (hd xs)) = (if k < length xs then Some (xs ! k) else None)"
proof (induction k arbitrary: as xs)
  case 0
  then show ?case by (simp add: hd_conv_nth)
next
  case (Suc k)
  obtain a ys where xs: "xs = a # ys" using Suc.prems(2) by (cases xs) auto
  show ?case
  proof (cases ys)
    case Nil
    have "skip_loop k z a None = None" by (induction k) simp_all
    then show ?thesis using xs Nil by simp
  next
    case (Cons b zs)
    have "distinct (as @ xs @ bs)" using Suc.prems(1) by (simp add: zsl_ok_def)
    then have "a \<noteq> last ys" using xs Cons by (auto split: if_splits)
    moreover have "forward (level_of z a 0) = Some (hd ys)"
      using zsl_forward_ok [OF Suc.prems(1), of "zheader z # as" a "ys @ bs"] xs Cons by simp
    ultimately show ?thesis using Suc.IH [of "as @ [a]" ys] Suc.prems(1) xs Cons by simp
  qed
qed

lemma emit_loop_ok:
  "zsl_ok z (as @ xs @ bs) \<Longrightarrow> xs \<noteq> [] \<Longrightarrow> emit_loop k z (last xs) (Some (hd xs)) = take k xs"
proof (induction k arbitrary: as xs)
  case (Suc k)
  obtain a ys where xs: "xs = a # ys" using Suc.prems(2) by (cases xs) auto
  show ?case
  proof (cases ys)
    case (Cons b zs)
    have "distinct (as @ xs @ bs)" using Suc.prems(1) by (simp add: zsl_ok_def)
    then have "a \<noteq> last ys" using xs Cons by (auto split: if_splits)
    moreover have "forward (level_of z a 0) = Some (hd ys)"
      using zsl_forward_ok [OF Suc.prems(1), of "zheader z # as" a "ys @ bs"] xs Cons by simp
    ultimately show ?thesis using Suc.IH [of "as @ [a]" ys] Suc.prems(1) xs Cons by simp
  qed (simp add: xs)
qed simp

lemma emit_loop_None [simp]: "emit_loop k z fin None = []"
  by (cases k) simp_all

lemma zrbs_reply_ok:
  assumes "st_ok s" "zsl_ok z (as @ R @ bs)" "R \<noteq> []" "0 \<le> offset"
  shows "gives s (zrbs_reply ws offset limit z (Some (hd R, last R, int (length R))) s) (view s)
    (encode (window_reply ws offset limit (map (node_item z) R)))"
proof (cases "int (length R) < offset")
  case True
  then have "skip_loop (nat offset) z (last R) (Some (hd R)) = None"
    using skip_loop_ok [OF assms(2,3), of "nat offset"] by simp
  then show ?thesis
    using True assms
    by (simp add: zrbs_reply_def window_reply_def gives_def encode.simps emit_count_def to_size_t_def algebra_simps Let_def)
next
  case False
  define k where "k = nat offset"
  define n where "n = nat (if limit < 0 then int (length R) - offset else min limit (int (length R) - offset))"
  have k: "offset = int k" "k \<le> length R" using False assms(4) by (simp_all add: k_def)
  have emit: "emit_loop n z (last R) (skip_loop k z (last R) (Some (hd R))) = take n (drop k R)"
  proof (cases "k < length R")
    case True
    have "(as @ take k R) @ drop k R @ bs = as @ R @ bs" by (metis append_assoc append_take_drop_id)
    then have "emit_loop n z (last (drop k R)) (Some (hd (drop k R))) = take n (drop k R)"
      using emit_loop_ok [of z "as @ take k R" "drop k R" bs n] assms(2) True by (metis drop_eq_Nil not_le)
    then show ?thesis using True skip_loop_ok [OF assms(2,3), of k] by (simp add: hd_drop_conv_nth)
  qed (use skip_loop_ok [OF assms(2,3), of k] in simp)
  have n: "n \<le> length R - k" using k by (auto simp: n_def)
  have ys: "window_reply ws offset limit (map (node_item z) R) =
      items_reply ws (map (node_item z) (take n (drop k R)))"
    using k by (auto simp: window_reply_def n_def drop_map take_map Let_def min_def nat_diff_distrib')
  have "zrbs_reply ws offset limit z (Some (hd R, last R, int (length R))) s =
      reply_nodes ws z (take n (drop k R)) (reply_array_header (if ws then n * 2 else n) s)"
    using k emit by (auto simp: zrbs_reply_def n_def emit_count_def Let_def min_def)
  moreover have "gives s (reply_nodes ws z (take n (drop k R)) (reply_array_header (if ws then n * 2 else n) s))
      (view s) (encode (items_reply ws (map (node_item z) (take n (drop k R)))))"
    using n by (intro header_nodes_ok [OF assms(1)]) (simp only: items_length length_map length_take length_drop min.absorb2)
  ultimately show ?thesis unfolding ys by metis
qed

lemma score_reply_ok:
  assumes "st_ok s" "zset_ok zs" "0 \<le> offset"
  shows "gives s (zrbs_reply ws offset limit (zsl zs) (score_range (zsl zs) lo hi) s) (view s)
    (encode (window_reply ws offset limit (filter (in_range lo hi \<circ> snd) (zset_items zs))))"
proof -
  let ?R = "filter (\<lambda>a. in_range lo hi (zscore (znode_of (zsl zs) a))) (zsl_nodes (zsl zs))"
  have items: "filter (in_range lo hi \<circ> snd) (zset_items zs) = map (node_item (zsl zs)) ?R"
    by (simp add: zset_items_def filter_map comp_def node_item_def)
  have ok: "zsl_ok (zsl zs) (zsl_nodes (zsl zs))" using assms(2) by (simp add: zset_ok_def)
  show ?thesis
  proof (cases rule: score_range_ok [OF assms(2), of lo hi])
    case 1
    then show ?thesis
      unfolding items using assms(1) by (simp add: zrbs_reply_def window_reply_def items_reply_def gives_def encode_empty)
  next
    case (2 as bs)
    have "zsl_ok (zsl zs) (as @ ?R @ bs)" using ok 2(1) by (rule back_subst)
    from zrbs_reply_ok [OF assms(1) this 2(2) assms(3)] show ?thesis unfolding items 2(3) .
  qed
qed

lemma zrbs_opts_limit:
  "\<not> (args \<noteq> [] \<and> strcaseeq (args ! 0) ''WITHSCORES'') \<Longrightarrow> zrbs_opts args = map_sum id (Pair False) (limit_clause args)"
  "strcaseeq w ''WITHSCORES'' \<Longrightarrow> zrbs_opts (w # args) = map_sum id (Pair True) (limit_clause args)"
proof -
  have c: "(if args \<noteq> [] \<and> strcaseeq (args ! 0) ''LIMIT'' then
           if length args < 3 then Inl ''syntax error''
           else case (string_to_ll (args ! 1), string_to_ll (args ! 2)) of
             (Some offset, Some limit) \<Rightarrow>
               if offset < 0 \<or> limit < 0 then Inl ''LIMIT offset and count must be non-negative integers''
               else if length args \<noteq> 3 then Inl ''syntax error''
               else Inr (ws, offset, limit)
           | _ \<Rightarrow> Inl ''LIMIT offset and count must be non-negative integers''
         else if args \<noteq> [] then Inl ''syntax error''
         else Inr (ws, 0, - 1)) = map_sum id (Pair ws) (limit_clause args)" for ws
  proof (cases args rule: limit_clause.cases)
    case (4 w x y rest)
    then show ?thesis
      by (cases "string_to_ll x"; cases "string_to_ll y") (simp_all add: not_less)
  qed simp_all
  show "zrbs_opts args = map_sum id (Pair False) (limit_clause args)" if "\<not> (args \<noteq> [] \<and> strcaseeq (args ! 0) ''WITHSCORES'')"
    unfolding c [symmetric] zrbs_opts_def Let_def using that by (simp only: if_False simp_thms)
  show "zrbs_opts (w # args) = map_sum id (Pair True) (limit_clause args)" if "strcaseeq w ''WITHSCORES''"
    unfolding c [symmetric] zrbs_opts_def Let_def using that by (simp only: nth_Cons_0 list.distinct if_True simp_thms drop_Suc_Cons drop_0 One_nat_def)
qed

lemma zrbs_opts_window: "window_options args = zrbs_opts args"
proof (cases args)
  case Nil
  then show ?thesis using zrbs_opts_limit(1) [of "[]"] by simp
next
  case (Cons w rest)
  then show ?thesis
    using zrbs_opts_limit(1) [of "w # rest"] zrbs_opts_limit(2) [of w rest]
    by (cases "strcaseeq w ''WITHSCORES''") (simp_all only: window_options.simps if_True if_False nth_Cons_0 simp_thms list.distinct)
qed

lemma score_bound_arg: "score_bound arg = parse_score_arg arg"
proof (cases arg)
  case Nil
  then show ?thesis by (simp add: score_bound_def parse_score_arg_def parse_double_def)
qed (simp add: score_bound_def parse_score_arg_def)

lemmas spec_zcount_args = spec_zcount_def [unfolded score_bound_arg]

lemmas spec_zrangebyscore_opts = spec_zrangebyscore_def [unfolded zrbs_opts_window score_bound_arg]

lemma zrbs_opts_offset: "zrbs_opts args = Inr (ws, offset, limit) \<Longrightarrow> 0 \<le> offset"
  by (auto simp: zrbs_opts_def Let_def split: if_splits option.splits)

lemma allows_zrangebyscore: "allows cmd_zrangebyscore spec_zrangebyscore"
proof (rule allowsI, goal_cases)
  case (1 argv s)
  show ?case
  proof (cases "length argv < 4 \<or> parse_score_arg (argv ! 2) = None \<or> parse_score_arg (argv ! 3) = None \<or>
      (\<exists>m. zrbs_opts (drop 4 argv) = Inl m)")
    case True
    then show ?thesis
      using 1 by (auto simp: cmd_zrangebyscore_def spec_zrangebyscore_opts gives_def split: option.split sum.split)
  next
    case False
    then obtain lo hi where lh: "parse_score_arg (argv ! 2) = Some lo" "parse_score_arg (argv ! 3) = Some hi" by auto
    from False obtain ws offset limit where o: "zrbs_opts (drop 4 argv) = Inr (ws, offset, limit)"
      by (cases "zrbs_opts (drop 4 argv)") auto
    let ?k = "argv ! 1"
    have cmd: "cmd_zrangebyscore argv s =
       (case lookup_key ?k s of
          (None, s1) \<Rightarrow> reply_array_header 0 s1
        | (Some ob, s1) \<Rightarrow>
            (case as_zset (ptr ob) of
               None \<Rightarrow> reply_wrongtype s1
             | Some zs \<Rightarrow> zrbs_reply ws offset limit (zsl zs) (score_range (zsl zs) lo hi) s1))"
      using False lh o by (simp add: cmd_zrangebyscore_def)
    have spec: "spec_zrangebyscore argv (clock s) (view s) = (if \<not> zset_key (view s) ?k then {(wrongtype, view s)}
       else {(window_reply ws offset limit (filter (in_range lo hi \<circ> snd) xs), view s) | xs.
             in_order (zset_at (view s) ?k) xs})"
      using False lh o by (simp add: spec_zrangebyscore_opts)
    from 1 show ?thesis
    proof (cases rule: zset_cases [of s ?k])
      case (absent s1)
      have "gives s (cmd_zrangebyscore argv s) (view s) (encode (window_reply ws offset limit (filter (in_range lo hi \<circ> snd) [])))"
        using absent by (simp add: cmd gives_def window_reply_def items_reply_def encode_empty)
      moreover have "in_order (zset_at (view s) ?k) []" "zset_key (view s) ?k"
        using absent by (simp_all add: zset_at_def in_order_def zset_key_def)
      ultimately show ?thesis unfolding spec by force
    next
      case (present ob zs)
      let ?r = "window_reply ws offset limit (filter (in_range lo hi \<circ> snd) (zset_items zs))"
      have "zset_at (view s) ?k = zset_score zs" "zset_key (view s) ?k"
        using present by (simp_all add: zset_at_def zset_key_def)
      then have "(?r, view s) \<in> spec_zrangebyscore argv (clock s) (view s)"
        using zset_in_order [OF present(7)] unfolding spec by auto
      moreover have "cmd_zrangebyscore argv s = zrbs_reply ws offset limit (zsl zs) (score_range (zsl zs) lo hi) s"
        using present by (simp add: cmd)
      moreover have "gives s (zrbs_reply ws offset limit (zsl zs) (score_range (zsl zs) lo hi) s) (view s) (encode ?r)"
        by (rule score_reply_ok [OF present(2,7) zrbs_opts_offset [OF o]])
      ultimately show ?thesis by metis
    next
      case (other ob)
      then have "\<not> zset_key (view s) ?k" by (cases "ptr ob") (simp_all add: zset_key_def)
      moreover have "gives s (cmd_zrangebyscore argv s) (view s) (encode wrongtype)"
        using other by (simp add: cmd gives_def)
      ultimately show ?thesis unfolding spec by auto
    qed
  qed
qed

lemma in_order_count:
  assumes "in_order m xs"
  shows "card {k. \<exists>d. m k = Some d \<and> P d} = length (filter (P \<circ> snd) xs)"
proof -
  have d: "distinct (map fst xs)" "m = map_of xs" using assms by (simp_all add: in_order_def)
  have keys: "{k. \<exists>d. m k = Some d \<and> P d} = set (map fst (filter (P \<circ> snd) xs))" using d by force
  have "distinct (map fst (filter (P \<circ> snd) xs))" using d(1) by (simp add: distinct_map_filter)
  from distinct_card [OF this] show ?thesis unfolding keys by (simp only: length_map)
qed

lemma score_range_count:
  assumes "zset_ok zs"
  shows "(case score_range (zsl zs) lo hi of None \<Rightarrow> 0 | Some (first, fin, cnt) \<Rightarrow> cnt) =
    int (card {k. \<exists>d. zset_score zs k = Some d \<and> in_range lo hi d})"
proof -
  let ?R = "filter (\<lambda>a. in_range lo hi (zscore (znode_of (zsl zs) a))) (zsl_nodes (zsl zs))"
  have "length (filter (in_range lo hi \<circ> snd) (zset_items zs)) = length ?R"
    by (simp add: zset_items_def filter_map comp_def node_item_def)
  then show ?thesis
    using in_order_count [OF zset_in_order [OF assms], of "in_range lo hi"]
    by (cases rule: score_range_ok [OF assms, of lo hi]) simp_all
qed

lemma implements_zcount: "implements cmd_zcount spec_zcount"
proof (rule implementsI, goal_cases)
  case (1 argv s)
  show ?case
  proof (cases "length argv \<noteq> 4 \<or> parse_score_arg (argv ! 2) = None \<or> parse_score_arg (argv ! 3) = None")
    case True
    then show ?thesis using 1 by (auto simp: cmd_zcount_def spec_zcount_args split: option.split)
  next
    case False
    then obtain lo hi where lh: "parse_score_arg (argv ! 2) = Some lo" "parse_score_arg (argv ! 3) = Some hi" by auto
    from 1 show ?thesis
    proof (cases rule: zset_cases [of s "argv ! 1"])
      case (present ob zs)
      then show ?thesis using False lh score_range_count [OF present(7), of lo hi]
        by (auto simp: cmd_zcount_def spec_zcount_args split: option.splits)
    qed (use False lh in \<open>simp_all add: cmd_zcount_def spec_zcount_args\<close>)
  qed
qed

section \<open>Properties\<close>

text \<open>
  C19. Every sorted-set command does what its specification says on the map from members to scores:
  ranks and ranges are those of the members in the order of their scores, ties by member, whatever
  the levels the skip list has drawn, and every option and error branch is as specified.
\<close>

theorem zset_commands_correct:
  "implements cmd_zadd spec_zadd \<and> implements cmd_zcard spec_zcard \<and> implements cmd_zscore spec_zscore \<and>
   implements cmd_zrem spec_zrem \<and> implements cmd_zincrby spec_zincrby \<and> implements cmd_zcount spec_zcount \<and>
   implements cmd_zrank (spec_zrank False ''zrank'') \<and> implements cmd_zrevrank (spec_zrank True ''zrevrank'') \<and>
   allows cmd_zrange (spec_zrange False) \<and> allows cmd_zrevrange (spec_zrange True) \<and>
   allows cmd_zrangebyscore spec_zrangebyscore"
  by (simp add: implements_zadd implements_zcard implements_zscore implements_zrem implements_zincrby
      implements_zcount implements_zrank allows_zrange allows_zrangebyscore
      cmd_zrank_def cmd_zrevrank_def cmd_zrange_def cmd_zrevrange_def)

text \<open>
  C34. \<open>ZRANGEBYSCORE\<close> with a \<open>LIMIT\<close> whose offset lies beyond the elements of a range that is not
  empty breaks the protocol: the count becomes negative, and the reply announces an array of about
  \<open>2\<^sup>6\<^sup>4\<close> elements and holds none.
\<close>

theorem zrangebyscore_offset_breaks_reply:
  assumes "st_ok s" "view s key = Some (AZset m, e)"
    and "parse_score_arg lo_arg = Some lo" "parse_score_arg hi_arg = Some hi"
    and "strcaseeq limit ''LIMIT''" "string_to_ll off = Some offset" "string_to_ll cnt = Some c" "0 \<le> c"
    and "n = card {k. \<exists>d. m k = Some d \<and> in_range lo hi d}" "0 < n" "int n < offset" "offset < 2 ^ 63"
  shows "outb (cmd_zrangebyscore [name, key, lo_arg, hi_arg, limit, off, cnt] s) =
    outb s @ CHR ''*'' # show_nat (2 ^ 64 + n - nat offset) @ crlf"
proof -
  let ?argv = "[name, key, lo_arg, hi_arg, limit, off, cnt]"
  have "\<not> strcaseeq limit ''WITHSCORES''" using assms(5) by (auto simp: strcaseeq_def dest: list_all2_lengthD)
  then have opts: "zrbs_opts (drop 4 ?argv) = Inr (False, offset, c)"
    using assms by (simp add: zrbs_opts_def)
  have "\<exists>(r, v)\<in>spec_zrangebyscore ?argv (clock s) (view s). gives s (cmd_zrangebyscore ?argv s) v (encode r)"
    using allows_zrangebyscore assms(1) unfolding allows_def by blast
  then obtain xs where xs: "in_order m xs"
    "gives s (cmd_zrangebyscore ?argv s) (view s)
       (encode (window_reply False offset c (filter (in_range lo hi \<circ> snd) xs)))"
    using opts assms(2-4) by (auto simp: spec_zrangebyscore_opts zset_key_def zset_at_def numeral_2_eq_2 numeral_3_eq_3)
  let ?ys = "filter (in_range lo hi \<circ> snd) xs"
  have "length ?ys = n" using in_order_count [OF xs(1)] assms(9) by simp
  moreover have "to_size_t (int n - offset) = 2 ^ 64 + n - nat offset"
  proof -
    have "(int n - offset) mod 2 ^ 64 = int n - offset + 2 ^ 64"
      using mod_add_self2 [of "int n - offset" "2 ^ 64"] mod_pos_pos_trivial [of "int n - offset + 2 ^ 64" "2 ^ 64"]
        assms(10-12) by simp
    then show ?thesis using assms(10-12) by (simp add: to_size_t_def)
  qed
  moreover have "?ys \<noteq> []" using calculation(1) assms(10) by auto
  ultimately show ?thesis
    using xs(2) assms(10,11) by (simp add: gives_def window_reply_def to_size_t_def encode.simps)
qed

definition demo_zset_st :: st where
  "demo_zset_st = cmd_zadd [''ZADD'', ''z'', ''inf'', ''a''] demo_st"

lemma demo_zset_st_facts:
  "st_ok demo_zset_st" "view demo_zset_st = [''z'' \<mapsto> (AZset [''a'' \<mapsto> d_make False d_inf_mag], - 1)]"
proof -
  have "zadd_opts [''inf'', ''a''] \<lparr>nx = False, xx = False, ch = False, incr = False\<rparr> =
      (\<lparr>nx = False, xx = False, ch = False, incr = False\<rparr>, [''inf'', ''a''])"
    by code_simp
  then have "spec_zadd [''ZADD'', ''z'', ''inf'', ''a''] (clock demo_st) (view demo_st) =
      (RInt 1, [''z'' \<mapsto> (AZset [''a'' \<mapsto> d_make False d_inf_mag], - 1)])"
    by (simp add: spec_zadd_opts on_zset_def parse_double_inf zadd_end_reply_def zadd_map_def)
  from implementsD [OF implements_zadd demo_st_ok(1) this]
  show "st_ok demo_zset_st" "view demo_zset_st = [''z'' \<mapsto> (AZset [''a'' \<mapsto> d_make False d_inf_mag], - 1)]"
    by (simp_all add: demo_zset_st_def gives_def fun_upd_def)
qed

theorem zrangebyscore_offset_breaks_reply_witness:
  "outb (cmd_zrangebyscore [''ZRANGEBYSCORE'', ''z'', ''-inf'', ''inf'', ''LIMIT'', ''5'', ''10''] demo_zset_st) =
   outb demo_zset_st @ ''*18446744073709551612'' @ crlf"
proof -
  let ?lo = "(d_make True d_inf_mag, False)" and ?hi = "(d_make False d_inf_mag, False)"
  let ?m = "[''a'' \<mapsto> d_make False d_inf_mag]"
  have args: "parse_score_arg ''-inf'' = Some ?lo" "parse_score_arg ''inf'' = Some ?hi"
    by (simp_all add: parse_score_arg_def parse_double_inf)
  have "in_range ?lo ?hi (d_make False d_inf_mag)"
    by (simp add: in_range_def below_min_def below_max_def d_less_def d_eq_def d_ord_def d_inf_mag_def [symmetric])
  then have "{k. \<exists>d. ?m k = Some d \<and> in_range ?lo ?hi d} = {''a''}" by auto
  then have card: "1 = card {k. \<exists>d. ?m k = Some d \<and> in_range ?lo ?hi d}" by simp
  have ll: "strcaseeq ''LIMIT'' ''LIMIT''" "string_to_ll ''5'' = Some 5" "string_to_ll ''10'' = Some 10" by code_simp+
  have "show_nat 18446744073709551612 = ''18446744073709551612''" by (simp add: show_nat.simps digit_char_def char_of_def bit_0)
  moreover have v: "view demo_zset_st ''z'' = Some (AZset ?m, - 1)" by (simp add: demo_zset_st_facts(2))
  ultimately show ?thesis
    using zrangebyscore_offset_breaks_reply [OF demo_zset_st_facts(1) v args ll _ card] by simp
qed

end
