(* ===== verification/Db_Expire.thy ===== *)
theory Db_Expire
  imports Db
begin

text \<open>
  Active expiration: \<open>db_expire_cycle\<close> of \<open>src/db.c\<close>, which the event loop calls about ten times
  a second. It walks the buckets of the keyspace from a cursor, deletes the keys whose time has
  come, and stops after a bounded number of entries. The cycle changes no key that a client can
  read, and calling it often enough removes every expired key; the commands that count stored keys
  (\<open>DBSIZE\<close>, \<open>INFO\<close>, \<open>DEL\<close>) do notice it.
\<close>

section \<open>The cycle\<close>

definition EXPIRE_CYCLE_MAX_KEYS :: nat where "EXPIRE_CYCLE_MAX_KEYS = 200"

text \<open>The inner loop: the entries of one chain, as it was when the loop reached it.\<close>

fun expire_chain :: "int \<Rightarrow> robj dict_entry list \<Rightarrow> robj dict \<Rightarrow> robj dict" where
  "expire_chain now [] d = d"
| "expire_chain now (e # es) d =
     expire_chain now es (if key_expired now (evalue e) then snd (dict_delete d (ekey e)) else d)"

text \<open>
  The outer loop, with the number of entries it has examined. The cursor goes up in every round,
  so \<open>d->size\<close> rounds are enough fuel (\<open>expire_loop_stops\<close>).
\<close>

fun expire_loop :: "nat \<Rightarrow> nat \<Rightarrow> st \<Rightarrow> nat \<times> st" where
  "expire_loop 0 examined s = (examined, s)"
| "expire_loop (Suc fuel) examined s =
     (if examined < EXPIRE_CYCLE_MAX_KEYS \<and> expire_cursor s < dsize (store s) then
        let b = expire_cursor s; es = dtable (store s) ! b
        in expire_loop fuel (examined + length es)
             (s\<lparr>expire_cursor := b + 1, store := expire_chain (clock s) es (store s)\<rparr>)
      else (examined, s))"

definition reset_cursor :: "st \<Rightarrow> st" where
  "reset_cursor s = (if expire_cursor s \<ge> dsize (store s) then s\<lparr>expire_cursor := 0\<rparr> else s)"

definition db_expire_cycle :: "st \<Rightarrow> st" where
  "db_expire_cycle s =
     (if dsize (store s) = 0 then s\<lparr>expire_cursor := 0\<rparr>
      else reset_cursor (snd (expire_loop (dsize (store s)) 0 (reset_cursor s))))"

text \<open>The cycles the event loop runs at the times \<open>ts\<close>.\<close>

definition expire_cycles :: "int list \<Rightarrow> st \<Rightarrow> st" where
  "expire_cycles ts s = fold (\<lambda>t s. db_expire_cycle (s\<lparr>clock := t\<rparr>)) ts s"

section \<open>One chain\<close>

lemma dict_delete_shape [simp]:
  "dsize (snd (dict_delete d k)) = dsize d" "dseed (snd (dict_delete d k)) = dseed d"
  by (simp_all add: dict_delete_def Let_def split: option.split prod.split)

lemma expire_chain_ok:
  assumes "dict_ok d"
  shows "dict_ok (expire_chain now es d)"
    and "dsize (expire_chain now es d) = dsize d" "dseed (expire_chain now es d) = dseed d"
    and "dict_get (expire_chain now es d) k =
      (if \<exists>e\<in>set es. ekey e = k \<and> key_expired now (evalue e) then None else dict_get d k)"
  using assms by (induction es arbitrary: d) (auto simp: dict_delete_eqs)

lemma dict_bucket_entry:
  assumes "dict_ok d" "dict_get d k = Some ob"
  shows "\<exists>e\<in>set (dtable d ! key_bucket (dseed d) (dsize d) k). ekey e = k \<and> evalue e = ob"
    and "key_bucket (dseed d) (dsize d) k < dsize d"
proof -
  have t: "table_ok (dseed d) (dsize d) (dtable d)" using assms(1) by (simp add: dict_ok_def)
  have "dsize d \<noteq> 0" using assms by (auto simp: dict_get_def split: if_splits)
  then show i: "key_bucket (dseed d) (dsize d) k < dsize d" using assms(1) dict_ok_bucket by blast
  have "map_of (map pair_of (dtable d ! key_bucket (dseed d) (dsize d) k)) k = Some ob"
    using assms(2) table_map_of [OF t refl i] dict_get_correct [OF assms(1)]
    by (simp add: dict_map_def dict_pairs_def)
  then show "\<exists>e\<in>set (dtable d ! key_bucket (dseed d) (dsize d) k). ekey e = k \<and> evalue e = ob"
    by (auto simp: pair_of_def dest!: map_of_SomeD)
qed

lemma dict_entry_bucket:
  assumes "dict_ok d" "i < dsize d" "e \<in> set (dtable d ! i)"
  shows "dict_get d (ekey e) = Some (evalue e)"
proof -
  have "length (dtable d) = dsize d" using assms(1) by (simp add: dict_ok_def table_ok_def)
  then have "e \<in> set (concat (dtable d))" using assms(2,3) set_concat_nth by metis
  then have "pair_of e \<in> set (dict_pairs d)" unfolding dict_pairs_def set_map by (rule imageI)
  then show ?thesis using assms(1) by (simp add: pair_of_def ds.pairs_iff)
qed

text \<open>After the round of bucket \<open>b\<close>: exactly the expired keys of that bucket are gone.\<close>

lemma expire_bucket_get:
  assumes "dict_ok d" "b < dsize d"
  shows "dict_get (expire_chain now (dtable d ! b) d) k =
    (case dict_get d k of
       Some ob \<Rightarrow> if key_bucket (dseed d) (dsize d) k = b \<and> key_expired now ob then None else Some ob
     | None \<Rightarrow> None)"
proof -
  let ?b = "key_bucket (dseed d) (dsize d) k"
  have t: "table_ok (dseed d) (dsize d) (dtable d)" using assms(1) by (simp add: dict_ok_def)
  have "(\<exists>e\<in>set (dtable d ! b). ekey e = k \<and> key_expired now (evalue e)) \<longleftrightarrow>
    (\<exists>ob. dict_get d k = Some ob \<and> ?b = b \<and> key_expired now ob)" (is "?l \<longleftrightarrow> ?r")
  proof
    assume ?l
    then show ?r using dict_entry_bucket [OF assms] table_ok_bucket [OF t assms(2)] by blast
  next
    assume ?r
    then show ?l using dict_bucket_entry(1) [OF assms(1), of k] by blast
  qed
  then show ?thesis using expire_chain_ok(4) [OF assms(1)] by (auto split: option.split)
qed

section \<open>The cycle and the view\<close>

lemma expire_bucket_view:
  assumes "dict_ok d" "b < dsize d"
  shows "view_of now (expire_chain now (dtable d ! b) d) = view_of now d"
  by (auto simp: fun_eq_iff view_of_def expire_bucket_get [OF assms] split: option.split)

text \<open>
  What a cycle may do: move the cursor and delete keys, without a change of the view.
\<close>

definition quiet :: "st \<Rightarrow> st \<Rightarrow> bool" where
  "quiet s s' =
     (st_ok s' \<and> view s' = view s \<and> (\<exists>c d. s' = s\<lparr>expire_cursor := c, store := d\<rparr>) \<and>
      dsize (store s') = dsize (store s) \<and> dseed (store s') = dseed (store s) \<and>
      dict_get (store s') \<subseteq>\<^sub>m dict_get (store s))"

lemma quiet_refl: "st_ok s \<Longrightarrow> quiet s s"
  unfolding quiet_def by (intro conjI exI [of _ "expire_cursor s"] exI [of _ "store s"]) simp_all

lemma quiet_trans: "quiet s s1 \<Longrightarrow> quiet s1 s2 \<Longrightarrow> quiet s s2"
  unfolding quiet_def by (elim conjE exE, intro conjI) (auto intro: map_le_trans)

lemma cursor_store_swap: "s\<lparr>store := d, expire_cursor := c\<rparr> = s\<lparr>expire_cursor := c, store := d\<rparr>"
  by (cases s) simp

lemma quiet_cursor: "quiet s s' \<Longrightarrow> quiet s (s'\<lparr>expire_cursor := c\<rparr>)"
  unfolding quiet_def by (elim conjE exE, intro conjI) (auto simp: st_ok_def view_def cursor_store_swap)

lemma quiet_reset: "quiet s s' \<Longrightarrow> quiet s (reset_cursor s')"
  by (simp add: reset_cursor_def quiet_cursor)

lemma quiet_fields: "quiet s s' \<Longrightarrow> clock s' = clock s \<and> outb s' = outb s \<and> closing s' = closing s"
  by (auto simp: quiet_def outb_def)

lemma quiet_round:
  assumes "st_ok s" "b < dsize (store s)"
  shows "quiet s (s\<lparr>expire_cursor := c, store := expire_chain (clock s) (dtable (store s) ! b) (store s)\<rparr>)"
proof -
  note ok = st_ok_store [OF assms(1)]
  have sub: "dict_get (expire_chain (clock s) (dtable (store s) ! b) (store s)) \<subseteq>\<^sub>m dict_get (store s)"
    by (auto simp: map_le_def expire_chain_ok(4) [OF ok] split: if_splits)
  then have "payload_ok (ptr ob)"
    if "dict_get (expire_chain (clock s) (dtable (store s) ! b) (store s)) k = Some ob" for k ob
    using that assms(1) by (metis domI map_le_def st_ok_def)
  then show ?thesis
    using assms sub expire_bucket_view [OF ok assms(2)] expire_chain_ok [OF ok]
    by (auto simp: quiet_def st_ok_def view_def)
qed

section \<open>Sweeping the table\<close>

text \<open>\<open>swept T b d\<close>: no key of a bucket of \<open>b\<close> is left that had expired by the time \<open>T\<close>.\<close>

definition swept :: "int \<Rightarrow> nat set \<Rightarrow> robj dict \<Rightarrow> bool" where
  "swept T B d =
     (\<forall>k ob. dict_get d k = Some ob \<longrightarrow> key_bucket (dseed d) (dsize d) k \<in> B \<longrightarrow> \<not> key_expired T ob)"

lemma key_expired_later: "key_expired T ob \<Longrightarrow> T \<le> now \<Longrightarrow> key_expired now ob"
  by (simp add: key_expired_def)

lemma swept_quiet: "quiet s s' \<Longrightarrow> swept T B (store s) \<Longrightarrow> swept T B (store s')"
  unfolding quiet_def swept_def map_le_def by (metis domI)

lemma swept_Un: "swept T (A \<union> B) d \<longleftrightarrow> swept T A d \<and> swept T B d"
  by (auto simp: swept_def)

lemma swept_round:
  assumes "dict_ok d" "b < dsize d" "T \<le> now"
  shows "swept T {b} (expire_chain now (dtable d ! b) d)"
  using assms(3) unfolding swept_def expire_bucket_get [OF assms(1,2)] expire_chain_ok(2,3) [OF assms(1)]
  by (auto split: option.splits if_splits dest: key_expired_later)

lemma expire_loop_ok:
  assumes "st_ok s" "T \<le> clock s" "expire_cursor s \<le> dsize (store s)" "expire_loop n x s = (x', s')"
  shows "quiet s s' \<and> expire_cursor s \<le> expire_cursor s' \<and> expire_cursor s' \<le> dsize (store s) \<and>
    swept T {expire_cursor s ..< expire_cursor s'} (store s')"
  using assms
proof (induction n arbitrary: x s)
  case 0
  then show ?case by (simp add: quiet_refl swept_def)
next
  case (Suc n)
  let ?c = "expire_cursor s"
  let ?s = "s\<lparr>expire_cursor := ?c + 1, store := expire_chain (clock s) (dtable (store s) ! ?c) (store s)\<rparr>"
  show ?case
  proof (cases "x < EXPIRE_CYCLE_MAX_KEYS \<and> ?c < dsize (store s)")
    case True
    then have q: "quiet s ?s" using Suc.prems by (intro quiet_round) simp_all
    have "swept T {?c} (store ?s)"
      using True Suc.prems by (simp add: swept_round st_ok_store)
    moreover have r: "quiet ?s s'" "Suc ?c \<le> expire_cursor s'" "expire_cursor s' \<le> dsize (store s)"
      "swept T {Suc ?c ..< expire_cursor s'} (store s')"
      using Suc.IH [of ?s] q True Suc.prems unfolding quiet_def by (auto simp: Let_def)
    ultimately have "swept T ({?c} \<union> {Suc ?c ..< expire_cursor s'}) (store s')"
      using swept_quiet swept_Un by blast
    moreover have "{?c} \<union> {Suc ?c ..< expire_cursor s'} = {?c ..< expire_cursor s'}" using r(2) by auto
    ultimately show ?thesis using r quiet_trans [OF q r(1)] by simp
  next
    case False
    then show ?thesis using Suc.prems by (auto simp: quiet_refl swept_def)
  qed
qed

text \<open>
  The loop stops because its condition fails: with as much fuel as there are buckets ahead of the
  cursor, more fuel changes nothing.
\<close>

lemma expire_loop_stops:
  assumes "st_ok s" "expire_cursor s \<le> dsize (store s)" "dsize (store s) - expire_cursor s \<le> n"
  shows "expire_loop (n + m) x s = expire_loop n x s \<and>
    (EXPIRE_CYCLE_MAX_KEYS \<le> fst (expire_loop n x s) \<or>
     expire_cursor (snd (expire_loop n x s)) = dsize (store s))"
  using assms
proof (induction n arbitrary: x s)
  case 0
  then show ?case by (cases m) auto
next
  case (Suc n)
  let ?c = "expire_cursor s"
  let ?s = "s\<lparr>expire_cursor := ?c + 1, store := expire_chain (clock s) (dtable (store s) ! ?c) (store s)\<rparr>"
  show ?case
  proof (cases "x < EXPIRE_CYCLE_MAX_KEYS \<and> ?c < dsize (store s)")
    case True
    then have q: "quiet s ?s" using Suc.prems by (intro quiet_round) simp_all
    then show ?thesis using Suc.IH [of ?s] True Suc.prems unfolding quiet_def by (auto simp: Let_def)
  qed (use Suc.prems in auto)
qed

lemma reset_cursor_less: "dsize (store s) \<noteq> 0 \<Longrightarrow> expire_cursor (reset_cursor s) < dsize (store s)"
  by (simp add: reset_cursor_def)

lemma reset_cursor_fields [simp]:
  "store (reset_cursor s) = store s" "clock (reset_cursor s) = clock s"
  by (simp_all add: reset_cursor_def)

lemma cycle_ok:
  assumes "st_ok s" "T \<le> clock s"
  shows "quiet s (db_expire_cycle s)"
    and "dsize (store s) \<noteq> 0 \<Longrightarrow> \<exists>c. expire_cursor (reset_cursor s) < c \<and> c \<le> dsize (store s) \<and>
      swept T {expire_cursor (reset_cursor s) ..< c} (store (db_expire_cycle s)) \<and>
      expire_cursor (db_expire_cycle s) = (if c = dsize (store s) then 0 else c)"
proof -
  obtain x s2 where l: "expire_loop (dsize (store s)) 0 (reset_cursor s) = (x, s2)" by fastforce
  have ok: "st_ok (reset_cursor s)" and q0: "quiet s (reset_cursor s)"
    using assms quiet_reset [OF quiet_refl [OF assms(1)]] by (auto simp: quiet_def)
  show "quiet s (db_expire_cycle s)"
  proof (cases "dsize (store s) = 0")
    case True
    then show ?thesis using quiet_cursor [OF quiet_refl [OF assms(1)]] by (simp add: db_expire_cycle_def)
  next
    case False
    then show ?thesis
      using quiet_reset quiet_trans [OF q0] expire_loop_ok [OF ok _ _ l, of T] assms(2) reset_cursor_less [OF False]
      by (simp add: db_expire_cycle_def l)
  qed
  assume ne: "dsize (store s) \<noteq> 0"
  let ?c = "expire_cursor (reset_cursor s)"
  have r: "quiet (reset_cursor s) s2" "?c \<le> expire_cursor s2" "expire_cursor s2 \<le> dsize (store s)"
    "swept T {?c ..< expire_cursor s2} (store s2)"
    using expire_loop_ok [OF ok _ _ l, of T] assms(2) reset_cursor_less [OF ne] by auto
  have "?c \<noteq> expire_cursor s2"
  proof -
    obtain n where n: "dsize (store s) = Suc n" using ne by (cases "dsize (store s)") auto
    show ?thesis
      using l reset_cursor_less [OF ne] expire_loop_ok [of "(reset_cursor s)\<lparr>expire_cursor := ?c + 1,
        store := expire_chain (clock s) (dtable (store s) ! ?c) (store s)\<rparr>" T n _ x s2]
        quiet_round [OF ok, of ?c "?c + 1"] assms(2)
      by (auto simp: n Let_def EXPIRE_CYCLE_MAX_KEYS_def quiet_def)
  qed
  moreover have "db_expire_cycle s = reset_cursor s2" using ne by (simp add: db_expire_cycle_def l)
  moreover have "dsize (store s2) = dsize (store s)" using r(1) by (simp add: quiet_def)
  then have "expire_cursor (reset_cursor s2) = (if expire_cursor s2 = dsize (store s) then 0 else expire_cursor s2)"
    using r(3) by (simp add: reset_cursor_def)
  ultimately show "\<exists>c. ?c < c \<and> c \<le> dsize (store s) \<and> swept T {?c ..< c} (store (db_expire_cycle s)) \<and>
      expire_cursor (db_expire_cycle s) = (if c = dsize (store s) then 0 else c)"
    using r by (intro exI [of _ "expire_cursor s2"]) auto
qed

section \<open>Repeated cycles\<close>

lemma expire_cycles_Cons: "expire_cycles (t # ts) s = expire_cycles ts (db_expire_cycle (s\<lparr>clock := t\<rparr>))"
  by (simp add: expire_cycles_def)

lemma cycle_at_ok:
  assumes "st_ok s"
  shows "st_ok (db_expire_cycle (s\<lparr>clock := t\<rparr>))" "dsize (store (db_expire_cycle (s\<lparr>clock := t\<rparr>))) = dsize (store s)"
    "swept T B (store s) \<Longrightarrow> swept T B (store (db_expire_cycle (s\<lparr>clock := t\<rparr>)))"
proof -
  have ok: "st_ok (s\<lparr>clock := t\<rparr>)" using assms by (simp add: st_ok_def)
  have q: "quiet (s\<lparr>clock := t\<rparr>) (db_expire_cycle (s\<lparr>clock := t\<rparr>))" using cycle_ok(1) [OF ok order.refl] .
  then show "st_ok (db_expire_cycle (s\<lparr>clock := t\<rparr>))" "dsize (store (db_expire_cycle (s\<lparr>clock := t\<rparr>))) = dsize (store s)"
    by (auto simp: quiet_def)
  show "swept T B (store s) \<Longrightarrow> swept T B (store (db_expire_cycle (s\<lparr>clock := t\<rparr>)))"
    using swept_quiet [OF q] by simp
qed

lemma expire_cycles_keep: "st_ok s \<Longrightarrow> swept T B (store s) \<Longrightarrow> swept T B (store (expire_cycles ts s))"
  by (induction ts arbitrary: s) (auto simp: expire_cycles_Cons cycle_at_ok, simp add: expire_cycles_def)

lemma cycle_at_progress:
  assumes "st_ok s" "T \<le> t" "expire_cursor s < dsize (store s)"
  obtains c where "expire_cursor s < c" "c \<le> dsize (store s)"
    "swept T {expire_cursor s ..< c} (store (db_expire_cycle (s\<lparr>clock := t\<rparr>)))"
    "expire_cursor (db_expire_cycle (s\<lparr>clock := t\<rparr>)) = (if c = dsize (store s) then 0 else c)"
proof -
  have ok: "st_ok (s\<lparr>clock := t\<rparr>)" using assms(1) by (simp add: st_ok_def)
  have "expire_cursor (reset_cursor (s\<lparr>clock := t\<rparr>)) = expire_cursor s" using assms(3) by (simp add: reset_cursor_def)
  then show thesis using cycle_ok(2) [OF ok, of T] assms that by auto
qed

lemma sweep_rest:
  assumes "st_ok s" "\<forall>t\<in>set ts. T \<le> t" "expire_cursor s < dsize (store s)"
    and "dsize (store s) - expire_cursor s \<le> length ts"
  shows "swept T {expire_cursor s ..< dsize (store s)} (store (expire_cycles ts s))"
  using assms
proof (induction ts arbitrary: s)
  case (Cons t ts)
  let ?s = "db_expire_cycle (s\<lparr>clock := t\<rparr>)"
  obtain c where c: "expire_cursor s < c" "c \<le> dsize (store s)"
    "swept T {expire_cursor s ..< c} (store ?s)" "expire_cursor ?s = (if c = dsize (store s) then 0 else c)"
    using Cons.prems cycle_at_progress [of s T t] by auto
  have k: "swept T {expire_cursor s ..< c} (store (expire_cycles ts ?s))"
    using Cons.prems(1) c(3) cycle_at_ok(1) expire_cycles_keep by blast
  show ?case
  proof (cases "c = dsize (store s)")
    case False
    then have "swept T {c ..< dsize (store s)} (store (expire_cycles ts ?s))"
      using Cons.IH [of ?s] Cons.prems c cycle_at_ok [OF Cons.prems(1), of t] by auto
    then have "swept T ({expire_cursor s ..< c} \<union> {c ..< dsize (store s)}) (store (expire_cycles ts ?s))"
      using k swept_Un by blast
    then show ?thesis using c by (simp add: expire_cycles_Cons ivl_disj_un_two(3))
  qed (use k in \<open>simp add: expire_cycles_Cons\<close>)
qed simp

lemma sweep_all:
  assumes "st_ok s" "\<forall>t\<in>set ts. T \<le> t" "expire_cursor s < dsize (store s)"
    and "2 * dsize (store s) - expire_cursor s \<le> length ts"
  shows "swept T {0 ..< dsize (store s)} (store (expire_cycles ts s))"
  using assms
proof (induction ts arbitrary: s)
  case (Cons t ts)
  let ?s = "db_expire_cycle (s\<lparr>clock := t\<rparr>)"
  obtain c where c: "expire_cursor s < c" "c \<le> dsize (store s)"
    "expire_cursor ?s = (if c = dsize (store s) then 0 else c)"
    using Cons.prems cycle_at_progress [of s T t] by auto
  note ok = cycle_at_ok [OF Cons.prems(1), of t]
  show ?case
  proof (cases "c = dsize (store s)")
    case True
    then show ?thesis
      using sweep_rest [of ?s ts T] Cons.prems c ok by (auto simp: expire_cycles_Cons)
  next
    case False
    then show ?thesis using Cons.IH [of ?s] Cons.prems c ok by (auto simp: expire_cycles_Cons)
  qed
qed simp

lemma cycle_at_less:
  assumes "st_ok s"
  shows "dict_get (store (db_expire_cycle (s\<lparr>clock := t\<rparr>))) \<subseteq>\<^sub>m dict_get (store s)"
    and "dict_get (store s) k = Some ob \<Longrightarrow> \<not> key_expired t ob \<Longrightarrow>
      dict_get (store (db_expire_cycle (s\<lparr>clock := t\<rparr>))) k = Some ob"
proof -
  let ?s = "s\<lparr>clock := t\<rparr>"
  have ok: "st_ok ?s" using assms by (simp add: st_ok_def)
  have q: "quiet ?s (db_expire_cycle ?s)" using cycle_ok(1) [OF ok order.refl] .
  then show sub: "dict_get (store (db_expire_cycle ?s)) \<subseteq>\<^sub>m dict_get (store s)" by (simp add: quiet_def)
  assume "dict_get (store s) k = Some ob" "\<not> key_expired t ob"
  then have "view ?s k = Some (aobj ob)" by (simp add: view_at)
  then have "view (db_expire_cycle ?s) k \<noteq> None" using q by (simp add: quiet_def)
  then obtain ob' where "dict_get (store (db_expire_cycle ?s)) k = Some ob'"
    by (auto simp: view_at split: option.splits)
  then show "dict_get (store (db_expire_cycle ?s)) k = Some ob"
    using sub \<open>dict_get (store s) k = Some ob\<close> by (metis domI map_le_def)
qed

lemma expire_cycles_sub: "st_ok s \<Longrightarrow> dict_get (store (expire_cycles ts s)) \<subseteq>\<^sub>m dict_get (store s)"
proof (induction ts arbitrary: s)
  case (Cons t ts)
  then show ?case
    unfolding expire_cycles_Cons by (blast intro: map_le_trans cycle_at_less(1) cycle_at_ok(1))
qed (simp add: expire_cycles_def)

lemma expire_cycles_live:
  "st_ok s \<Longrightarrow> \<forall>t\<in>set ts. t \<le> U \<Longrightarrow> dict_get (store s) k = Some ob \<Longrightarrow> \<not> key_expired U ob \<Longrightarrow>
     dict_get (store (expire_cycles ts s)) k = Some ob"
proof (induction ts arbitrary: s)
  case (Cons t ts)
  then have "\<not> key_expired t ob" using key_expired_later by auto
  then show ?case
    using Cons.IH [OF cycle_at_ok(1)] cycle_at_less(2) Cons.prems by (simp add: expire_cycles_Cons)
qed (simp add: expire_cycles_def)

lemma expire_cycles_shape:
  "st_ok s \<Longrightarrow> dsize (store (expire_cycles ts s)) = dsize (store s) \<and>
     dseed (store (expire_cycles ts s)) = dseed (store s)"
proof (induction ts arbitrary: s)
  case (Cons t ts)
  have "st_ok (s\<lparr>clock := t\<rparr>)" using Cons.prems by (simp add: st_ok_def)
  from cycle_ok(1) [OF this order.refl] show ?case
    using Cons.IH by (auto simp: expire_cycles_Cons quiet_def)
qed (simp add: expire_cycles_def)

lemma expire_cycles_reset:
  assumes "ts \<noteq> []" "dsize (store s) \<noteq> 0"
  shows "expire_cycles ts (reset_cursor s) = expire_cycles ts s"
proof -
  have "reset_cursor ((reset_cursor s)\<lparr>clock := t\<rparr>) = reset_cursor (s\<lparr>clock := t\<rparr>)" for t
    by (cases s) (simp add: reset_cursor_def)
  then have "db_expire_cycle ((reset_cursor s)\<lparr>clock := t\<rparr>) = db_expire_cycle (s\<lparr>clock := t\<rparr>)" for t
    using assms(2) by (simp only: db_expire_cycle_def) (simp add: reset_cursor_def)
  then show ?thesis using assms(1) by (cases ts) (simp_all add: expire_cycles_Cons)
qed

section \<open>Properties\<close>

text \<open>
  C20. A cycle of active expiration touches no key that is alive: the keyspace stays well formed,
  every key that has not expired keeps its value and its time to live, no key appears, nothing is
  written to the client, and what is stored afterwards was stored before, so that \<open>DBSIZE\<close>, which
  counts expired keys that are still stored, can only fall.
\<close>

theorem expire_cycle_keeps_keys:
  assumes "st_ok s"
  shows "st_ok (db_expire_cycle s) \<and> view (db_expire_cycle s) = view s \<and>
    outb (db_expire_cycle s) = outb s \<and> clock (db_expire_cycle s) = clock s \<and>
    dict_get (store (db_expire_cycle s)) \<subseteq>\<^sub>m dict_get (store s) \<and> db_size (db_expire_cycle s) \<le> db_size s"
proof -
  have q: "quiet s (db_expire_cycle s)" by (rule cycle_ok(1) [OF assms order.refl])
  then have m: "st_ok (db_expire_cycle s)" "dict_get (store (db_expire_cycle s)) \<subseteq>\<^sub>m dict_get (store s)"
    unfolding quiet_def by blast+
  then have "card (dom (dict_get (store (db_expire_cycle s)))) \<le> card (dom (dict_get (store s)))"
    using ds.finite_dom [of "store s"] assms by (auto simp: st_ok_def intro!: card_mono map_le_implies_dom_le)
  then have "db_size (db_expire_cycle s) \<le> db_size s"
    using ds.count_card [of "store s"] ds.count_card [of "store (db_expire_cycle s)"] m(1) assms
    by (simp add: st_ok_def db_size_def)
  then show ?thesis using q m quiet_fields [OF q] unfolding quiet_def by blast
qed

text \<open>
  C22. The cycle terminates by itself: as many rounds as there are buckets are enough for the loop
  to stop on its own condition, with the budget of entries used up or the table walked to its end,
  and any more rounds would change nothing.
\<close>

theorem expire_cycle_terminates:
  assumes "st_ok s" "dsize (store s) \<noteq> 0" "expire_loop (dsize (store s)) 0 (reset_cursor s) = (x, s')"
  shows "expire_loop (dsize (store s) + extra) 0 (reset_cursor s) = (x, s') \<and>
    (EXPIRE_CYCLE_MAX_KEYS \<le> x \<or> expire_cursor s' = dsize (store s))"
proof -
  have "st_ok (reset_cursor s)" using quiet_reset [OF quiet_refl [OF assms(1)]] by (simp add: quiet_def)
  then show ?thesis
    using expire_loop_stops [of "reset_cursor s" "dsize (store s)" extra 0] assms reset_cursor_less [of s] by auto
qed

text \<open>
  C21. Expired keys do not linger: run often enough at times between \<open>T\<close> and \<open>U\<close> (twice as many
  times as there are buckets), the cycles remove every key that had expired by \<open>T\<close>, keep every key
  that has not expired by \<open>U\<close>, and add or change none.
\<close>

theorem expire_cycles_collect:
  assumes "st_ok s" "\<forall>t\<in>set ts. T \<le> t \<and> t \<le> U" "2 * dsize (store s) \<le> length ts"
  shows "(dict_get (store (expire_cycles ts s)) k = Some ob \<longrightarrow>
      dict_get (store s) k = Some ob \<and> \<not> key_expired T ob) \<and>
    (dict_get (store s) k = Some ob \<and> \<not> key_expired U ob \<longrightarrow>
      dict_get (store (expire_cycles ts s)) k = Some ob)"
proof (intro conjI impI)
  assume g: "dict_get (store (expire_cycles ts s)) k = Some ob"
  then show d: "dict_get (store s) k = Some ob"
    using expire_cycles_sub [OF assms(1)] by (metis domI map_le_def)
  note b = dict_bucket_entry(2) [OF st_ok_store [OF assms(1)] d]
  have "swept T {0 ..< dsize (store s)} (store (expire_cycles ts (reset_cursor s)))"
    using assms b quiet_reset [OF quiet_refl [OF assms(1)]]
    by (intro sweep_all [of "reset_cursor s" ts T, simplified]) (auto simp: quiet_def reset_cursor_def)
  moreover have "expire_cycles ts (reset_cursor s) = expire_cycles ts s"
    using b assms(3) by (intro expire_cycles_reset) auto
  ultimately show "\<not> key_expired T ob"
    using g b expire_cycles_shape [OF assms(1), of ts] by (simp add: swept_def)
next
  assume "dict_get (store s) k = Some ob \<and> \<not> key_expired U ob"
  then show "dict_get (store (expire_cycles ts s)) k = Some ob"
    using expire_cycles_live [OF assms(1)] assms(2) by blast
qed


text \<open>A keyspace with one expired key and one key that never expires.\<close>

definition stale_st :: st where
  "stale_st = store_set ''new'' \<lparr>ptr = PString ''x'', expire_at = - 1\<rparr>
     (store_set ''old'' \<lparr>ptr = PString ''y'', expire_at = 500\<rparr> demo_st)"

lemma dict_set_size:
  "dsize (snd (dict_set d k v)) = dsize (dict_grow d)"
  by (simp add: dict_set_def Let_def split: option.split prod.split)

lemma stale_st_facts:
  "st_ok stale_st" "dsize (store stale_st) = 16" "clock stale_st = 1000"
  "dict_get (store stale_st) ''old'' = Some \<lparr>ptr = PString ''y'', expire_at = 500\<rparr>"
  "dict_get (store stale_st) ''new'' = Some \<lparr>ptr = PString ''x'', expire_at = - 1\<rparr>"
proof -
  have d: "dict_ok (store demo_st)" "store demo_st = dict_create (replicate 16 (CHR 0x00))"
    by (simp_all add: demo_st_def db_create_def)
  show "st_ok stale_st" "clock stale_st = 1000"
    by (simp_all add: stale_st_def)
  show "dict_get (store stale_st) ''old'' = Some \<lparr>ptr = PString ''y'', expire_at = 500\<rparr>"
    "dict_get (store stale_st) ''new'' = Some \<lparr>ptr = PString ''x'', expire_at = - 1\<rparr>"
    using d(1) by (simp_all add: stale_st_def store_set_def dict_set_eqs)
  have "dsize (snd (dict_set (dict_create (replicate 16 (CHR 0x00))) k (v :: robj))) = 16"
    "dused (snd (dict_set (dict_create (replicate 16 (CHR 0x00))) k v)) < 12" for k v
    by (simp_all add: dict_set_size dict_set_def dict_grow_def dict_create_def INITIAL_SIZE_def Let_def
        split: option.split)
  then show "dsize (store stale_st) = 16"
    using d(2) by (simp add: stale_st_def store_set_def dict_set_size dict_grow_def LOAD_FACTOR_DEN_def
        LOAD_FACTOR_NUM_def not_le)
qed

theorem expire_cycle_keeps_keys_witness:
  "st_ok stale_st \<and> view (db_expire_cycle stale_st) ''new'' = Some (AString ''x'', - 1)"
  using expire_cycle_keeps_keys [OF stale_st_facts(1)] stale_st_facts
  by (simp add: view_at key_expired_def aobj_def)

theorem expire_cycle_terminates_witness:
  "\<exists>x s'. expire_loop 16 0 (reset_cursor stale_st) = (x, s') \<and>
     expire_loop 1000 0 (reset_cursor stale_st) = (x, s') \<and> (200 \<le> x \<or> expire_cursor s' = 16)"
  using expire_cycle_terminates [OF stale_st_facts(1), of _ _ 984] stale_st_facts(2)
  by (cases "expire_loop 16 0 (reset_cursor stale_st)") (simp add: EXPIRE_CYCLE_MAX_KEYS_def)

theorem expire_cycles_collect_witness:
  "dict_get (store (expire_cycles (replicate 32 1000) stale_st)) ''old'' = None \<and>
   dict_get (store (expire_cycles (replicate 32 1000) stale_st)) ''new'' \<noteq> None"
proof -
  define ts where "ts = replicate 32 (1000 :: int)"
  define f where "f = dict_get (store (expire_cycles ts stale_st))"
  have "\<forall>t\<in>set ts. 1000 \<le> t \<and> t \<le> 1000" "2 * dsize (store stale_st) \<le> length ts"
    by (simp_all add: ts_def stale_st_facts(2))
  then have c: "f k = Some ob \<longrightarrow> dict_get (store stale_st) k = Some ob \<and> \<not> key_expired 1000 ob"
    "dict_get (store stale_st) k = Some ob \<and> \<not> key_expired 1000 ob \<longrightarrow> f k = Some ob" for k ob
    unfolding f_def using expire_cycles_collect [OF stale_st_facts(1), of ts 1000 1000 k ob] by blast+
  have "f ''old'' = None"
  proof (rule ccontr)
    assume "f ''old'' \<noteq> None"
    then obtain ob where "dict_get (store stale_st) ''old'' = Some ob" "\<not> key_expired 1000 ob" using c(1) by blast
    then show False unfolding stale_st_facts(4) by (auto simp: key_expired_def)
  qed
  moreover have "f ''new'' \<noteq> None"
    using c(2) [of "''new''" "\<lparr>ptr = PString ''x'', expire_at = - 1\<rparr>"] stale_st_facts(5)
    by (simp add: key_expired_def)
  ultimately show ?thesis unfolding f_def ts_def by blast
qed

end
