(* ===== verification/Rdb.thy ===== *)
theory Rdb
  imports Db "HOL-Library.Sublist"
begin

text \<open>
  The snapshot format of \<open>src/rdb.c\<close>: the big-endian writers, the image of a keyspace, the
  bounds-checked readers and the loader, all on bytes in memory. The files are in \<open>Persist\<close>.
\<close>

section \<open>Writer\<close>

text \<open>\<open>(uint8_t)w\<close>: \<open>char_of\<close> keeps the low eight bits.\<close>

definition byte_of :: "'a::len word \<Rightarrow> char" where
  "byte_of w = char_of (unat w)"

definition w_u8 :: "(nat \<Rightarrow> char) \<Rightarrow> dynbuf \<Rightarrow> 8 word \<Rightarrow> dynbuf" where
  "w_u8 mem b v = dynbuf_append mem b [byte_of v]"

definition w_u32 :: "(nat \<Rightarrow> char) \<Rightarrow> dynbuf \<Rightarrow> 32 word \<Rightarrow> dynbuf" where
  "w_u32 mem b v = dynbuf_append mem b
     [byte_of (drop_bit 24 v), byte_of (drop_bit 16 v), byte_of (drop_bit 8 v), byte_of v]"

definition w_u64 :: "(nat \<Rightarrow> char) \<Rightarrow> dynbuf \<Rightarrow> 64 word \<Rightarrow> dynbuf" where
  "w_u64 mem b v = dynbuf_append mem b
     [byte_of (drop_bit 56 v), byte_of (drop_bit 48 v), byte_of (drop_bit 40 v), byte_of (drop_bit 32 v),
      byte_of (drop_bit 24 v), byte_of (drop_bit 16 v), byte_of (drop_bit 8 v), byte_of v]"

definition w_s64 :: "(nat \<Rightarrow> char) \<Rightarrow> dynbuf \<Rightarrow> int \<Rightarrow> dynbuf" where
  "w_s64 mem b v = w_u64 mem b (word_of_int v)"

definition w_bytes :: "(nat \<Rightarrow> char) \<Rightarrow> dynbuf \<Rightarrow> bytes \<Rightarrow> dynbuf" where
  "w_bytes mem b p = dynbuf_append mem (w_u32 mem b (word_of_nat (length p))) p"

definition w_f64 :: "(nat \<Rightarrow> char) \<Rightarrow> dynbuf \<Rightarrow> double \<Rightarrow> dynbuf" where
  "w_f64 mem b d = w_u64 mem b d"

fun rdb_write_obj :: "(nat \<Rightarrow> char) \<Rightarrow> dynbuf \<Rightarrow> payload \<Rightarrow> dynbuf" where
  "rdb_write_obj mem b (PString s) = w_bytes mem b s"
| "rdb_write_obj mem b (PList l) =
     foldl (w_bytes mem) (w_u32 mem b (word_of_nat (list_len l))) (list_vals l)"
| "rdb_write_obj mem b (PHash h) =
     foldl (\<lambda>b e. w_bytes mem (w_bytes mem b (ekey e)) (evalue e))
       (w_u32 mem b (word_of_nat (dict_size h))) (dict_entries h)"
| "rdb_write_obj mem b (PSet s) =
     foldl (\<lambda>b e. w_bytes mem b (ekey e)) (w_u32 mem b (word_of_nat (dict_size s))) (dict_entries s)"
| "rdb_write_obj mem b (PZset zs) =
     foldl (\<lambda>b a. w_f64 mem (w_bytes mem b (zmember (znode_of (zsl zs) a))) (zscore (znode_of (zsl zs) a)))
       (w_u32 mem b (word_of_nat (zset_len zs))) (zsl_nodes (zsl zs))"

definition RDB_MAGIC :: bytes where "RDB_MAGIC = ''MINIREDIS''"

definition RDB_VERSION :: "32 word" where "RDB_VERSION = 1"

fun type_byte :: "obj_type \<Rightarrow> 8 word" where
  "type_byte OBJ_STRING = 0"
| "type_byte OBJ_LIST = 1"
| "type_byte OBJ_HASH = 2"
| "type_byte OBJ_SET = 3"
| "type_byte OBJ_ZSET = 4"

definition rdb_write_key :: "(nat \<Rightarrow> char) \<Rightarrow> dynbuf \<Rightarrow> robj dict_entry \<Rightarrow> dynbuf" where
  "rdb_write_key mem b e =
     (let ob = evalue e;
          b1 = dynbuf_append mem (w_u32 mem b (word_of_nat (length (ekey e)))) (ekey e);
          b2 = w_s64 mem b1 (expire_at ob);
          b3 = w_u8 mem b2 (type_byte (type_of (ptr ob)))
      in rdb_write_obj mem b3 (ptr ob))"

text \<open>The buffer that \<open>rdb_save\<close> builds before it opens the file.\<close>

definition rdb_buffer :: "(nat \<Rightarrow> char) \<Rightarrow> robj dict \<Rightarrow> dynbuf" where
  "rdb_buffer mem d =
     foldl (rdb_write_key mem)
       (w_u32 mem (w_u32 mem (dynbuf_append_cstr mem dynbuf_init RDB_MAGIC) RDB_VERSION) (word_of_nat (dict_size d)))
       (dict_entries d)"

section \<open>Reader\<close>

record rdb_reader =
  rbuf :: bytes
  rlen :: nat
  rpos :: nat

definition r_need :: "rdb_reader \<Rightarrow> nat \<Rightarrow> rdb_reader option" where
  "r_need r n = (if n > rlen r - rpos r then None else Some (r\<lparr>rpos := rpos r + n\<rparr>))"

definition byte_word :: "char \<Rightarrow> 'a::len word" where
  "byte_word c = word_of_nat (of_char c)"

definition r_u8 :: "rdb_reader \<Rightarrow> (8 word \<times> rdb_reader) option" where
  "r_u8 r = (case r_need r 1 of None \<Rightarrow> None | Some r' \<Rightarrow> Some (byte_word (rbuf r' ! (rpos r' - 1)), r'))"

unbundle bit_operations_syntax

definition r_u32 :: "rdb_reader \<Rightarrow> (32 word \<times> rdb_reader) option" where
  "r_u32 r =
     (case r_need r 4 of
        None \<Rightarrow> None
      | Some r' \<Rightarrow>
          let t = drop (rpos r' - 4) (rbuf r')
          in Some (push_bit 24 (byte_word (t ! 0)) OR push_bit 16 (byte_word (t ! 1)) OR
                   push_bit 8 (byte_word (t ! 2)) OR byte_word (t ! 3), r'))"

definition r_s64 :: "rdb_reader \<Rightarrow> (int \<times> rdb_reader) option" where
  "r_s64 r =
     (case r_need r 8 of
        None \<Rightarrow> None
      | Some r' \<Rightarrow>
          let t = drop (rpos r' - 8) (rbuf r');
              u = foldl (\<lambda>u c. push_bit 8 u OR byte_word c) (0 :: 64 word) (take 8 t)
          in Some (sint u, r'))"

definition r_bytes :: "rdb_reader \<Rightarrow> (bytes \<times> rdb_reader) option" where
  "r_bytes r =
     (case r_u32 r of
        None \<Rightarrow> None
      | Some (n, r1) \<Rightarrow>
          (case r_need r1 (unat n) of
             None \<Rightarrow> None
           | Some r2 \<Rightarrow> Some (take (unat n) (drop (rpos r2 - unat n) (rbuf r2)), r2)))"

definition r_f64 :: "rdb_reader \<Rightarrow> (double \<times> rdb_reader) option" where
  "r_f64 r = (case r_s64 r of None \<Rightarrow> None | Some (raw, r') \<Rightarrow> Some (word_of_int raw, r'))"

text \<open>\<open>f(\<dots>) < 0 || g(\<dots>) < 0\<close>: two reads one after the other.\<close>

definition r_both :: "(rdb_reader \<Rightarrow> ('a \<times> rdb_reader) option) \<Rightarrow> (rdb_reader \<Rightarrow> ('b \<times> rdb_reader) option)
    \<Rightarrow> rdb_reader \<Rightarrow> (('a \<times> 'b) \<times> rdb_reader) option" where
  "r_both f g r =
     (case f r of
        None \<Rightarrow> None
      | Some (x, r1) \<Rightarrow> (case g r1 of None \<Rightarrow> None | Some (y, r2) \<Rightarrow> Some ((x, y), r2)))"

text \<open>The loops of \<open>rdb_read_obj\<close>: \<open>cnt\<close> items, each read and added to the container.\<close>

fun read_loop :: "(rdb_reader \<Rightarrow> ('a \<times> rdb_reader) option) \<Rightarrow> ('b \<Rightarrow> 'a \<Rightarrow> 'b) \<Rightarrow> nat \<Rightarrow> 'b \<Rightarrow> rdb_reader
    \<Rightarrow> ('b \<times> rdb_reader) option" where
  "read_loop rd add 0 acc r = Some (acc, r)"
| "read_loop rd add (Suc n) acc r =
     (case rd r of None \<Rightarrow> None | Some (x, r') \<Rightarrow> read_loop rd add n (add acc x) r')"

definition hash_put :: "bytes dict \<Rightarrow> bytes \<times> bytes \<Rightarrow> bytes dict" where
  "hash_put h p = snd (dict_set h (fst p) (snd p))"

definition set_put :: "unit dict \<Rightarrow> bytes \<Rightarrow> unit dict" where
  "set_put d m = snd (dict_set d m ())"

definition zset_put :: "(nat \<Rightarrow> nat) \<Rightarrow> zset \<times> nat \<Rightarrow> bytes \<times> double \<Rightarrow> zset \<times> nat" where
  "zset_put rand acc p = (case zset_add rand (snd acc) (fst acc) (snd p) (fst p) of (res, n, zs, pos) \<Rightarrow> (zs, pos))"

text \<open>The draws from \<open>rand()\<close> of a sorted set that turns out to be corrupt are not counted.\<close>

definition rdb_read_obj :: "rdb_reader \<Rightarrow> 8 word \<Rightarrow> st \<Rightarrow> (robj \<times> rdb_reader) option \<times> st" where
  "rdb_read_obj r t s =
     (if t = 0 then
        (map_option (\<lambda>(x, r'). (robj_new_string x, r')) (r_bytes r), s)
      else if t = 1 then
        (case r_u32 r of
           None \<Rightarrow> (None, s)
         | Some (cnt, r1) \<Rightarrow>
             (map_option (\<lambda>(l, r'). (\<lparr>ptr = PList l, expire_at = - 1\<rparr>, r'))
                (read_loop r_bytes list_push_tail (unat cnt) list_create r1), s))
      else if t = 2 then
        (case r_u32 r of
           None \<Rightarrow> (None, s)
         | Some (cnt, r1) \<Rightarrow>
             (case new_seed s of (seed, s1) \<Rightarrow>
               (map_option (\<lambda>(h, r'). (\<lparr>ptr = PHash h, expire_at = - 1\<rparr>, r'))
                  (read_loop (r_both r_bytes r_bytes) hash_put (unat cnt) (dict_create seed) r1), s1)))
      else if t = 3 then
        (case r_u32 r of
           None \<Rightarrow> (None, s)
         | Some (cnt, r1) \<Rightarrow>
             (case new_seed s of (seed, s1) \<Rightarrow>
               (map_option (\<lambda>(d, r'). (\<lparr>ptr = PSet d, expire_at = - 1\<rparr>, r'))
                  (read_loop r_bytes set_put (unat cnt) (dict_create seed) r1), s1)))
      else if t = 4 then
        (case r_u32 r of
           None \<Rightarrow> (None, s)
         | Some (cnt, r1) \<Rightarrow>
             (case new_seed s of (seed, s1) \<Rightarrow>
               (case read_loop (r_both r_bytes r_f64) (zset_put (rands s1)) (unat cnt)
                       (zset_create seed, rand_pos s1) r1 of
                  None \<Rightarrow> (None, s1)
                | Some ((zs, pos), r') \<Rightarrow>
                    (Some (\<lparr>ptr = PZset zs, expire_at = - 1\<rparr>, r'), s1\<lparr>rand_pos := pos\<rparr>))))
      else (None, s))"

text \<open>The keys of the file; the loop ends early at a corrupt key.\<close>

fun load_keys :: "nat \<Rightarrow> rdb_reader \<Rightarrow> st \<Rightarrow> nat \<times> st" where
  "load_keys 0 r s = (0, s)"
| "load_keys (Suc n) r s =
     (case r_both r_bytes (r_both r_s64 r_u8) r of
        None \<Rightarrow> (0, s)
      | Some ((key, expire, type), r1) \<Rightarrow>
          (case rdb_read_obj r1 type s of
             (None, s1) \<Rightarrow> (0, s1)
           | (Some (ob, r2), s1) \<Rightarrow>
               (case load_keys n r2 (store_set key (ob\<lparr>expire_at := expire\<rparr>) s1) of
                  (loaded, s2) \<Rightarrow> (loaded + 1, s2))))"

text \<open>\<open>rdb_load\<close> from the point where the file is in memory; the first component is the return code.\<close>

definition rdb_load_bytes :: "bytes \<Rightarrow> st \<Rightarrow> int \<times> st" where
  "rdb_load_bytes b s =
     (if length b < 9 + 4 + 4 \<or> take 9 b \<noteq> RDB_MAGIC then (- 1, s)
      else case r_u32 \<lparr>rbuf = b, rlen = length b, rpos = 9\<rparr> of
        None \<Rightarrow> (- 1, s)
      | Some (version, r1) \<Rightarrow>
          if version \<noteq> RDB_VERSION then (- 1, s)
          else (case r_u32 r1 of
                  None \<Rightarrow> (- 1, s)
                | Some (count, r2) \<Rightarrow> (0, snd (load_keys (unat count) r2 s))))"

section \<open>Codecs\<close>

text \<open>The bytes a reader still has before it.\<close>

definition reads_at :: "rdb_reader \<Rightarrow> bytes \<Rightarrow> bool" where
  "reads_at r bs = (rlen r = length (rbuf r) \<and> rpos r \<le> rlen r \<and> drop (rpos r) (rbuf r) = bs)"

lemma r_need_ok:
  assumes "reads_at r bs"
  shows "r_need r n = (if n \<le> length bs then Some (r\<lparr>rpos := rpos r + n\<rparr>) else None)"
    and "n \<le> length bs \<Longrightarrow> reads_at (r\<lparr>rpos := rpos r + n\<rparr>) (drop n bs)"
    and "n \<le> length bs \<Longrightarrow> drop (rpos r + n - n) (rbuf r) = bs"
  using assms by (auto simp: r_need_def reads_at_def add.commute)

lemma strict_prefix_append_cases:
  assumes "strict_prefix bs (xs @ ys)"
  obtains "strict_prefix bs xs" | cs where "bs = xs @ cs" "strict_prefix cs ys"
proof -
  obtain zs where z: "xs @ ys = bs @ zs" "zs \<noteq> []" using assms by (auto elim!: strict_prefixE')
  then consider us where "xs = bs @ us" "zs = us @ ys" | us where "bs = xs @ us" "ys = us @ zs"
    by (auto simp: append_eq_append_conv2)
  then show thesis
  proof cases
    case (1 us)
    then show thesis using that(1) that(2) [of "[]"] z(2) by (cases "us = []") (auto simp: strict_prefix_def)
  next
    case (2 us)
    then show thesis using that(2) [of us] z(2) by (auto simp: strict_prefix_def)
  qed
qed

lemma prefix_append_cases:
  assumes "prefix bs (xs @ ys)"
  obtains "strict_prefix bs xs" | cs where "bs = xs @ cs" "prefix cs ys"
  using assms by (cases "bs = xs") (auto simp: prefix_append strict_prefix_def)

text \<open>
  An encoding with its reader: the reader takes exactly the bytes of the encoding and gives back
  the value, and on a part of them it reports an error.
\<close>

locale codec =
  fixes enc :: "'a \<Rightarrow> bytes"
    and rd :: "rdb_reader \<Rightarrow> ('a \<times> rdb_reader) option"
    and valid :: "'a \<Rightarrow> bool"
  assumes decode: "valid x \<Longrightarrow> reads_at r (enc x @ bs) \<Longrightarrow> \<exists>r'. rd r = Some (x, r') \<and> reads_at r' bs"
    and truncated: "valid x \<Longrightarrow> reads_at r bs \<Longrightarrow> strict_prefix bs (enc x) \<Longrightarrow> rd r = None"
begin

lemma loop:
  assumes "list_all valid xs" "reads_at r (concat (map enc xs) @ bs)"
  shows "\<exists>r'. read_loop rd add (length xs) acc r = Some (foldl add acc xs, r') \<and> reads_at r' bs"
  using assms
proof (induction xs arbitrary: acc r)
  case (Cons x xs)
  then obtain r1 where "rd r = Some (x, r1)" "reads_at r1 (concat (map enc xs) @ bs)"
    using decode [of x r "concat (map enc xs) @ bs"] by auto
  then show ?case using Cons.IH [of r1 "add acc x"] Cons.prems(1) by auto
qed auto

lemma loop_truncated:
  assumes "list_all valid xs" "reads_at r bs" "strict_prefix bs (concat (map enc xs))"
  shows "read_loop rd add (length xs) acc r = None"
  using assms
proof (induction xs arbitrary: acc r bs)
  case (Cons x xs)
  show ?case
  proof (cases "strict_prefix bs (enc x)")
    case True
    then have "rd r = None" using truncated [of x r bs] Cons.prems by simp
    then show ?thesis by simp
  next
    case False
    then obtain cs where bs: "bs = enc x @ cs" "strict_prefix cs (concat (map enc xs))"
      using strict_prefix_append_cases Cons.prems(3) by force
    then obtain r1 where "rd r = Some (x, r1)" "reads_at r1 cs"
      using decode [of x r cs] Cons.prems by auto
    then show ?thesis using Cons.IH [OF _ _ bs(2)] Cons.prems(1) by simp
  qed
qed simp

end

text \<open>Two values one after the other.\<close>

definition enc_both :: "('a \<Rightarrow> bytes) \<Rightarrow> ('b \<Rightarrow> bytes) \<Rightarrow> 'a \<times> 'b \<Rightarrow> bytes" where
  "enc_both f g p = f (fst p) @ g (snd p)"

definition valid_both :: "('a \<Rightarrow> bool) \<Rightarrow> ('b \<Rightarrow> bool) \<Rightarrow> 'a \<times> 'b \<Rightarrow> bool" where
  "valid_both P Q p = (P (fst p) \<and> Q (snd p))"

locale codec_pair =
  a: codec enc_a rd_a valid_a + b: codec enc_b rd_b valid_b
  for enc_a :: "'a \<Rightarrow> bytes" and rd_a valid_a and enc_b :: "'b \<Rightarrow> bytes" and rd_b valid_b

sublocale codec_pair \<subseteq> both: codec "enc_both enc_a enc_b" "r_both rd_a rd_b" "valid_both valid_a valid_b"
proof
  fix x r bs
  assume v: "valid_both valid_a valid_b x"
  {
    assume "reads_at r (enc_both enc_a enc_b x @ bs)"
    then obtain r1 where r1: "rd_a r = Some (fst x, r1)" "reads_at r1 (enc_b (snd x) @ bs)"
      using a.decode [of "fst x" r "enc_b (snd x) @ bs"] v by (auto simp: enc_both_def valid_both_def)
    moreover obtain r2 where "rd_b r1 = Some (snd x, r2)" "reads_at r2 bs"
      using b.decode [OF _ r1(2)] v by (auto simp: valid_both_def)
    ultimately show "\<exists>r'. r_both rd_a rd_b r = Some (x, r') \<and> reads_at r' bs" by (simp add: r_both_def)
  }
  assume r: "reads_at r bs" and "strict_prefix bs (enc_both enc_a enc_b x)"
  from this(2) show "r_both rd_a rd_b r = None"
    unfolding enc_both_def
  proof (cases rule: strict_prefix_append_cases)
    case 1
    then show ?thesis using a.truncated [of "fst x" r bs] v r by (simp add: r_both_def valid_both_def)
  next
    case (2 cs)
    then obtain r1 where "rd_a r = Some (fst x, r1)" "reads_at r1 cs"
      using a.decode [of "fst x" r cs] v r by (auto simp: valid_both_def)
    then show ?thesis using b.truncated [of "snd x" r1 cs] v 2(2) by (simp add: r_both_def valid_both_def)
  qed
qed

section \<open>The codecs of the format\<close>

definition u8_bytes :: "8 word \<Rightarrow> bytes" where
  "u8_bytes v = [byte_of v]"

definition u32_bytes :: "32 word \<Rightarrow> bytes" where
  "u32_bytes v = [byte_of (drop_bit 24 v), byte_of (drop_bit 16 v), byte_of (drop_bit 8 v), byte_of v]"

definition u64_bytes :: "64 word \<Rightarrow> bytes" where
  "u64_bytes v =
     [byte_of (drop_bit 56 v), byte_of (drop_bit 48 v), byte_of (drop_bit 40 v), byte_of (drop_bit 32 v),
      byte_of (drop_bit 24 v), byte_of (drop_bit 16 v), byte_of (drop_bit 8 v), byte_of v]"

definition s64_bytes :: "int \<Rightarrow> bytes" where
  "s64_bytes i = u64_bytes (word_of_int i)"

definition str_bytes :: "bytes \<Rightarrow> bytes" where
  "str_bytes x = u32_bytes (word_of_nat (length x)) @ x"

definition short :: "bytes \<Rightarrow> bool" where
  "short x = (length x < 2 ^ 32)"

definition int64 :: "int \<Rightarrow> bool" where
  "int64 i = (LLONG_MIN \<le> i \<and> i \<le> LLONG_MAX)"

lemma byte_word_of: "byte_word (byte_of w) = take_bit 8 w"
proof -
  have "(of_char (char_of (unat w)) :: nat) = take_bit 8 (unat w)" by (simp add: take_bit_eq_mod)
  then show ?thesis unfolding byte_word_def byte_of_def by (auto intro!: bit_word_eqI simp: bit_simps)
qed

lemma byte_join: "push_bit 8 (drop_bit (k + 8) v) OR take_bit 8 (drop_bit k v) = drop_bit k (v :: 'a::len word)"
proof (rule bit_word_eqI)
  fix n assume "n < LENGTH('a)"
  then show "bit (push_bit 8 (drop_bit (k + 8) v) OR take_bit 8 (drop_bit k v)) n = bit (drop_bit k v) n"
    by (cases "n < 8") (auto simp: bit_simps)
qed

lemma u32_join:
  "push_bit 24 (take_bit 8 (drop_bit 24 v)) OR push_bit 16 (take_bit 8 (drop_bit 16 v)) OR
   push_bit 8 (take_bit 8 (drop_bit 8 v)) OR take_bit 8 v = (v :: 32 word)"
proof (rule bit_word_eqI)
  fix n assume "n < LENGTH(32)"
  then consider "n < 8" | "8 \<le> n" "n < 16" | "16 \<le> n" "n < 24" | "24 \<le> n" "n < 32" by fastforce
  then show "bit (push_bit 24 (take_bit 8 (drop_bit 24 v)) OR push_bit 16 (take_bit 8 (drop_bit 16 v)) OR
      push_bit 8 (take_bit 8 (drop_bit 8 v)) OR take_bit 8 v) n = bit v n"
    by cases (auto simp: bit_simps)
qed

lemma u64_join:
  "foldl (\<lambda>u c. push_bit 8 u OR byte_word c) 0 (u64_bytes v) = v"
proof -
  have "drop_bit 64 v = 0" by (rule bit_word_eqI) (simp add: bit_simps)
  then show ?thesis
    using byte_join [of 56 v] byte_join [of 48 v] byte_join [of 40 v] byte_join [of 32 v] byte_join [of 24 v]
      byte_join [of 16 v] byte_join [of 8 v] byte_join [of 0 v]
    by (simp add: u64_bytes_def byte_word_of)
qed

lemma strict_prefix_short: "strict_prefix bs cs \<Longrightarrow> length cs = n \<Longrightarrow> \<not> n \<le> length bs"
  using prefix_length_less by force

lemma fixed_decode:
  assumes "reads_at r (cs @ bs)" "length cs = n"
  shows "r_need r n = Some (r\<lparr>rpos := rpos r + n\<rparr>)" "reads_at (r\<lparr>rpos := rpos r + n\<rparr>) bs"
    "drop (rpos r + n - n) (rbuf r) = cs @ bs"
  using r_need_ok [OF assms(1), of n] assms(2) by simp_all

lemma fixed_truncated:
  assumes "reads_at r bs" "strict_prefix bs cs" "length cs = n"
  shows "r_need r n = None"
  using r_need_ok(1) [OF assms(1), of n] strict_prefix_short [OF assms(2,3)] by simp

lemma take_bit_8 [simp]: "take_bit 8 x = (x :: 8 word)"
  by (rule bit_word_eqI) (simp add: bit_simps)

interpretation u8: codec u8_bytes r_u8 "\<lambda>_. True"
proof
  fix x r bs
  show "\<exists>r'. r_u8 r = Some (x, r') \<and> reads_at r' bs" if "reads_at r (u8_bytes x @ bs)"
    using fixed_decode [OF that, of 1] that
    by (auto simp: r_u8_def u8_bytes_def byte_word_of nth_via_drop)
  show "r_u8 r = None" if "reads_at r bs" "strict_prefix bs (u8_bytes x)"
    using fixed_truncated [OF that, of 1] by (simp add: r_u8_def u8_bytes_def)
qed

interpretation u32: codec u32_bytes r_u32 "\<lambda>_. True"
proof
  fix x r bs
  show "\<exists>r'. r_u32 r = Some (x, r') \<and> reads_at r' bs" if "reads_at r (u32_bytes x @ bs)"
    using fixed_decode [OF that, of 4]
    by (auto simp: r_u32_def u32_bytes_def byte_word_of u32_join Let_def)
  show "r_u32 r = None" if "reads_at r bs" "strict_prefix bs (u32_bytes x)"
    using fixed_truncated [OF that, of 4] by (simp add: r_u32_def u32_bytes_def)
qed

lemma u64_bytes_length: "length (u64_bytes v) = 8"
  by (simp add: u64_bytes_def)

interpretation s64: codec s64_bytes r_s64 int64
proof
  fix x r bs
  assume x: "int64 x"
  show "\<exists>r'. r_s64 r = Some (x, r') \<and> reads_at r' bs" if "reads_at r (s64_bytes x @ bs)"
  proof -
    have "sint (word_of_int x :: 64 word) = x"
      using x unfolding int64_def by (subst sint_sbintrunc', subst signed_take_bit_int_eq_self) simp_all
    then show ?thesis
      using fixed_decode [OF that, of 8]
      by (auto simp: r_s64_def s64_bytes_def u64_bytes_length u64_join Let_def)
  qed
  show "r_s64 r = None" if "reads_at r bs" "strict_prefix bs (s64_bytes x)"
    using fixed_truncated [OF that, of 8] by (simp add: r_s64_def s64_bytes_def u64_bytes_length)
qed

interpretation f64: codec u64_bytes r_f64 "\<lambda>_. True"
proof
  fix x r bs
  have x: "s64_bytes (sint x) = u64_bytes x" "int64 (sint x)"
    using sint_greater_eq [of x] sint_less [of x] by (simp_all add: s64_bytes_def int64_def)
  show "\<exists>r'. r_f64 r = Some (x, r') \<and> reads_at r' bs" if "reads_at r (u64_bytes x @ bs)"
    using s64.decode [OF x(2), of r bs] that x(1) by (auto simp: r_f64_def)
  show "r_f64 r = None" if "reads_at r bs" "strict_prefix bs (u64_bytes x)"
    using s64.truncated [OF x(2) that(1)] that(2) x(1) by (simp add: r_f64_def)
qed

interpretation str: codec str_bytes r_bytes short
proof
  fix x r bs
  assume "short x"
  then have n: "unat (word_of_nat (length x) :: 32 word) = length x"
    by (simp add: short_def unsigned_of_nat take_bit_nat_eq_self)
  show "\<exists>r'. r_bytes r = Some (x, r') \<and> reads_at r' bs" if at: "reads_at r (str_bytes x @ bs)"
  proof -
    obtain r1 where r1: "r_u32 r = Some (word_of_nat (length x), r1)" "reads_at r1 (x @ bs)"
      using u32.decode [where x = "word_of_nat (length x)" and r = r and bs = "x @ bs"] at by (auto simp: str_bytes_def)
    then show ?thesis using fixed_decode [OF r1(2) refl] n by (simp add: r_bytes_def)
  qed
  assume r: "reads_at r bs" and "strict_prefix bs (str_bytes x)"
  from this(2) show "r_bytes r = None"
    unfolding str_bytes_def
  proof (cases rule: strict_prefix_append_cases)
    case 1
    then show ?thesis using u32.truncated [OF _ r 1] by (simp add: r_bytes_def)
  next
    case (2 cs)
    then obtain r1 where r1: "r_u32 r = Some (word_of_nat (length x), r1)" "reads_at r1 cs"
      using u32.decode [where x = "word_of_nat (length x)" and r = r and bs = cs] r by auto
    then show ?thesis using fixed_truncated [OF r1(2) 2(2) refl] n by (simp add: r_bytes_def)
  qed
qed

interpretation field: codec_pair str_bytes r_bytes short str_bytes r_bytes short ..

interpretation item: codec_pair str_bytes r_bytes short u64_bytes r_f64 "\<lambda>_. True" ..

interpretation meta: codec_pair s64_bytes r_s64 int64 u8_bytes r_u8 "\<lambda>_. True" ..

interpretation key_head: codec_pair str_bytes r_bytes short
  "enc_both s64_bytes u8_bytes" "r_both r_s64 r_u8" "valid_both int64 (\<lambda>_. True)" ..

section \<open>What the writer appends\<close>

lemma w_fixed [simp]:
  assumes "dynbuf_ok b"
  shows "dynbuf_ok (w_u8 mem b v)" "contents (w_u8 mem b v) = contents b @ u8_bytes v"
    and "dynbuf_ok (w_u32 mem b w)" "contents (w_u32 mem b w) = contents b @ u32_bytes w"
    and "dynbuf_ok (w_s64 mem b i)" "contents (w_s64 mem b i) = contents b @ s64_bytes i"
    and "dynbuf_ok (w_f64 mem b d)" "contents (w_f64 mem b d) = contents b @ u64_bytes d"
  using assms
  by (simp_all add: w_u8_def w_u32_def w_s64_def w_f64_def w_u64_def u8_bytes_def u32_bytes_def s64_bytes_def
      u64_bytes_def ob.append_bytes ob.append_bytes_invar)

lemma w_bytes_ok [simp]:
  assumes "dynbuf_ok b"
  shows "dynbuf_ok (w_bytes mem b x)" "contents (w_bytes mem b x) = contents b @ str_bytes x"
  using assms by (simp_all add: w_bytes_def str_bytes_def ob.append_bytes ob.append_bytes_invar)

lemma foldl_append:
  assumes "\<And>b x. dynbuf_ok b \<Longrightarrow> dynbuf_ok (f b x) \<and> contents (f b x) = contents b @ g x" "dynbuf_ok b"
  shows "dynbuf_ok (foldl f b xs) \<and> contents (foldl f b xs) = contents b @ concat (map g xs)"
  using assms by (induction xs arbitrary: b) simp_all

text \<open>The bytes of a value and of a key with its value.\<close>

fun obj_bytes :: "payload \<Rightarrow> bytes" where
  "obj_bytes (PString x) = str_bytes x"
| "obj_bytes (PList l) = u32_bytes (word_of_nat (list_len l)) @ concat (map str_bytes (list_vals l))"
| "obj_bytes (PHash h) =
     u32_bytes (word_of_nat (dict_size h)) @
     concat (map (enc_both str_bytes str_bytes) (map pair_of (dict_entries h)))"
| "obj_bytes (PSet d) = u32_bytes (word_of_nat (dict_size d)) @ concat (map str_bytes (map ekey (dict_entries d)))"
| "obj_bytes (PZset zs) =
     u32_bytes (word_of_nat (zset_len zs)) @ concat (map (enc_both str_bytes u64_bytes) (zset_items zs))"

lemma rdb_write_obj_ok [simp]:
  assumes "dynbuf_ok b"
  shows "dynbuf_ok (rdb_write_obj mem b p)" "contents (rdb_write_obj mem b p) = contents b @ obj_bytes p"
proof -
  let ?c = "\<lambda>n. w_u32 mem b (word_of_nat n)"
  note f = foldl_append [where b = "?c _", OF _ w_fixed(3) [OF assms]]
  have l: "dynbuf_ok (foldl (w_bytes mem) (?c n) xs) \<and>
      contents (foldl (w_bytes mem) (?c n) xs) = contents (?c n) @ concat (map str_bytes xs)" for n xs
    by (rule f) simp
  have h: "dynbuf_ok (foldl (\<lambda>b e. w_bytes mem (w_bytes mem b (ekey e)) (evalue e)) (?c n) es) \<and>
      contents (foldl (\<lambda>b e. w_bytes mem (w_bytes mem b (ekey e)) (evalue e)) (?c n) es) =
        contents (?c n) @ concat (map (\<lambda>e. enc_both str_bytes str_bytes (pair_of e)) es)" for n es
    by (rule f) (simp add: enc_both_def pair_of_def)
  have d: "dynbuf_ok (foldl (\<lambda>b e. w_bytes mem b (ekey e)) (?c n) es) \<and>
      contents (foldl (\<lambda>b e. w_bytes mem b (ekey e)) (?c n) es) =
        contents (?c n) @ concat (map (\<lambda>e. str_bytes (ekey e)) es)" for n and es :: "unit dict_entry list"
    by (rule f) simp
  have z: "dynbuf_ok (foldl (\<lambda>b a. w_f64 mem (w_bytes mem b (zmember (znode_of z a))) (zscore (znode_of z a))) (?c n) as) \<and>
      contents (foldl (\<lambda>b a. w_f64 mem (w_bytes mem b (zmember (znode_of z a))) (zscore (znode_of z a))) (?c n) as) =
        contents (?c n) @ concat (map (\<lambda>a. enc_both str_bytes u64_bytes (node_item z a)) as)" for z n as
    by (rule f) (simp add: enc_both_def node_item_def)
  show "dynbuf_ok (rdb_write_obj mem b p)" "contents (rdb_write_obj mem b p) = contents b @ obj_bytes p"
    using assms l h d z by (cases p; simp add: comp_def zset_items_def)+
qed

definition key_bytes :: "bytes \<times> robj \<Rightarrow> bytes" where
  "key_bytes p =
     enc_both str_bytes (enc_both s64_bytes u8_bytes)
       (fst p, expire_at (snd p), type_byte (type_of (ptr (snd p)))) @ obj_bytes (ptr (snd p))"

definition rdb_image :: "robj dict \<Rightarrow> bytes" where
  "rdb_image d =
     RDB_MAGIC @ u32_bytes RDB_VERSION @ u32_bytes (word_of_nat (dict_size d)) @
     concat (map key_bytes (map pair_of (dict_entries d)))"

lemma rdb_buffer_ok: "dynbuf_ok (rdb_buffer mem d) \<and> contents (rdb_buffer mem d) = rdb_image d"
proof -
  let ?b = "w_u32 mem (w_u32 mem (dynbuf_append_cstr mem dynbuf_init RDB_MAGIC) RDB_VERSION) (word_of_nat (dict_size d))"
  have magic: "dynbuf_ok (dynbuf_append_cstr mem dynbuf_init RDB_MAGIC)"
    "contents (dynbuf_append_cstr mem dynbuf_init RDB_MAGIC) = RDB_MAGIC"
    by (simp_all add: dynbuf_append_cstr_def ob.append_bytes ob.append_bytes_invar dynbuf_init_ok RDB_MAGIC_def)
  have "dynbuf_ok (rdb_write_key mem b e) \<and>
      contents (rdb_write_key mem b e) = contents b @ key_bytes (pair_of e)" if "dynbuf_ok b" for b e
    using that by (simp add: rdb_write_key_def Let_def key_bytes_def enc_both_def str_bytes_def pair_of_def
        ob.append_bytes ob.append_bytes_invar)
  from foldl_append [of "rdb_write_key mem", OF this, of ?b "dict_entries d"] magic
  show ?thesis by (simp add: rdb_buffer_def rdb_image_def comp_def)
qed

section \<open>Loading what was saved\<close>

text \<open>The lengths and counts that the format has 32 bits for, and times within 64.\<close>

fun obj_fits :: "payload \<Rightarrow> bool" where
  "obj_fits (PString x) = short x"
| "obj_fits (PList l) = (list_len l < 2 ^ 32 \<and> list_all short (list_vals l))"
| "obj_fits (PHash h) =
     (dict_size h < 2 ^ 32 \<and> list_all (valid_both short short) (map pair_of (dict_entries h)))"
| "obj_fits (PSet d) = (dict_size d < 2 ^ 32 \<and> list_all short (map ekey (dict_entries d)))"
| "obj_fits (PZset zs) =
     (zset_len zs < 2 ^ 32 \<and> list_all (valid_both short (\<lambda>_. True)) (zset_items zs))"

definition key_fits :: "bytes \<times> robj \<Rightarrow> bool" where
  "key_fits p = (short (fst p) \<and> int64 (expire_at (snd p)) \<and> obj_fits (ptr (snd p)) \<and> payload_ok (ptr (snd p)))"

text \<open>The states that differ only in how much of the random sources has been used.\<close>

definition same_env :: "st \<Rightarrow> st \<Rightarrow> bool" where
  "same_env s s' = (s' = s\<lparr>seed_pos := seed_pos s', rand_pos := rand_pos s'\<rparr>)"

lemma same_env_simps [simp]:
  "same_env s s" "same_env s (s\<lparr>seed_pos := n\<rparr>)" "same_env s (s\<lparr>seed_pos := n, rand_pos := m\<rparr>)"
  by (simp_all add: same_env_def)

lemma list_load: "list_inv (foldl list_push_tail list_create xs) \<and> list_vals (foldl list_push_tail list_create xs) = xs"
  using dq.push_tails [of list_create xs] by simp

lemma upd_map_add: "fst p \<notin> fst ` set ps \<Longrightarrow> (m(fst p \<mapsto> snd p)) ++ map_of ps = m ++ map_of (p # ps)"
  by (cases p) (simp add: map_add_upd_left dom_map_of_conv_image_fst)

lemma hash_load:
  "dict_ok h \<Longrightarrow> distinct (map fst ps) \<Longrightarrow>
     dict_ok (foldl hash_put h ps) \<and> dict_get (foldl hash_put h ps) = dict_get h ++ map_of ps"
proof (induction ps arbitrary: h)
  case (Cons p ps)
  have put: "dict_ok (hash_put h p)" "dict_get (hash_put h p) = (dict_get h)(fst p \<mapsto> snd p)"
    using Cons.prems(1) by (simp_all add: hash_put_def dict_set_eqs)
  have new: "fst p \<notin> fst ` set ps" "distinct (map fst ps)" using Cons.prems(2) by simp_all
  from Cons.IH [OF put(1) new(2)] show ?case unfolding put(2) upd_map_add [OF new(1)] foldl.simps .
qed simp

lemma set_load:
  "dict_ok d \<Longrightarrow> dict_ok (foldl set_put d xs) \<and> dom (dict_get (foldl set_put d xs)) = dom (dict_get d) \<union> set xs"
proof (induction xs arbitrary: d)
  case (Cons x xs)
  have "dict_ok (set_put d x)" "dom (dict_get (set_put d x)) = insert x (dom (dict_get d))"
    using Cons.prems by (simp_all add: set_put_def dict_set_eqs)
  then show ?case using Cons.IH [of "set_put d x"] by simp
qed simp

lemma zset_load:
  "zset_ok (fst acc) \<Longrightarrow> distinct (map fst ps) \<Longrightarrow> \<forall>p\<in>set ps. \<not> d_isnan (snd p) \<Longrightarrow>
     fst ` set ps \<inter> dom (zset_score (fst acc)) = {} \<Longrightarrow>
     zset_ok (fst (foldl (zset_put rand) acc ps)) \<and>
     zset_score (fst (foldl (zset_put rand) acc ps)) = zset_score (fst acc) ++ map_of ps"
proof (induction ps arbitrary: acc)
  case (Cons p ps)
  let ?m = "zset_score (fst acc)"
  have nn: "\<not> d_isnan (snd p)" and new: "?m (fst p) = None" using Cons.prems(3,4) by auto
  obtain n zs' pos' where z: "zset_add rand (snd acc) (fst acc) (snd p) (fst p) =
      (zadd_result ?m (snd p) (fst p), n, zs', pos')" "zset_ok zs'" "zset_score zs' = zadd_map ?m (snd p) (fst p)"
    using zset_add_ok [OF Cons.prems(1) nn] by metis
  have acc': "zset_put rand acc p = (zs', pos')" using z(1) by (simp add: zset_put_def)
  have m': "zset_score zs' = ?m(fst p \<mapsto> snd p)" using z(3) new by (simp add: zadd_map_def)
  have p: "fst p \<notin> fst ` set ps" using Cons.prems(2) by auto
  then have "fst ` set ps \<inter> dom (zset_score (fst (zs', pos'))) = {}" using m' Cons.prems(4) by auto
  note IH = Cons.IH [of "(zs', pos')", unfolded fst_conv, OF z(2) _ _ this [unfolded fst_conv]]
  have "distinct (map fst ps)" "\<forall>p\<in>set ps. \<not> d_isnan (snd p)" using Cons.prems(2,3) by simp_all
  from IH [OF this] show ?case unfolding m' upd_map_add [OF p] foldl.simps acc' .
qed simp

lemma dict_entries_map: "dict_ok d \<Longrightarrow> map_of (map pair_of (dict_entries d)) = dict_get d"
proof -
  assume d: "dict_ok d"
  have "distinct (map fst (map pair_of (dict_entries d)))"
    using dict_entries_distinct [OF d] by (simp add: comp_def pair_of_def)
  then show ?thesis using dict_entries_iff [OF d] by (metis map_of_eq_Some_iff not_Some_eq ext)
qed

text \<open>What is loaded stands for the same value.\<close>

definition loads :: "payload \<Rightarrow> robj \<Rightarrow> bool" where
  "loads p ob = (payload_ok (ptr ob) \<and> abs_payload (ptr ob) = abs_payload p)"

lemma loop_count:
  assumes "reads_at r (u32_bytes (word_of_nat n) @ bs)" "n < 2 ^ 32"
  obtains r1 where "r_u32 r = Some (word_of_nat n, r1)" "reads_at r1 bs" "unat (word_of_nat n :: 32 word) = n"
proof -
  have "unat (word_of_nat n :: 32 word) = n" using assms(2) by (simp add: unsigned_of_nat take_bit_nat_eq_self)
  then show thesis
    using u32.decode [where x = "word_of_nat n" and r = r and bs = bs] assms(1) that by blast
qed

lemma rdb_read_obj_ok:
  assumes "payload_ok p" "obj_fits p" "reads_at r (obj_bytes p @ bs)"
  shows "\<exists>ob r' s'. rdb_read_obj r (type_byte (type_of p)) s = (Some (ob, r'), s') \<and> reads_at r' bs \<and>
    loads p ob \<and> same_env s s'"
proof (cases p)
  case (PString x)
  then show ?thesis
    using str.decode [of x r bs] assms by (auto simp: rdb_read_obj_def loads_def robj_new_string_def)
next
  case (PList l)
  have l: "list_len l = length (list_vals l)" using assms(1) PList dq.len_vals by simp
  obtain r1 where r1: "r_u32 r = Some (word_of_nat (list_len l), r1)"
    "reads_at r1 (concat (map str_bytes (list_vals l)) @ bs)" "unat (word_of_nat (list_len l) :: 32 word) = list_len l"
    using loop_count [of r "list_len l"] assms PList by auto
  obtain r2 where "read_loop r_bytes list_push_tail (list_len l) list_create r1 =
      Some (foldl list_push_tail list_create (list_vals l), r2)" "reads_at r2 bs"
    using str.loop [OF _ r1(2)] assms(2) PList l by fastforce
  then show ?thesis using r1 list_load [of "list_vals l"] PList by (simp add: rdb_read_obj_def loads_def)
next
  case (PHash h)
  let ?ps = "map pair_of (dict_entries h)" and ?seed = "seeds s (seed_pos s)"
  have h: "dict_ok h" "dict_size h = length ?ps"
    using assms(1) PHash dict_size_correct [of h] by (simp_all add: pairs_of_entries [symmetric])
  obtain r1 where r1: "r_u32 r = Some (word_of_nat (dict_size h), r1)"
    "reads_at r1 (concat (map (enc_both str_bytes str_bytes) ?ps) @ bs)"
    "unat (word_of_nat (dict_size h) :: 32 word) = dict_size h"
    using loop_count [of r "dict_size h"] assms PHash by auto
  obtain r2 where "read_loop (r_both r_bytes r_bytes) hash_put (dict_size h) (dict_create ?seed) r1 =
      Some (foldl hash_put (dict_create ?seed) ?ps, r2)" "reads_at r2 bs"
    using field.both.loop [OF _ r1(2)] assms(2) PHash unfolding h(2) by fastforce
  moreover have "distinct (map fst ?ps)" using dict_entries_distinct [OF h(1)] by (simp add: comp_def pair_of_def)
  ultimately show ?thesis
    using r1 hash_load [of "dict_create ?seed" ?ps] dict_entries_map [OF h(1)] PHash
    by (simp add: rdb_read_obj_def loads_def new_seed_def)
next
  case (PSet d)
  let ?ps = "map ekey (dict_entries d)" and ?seed = "seeds s (seed_pos s)"
  have d: "dict_ok d" "dict_size d = length ?ps"
    using assms(1) PSet dict_size_correct [of d] by (simp_all flip: pairs_of_entries)
  obtain r1 where r1: "r_u32 r = Some (word_of_nat (dict_size d), r1)"
    "reads_at r1 (concat (map str_bytes ?ps) @ bs)" "unat (word_of_nat (dict_size d) :: 32 word) = dict_size d"
    using loop_count [of r "dict_size d"] assms PSet by auto
  obtain r2 where "read_loop r_bytes set_put (dict_size d) (dict_create ?seed) r1 =
      Some (foldl set_put (dict_create ?seed) ?ps, r2)" "reads_at r2 bs"
    using str.loop [OF _ r1(2)] assms(2) PSet unfolding d(2) by fastforce
  moreover have "set ?ps = dom (dict_get d)"
    using arg_cong [OF dict_entries_map [OF d(1)], of dom] by (simp add: dom_map_of_conv_image_fst image_image pair_of_def)
  ultimately show ?thesis
    using r1 set_load [of "dict_create ?seed" ?ps] PSet by (simp add: rdb_read_obj_def loads_def new_seed_def)
next
  case (PZset zs)
  let ?ps = "zset_items zs" and ?seed = "seeds s (seed_pos s)"
  let ?acc = "(zset_create ?seed, rand_pos s)"
  have z: "zset_ok zs" "zset_len zs = length ?ps" using assms(1) PZset zset_len_ok by auto
  obtain r1 where r1: "r_u32 r = Some (word_of_nat (zset_len zs), r1)"
    "reads_at r1 (concat (map (enc_both str_bytes u64_bytes) ?ps) @ bs)"
    "unat (word_of_nat (zset_len zs) :: 32 word) = zset_len zs"
    using loop_count [of r "zset_len zs"] assms PZset by auto
  obtain r2 where r2: "read_loop (r_both r_bytes r_f64) (zset_put (rands s)) (zset_len zs) ?acc r1 =
      Some (foldl (zset_put (rands s)) ?acc ?ps, r2)" "reads_at r2 bs"
    using item.both.loop [OF _ r1(2)] assms(2) PZset unfolding z(2) by fastforce
  obtain zs' pos where f: "foldl (zset_put (rands s)) ?acc ?ps = (zs', pos)" by fastforce
  have "\<forall>p\<in>set ?ps. \<not> d_isnan (snd p)"
    using zset_score_items [OF z(1)] zset_score_not_nan [OF z(1)] by (metis prod.collapse)
  then have "zset_ok zs'" "zset_score zs' = zset_score zs"
    using zset_load [of ?acc ?ps "rands s"] zset_items_sorted [OF z(1)] zset_items_map [OF z(1)] f by simp_all
  then show ?thesis using r1 r2 f PZset by (simp add: rdb_read_obj_def loads_def new_seed_def)
qed

text \<open>A container cut short: in its count, or in its items.\<close>

lemma loop_cut:
  assumes "reads_at r bs" "strict_prefix bs (u32_bytes (word_of_nat n) @ cs)" "n < 2 ^ 32"
  obtains "r_u32 r = None"
    | r1 ds where "r_u32 r = Some (word_of_nat n, r1)" "reads_at r1 ds" "strict_prefix ds cs"
        "unat (word_of_nat n :: 32 word) = n"
  using assms(2)
proof (cases rule: strict_prefix_append_cases)
  case 1
  then show thesis using that(1) u32.truncated [OF _ assms(1) 1] by simp
next
  case (2 ds)
  then show thesis using that(2) loop_count [of r n ds] assms(1,3) by metis
qed

lemma rdb_read_obj_truncated:
  assumes "payload_ok p" "obj_fits p" "reads_at r bs" "strict_prefix bs (obj_bytes p)"
  shows "\<exists>s'. rdb_read_obj r (type_byte (type_of p)) s = (None, s') \<and> same_env s s'"
proof (cases p)
  case (PString x)
  then show ?thesis using str.truncated [of x r bs] assms by (simp add: rdb_read_obj_def)
next
  case (PList l)
  have l: "list_len l = length (list_vals l)" using assms(1) PList dq.len_vals by simp
  have c: "strict_prefix bs (u32_bytes (word_of_nat (list_len l)) @ concat (map str_bytes (list_vals l)))"
    "list_len l < 2 ^ 32" using assms PList by simp_all
  show ?thesis
    by (cases rule: loop_cut [OF assms(3) c])
      (use assms PList in \<open>auto simp: rdb_read_obj_def l str.loop_truncated\<close>)
next
  case (PHash h)
  have h: "dict_size h = length (map pair_of (dict_entries h))"
    using assms(1) PHash dict_size_correct [of h] by (simp add: pairs_of_entries [symmetric])
  have c: "strict_prefix bs (u32_bytes (word_of_nat (dict_size h)) @
      concat (map (enc_both str_bytes str_bytes) (map pair_of (dict_entries h))))" "dict_size h < 2 ^ 32"
    using assms PHash by simp_all
  show ?thesis
  proof (cases rule: loop_cut [OF assms(3) c])
    case (2 r1 ds)
    then show ?thesis
      using field.both.loop_truncated [OF _ 2(2,3)] assms(2) PHash h by (simp add: rdb_read_obj_def new_seed_def)
  qed (simp add: PHash rdb_read_obj_def)
next
  case (PSet d)
  have d: "dict_size d = length (map ekey (dict_entries d))"
    using assms(1) PSet dict_size_correct [of d] by (simp flip: pairs_of_entries)
  have c: "strict_prefix bs (u32_bytes (word_of_nat (dict_size d)) @
      concat (map str_bytes (map ekey (dict_entries d))))" "dict_size d < 2 ^ 32"
    using assms PSet by simp_all
  show ?thesis
  proof (cases rule: loop_cut [OF assms(3) c])
    case (2 r1 ds)
    then show ?thesis
      using str.loop_truncated [OF _ 2(2,3)] assms(2) PSet d by (simp add: rdb_read_obj_def new_seed_def)
  qed (simp add: PSet rdb_read_obj_def)
next
  case (PZset zs)
  have z: "zset_len zs = length (zset_items zs)" using assms(1) PZset zset_len_ok by auto
  have c: "strict_prefix bs (u32_bytes (word_of_nat (zset_len zs)) @
      concat (map (enc_both str_bytes u64_bytes) (zset_items zs)))" "zset_len zs < 2 ^ 32"
    using assms PZset by simp_all
  show ?thesis
  proof (cases rule: loop_cut [OF assms(3) c])
    case (2 r1 ds)
    then show ?thesis
      using item.both.loop_truncated [OF _ 2(2,3), where add = "zset_put (rands s)"] assms(2) PZset z by (simp add: rdb_read_obj_def new_seed_def)
  qed (simp add: PZset rdb_read_obj_def)
qed

text \<open>The keyspace with its expired keys.\<close>

definition astore :: "robj dict \<Rightarrow> bytes \<Rightarrow> (aval \<times> int) option" where
  "astore d k = map_option aobj (dict_get d k)"

definition keys_map :: "(bytes \<times> robj) list \<Rightarrow> bytes \<Rightarrow> (aval \<times> int) option" where
  "keys_map ps k = map_option aobj (map_of ps k)"

lemma keys_map_Cons:
  assumes "fst p \<notin> fst ` set ps"
  shows "(f(fst p \<mapsto> aobj (snd p))) ++ keys_map ps = f ++ keys_map (take (Suc (length ps)) (p # ps))"
proof -
  have "map_of ps (fst p) = None" using assms by (simp add: map_of_eq_None_iff)
  then show ?thesis by (cases p) (auto simp: keys_map_def map_add_def fun_eq_iff split: option.split)
qed

lemma view_astore:
  "view_of now d k = (case astore d k of Some (a, e) \<Rightarrow> if 0 \<le> e \<and> e \<le> now then None else Some (a, e) | None \<Rightarrow> None)"
  by (simp add: view_of_def astore_def aobj_def key_expired_def split: option.split)

lemma same_env_fields:
  assumes "same_env s s'"
  shows "store s' = store s" "outb s' = outb s" "clock s' = clock s" "st_ok s' = st_ok s" "closing s' = closing s"
proof -
  have e: "s' = s\<lparr>seed_pos := seed_pos s', rand_pos := rand_pos s'\<rparr>" using assms by (simp add: same_env_def)
  have "store (s\<lparr>seed_pos := x, rand_pos := y\<rparr>) = store s" "outb (s\<lparr>seed_pos := x, rand_pos := y\<rparr>) = outb s"
    "clock (s\<lparr>seed_pos := x, rand_pos := y\<rparr>) = clock s" "st_ok (s\<lparr>seed_pos := x, rand_pos := y\<rparr>) = st_ok s"
    "closing (s\<lparr>seed_pos := x, rand_pos := y\<rparr>) = closing s" for x y
    by (simp_all add: outb_def st_ok_def)
  then show "store s' = store s" "outb s' = outb s" "clock s' = clock s" "st_ok s' = st_ok s" "closing s' = closing s"
    by (metis e)+
qed

lemma load_keys_ok:
  assumes "list_all key_fits ps" "distinct (map fst ps)" "reads_at r bs" "prefix bs (concat (map key_bytes ps))" "st_ok s"
  shows "\<exists>m\<le>length ps. \<exists>s'. load_keys (length ps) r s = (m, s') \<and> st_ok s' \<and>
    outb s' = outb s \<and> clock s' = clock s \<and> closing s' = closing s \<and>
    astore (store s') = astore (store s) ++ keys_map (take m ps) \<and>
    length (concat (map key_bytes (take m ps))) \<le> length bs \<and>
    (m < length ps \<longrightarrow> length bs < length (concat (map key_bytes (take (Suc m) ps))))"
  using assms
proof (induction ps arbitrary: r bs s)
  case Nil
  then show ?case by (simp add: keys_map_def map_add_def fun_eq_iff)
next
  case (Cons p ps)
  let ?hd = "(fst p, expire_at (snd p), type_byte (type_of (ptr (snd p))))"
  let ?head = "enc_both str_bytes (enc_both s64_bytes u8_bytes) ?hd" and ?obj = "obj_bytes (ptr (snd p))"
  let ?rd = "r_both r_bytes (r_both r_s64 r_u8)"
  have fits: "key_fits p" "list_all key_fits ps" using Cons.prems(1) by simp_all
  have v: "valid_both short (valid_both int64 (\<lambda>_. True)) ?hd"
    using fits(1) by (simp add: key_fits_def valid_both_def)
  have kb: "key_bytes p = ?head @ ?obj" by (simp add: key_bytes_def)
  consider (head) "strict_prefix bs ?head" | (obj) cs where "bs = ?head @ cs" "strict_prefix cs ?obj"
    | (rest) cs where "bs = ?head @ ?obj @ cs" "prefix cs (concat (map key_bytes ps))"
  proof -
    have "prefix bs (?head @ ?obj @ concat (map key_bytes ps))" using Cons.prems(4) kb by simp
    then show thesis
    proof (cases rule: prefix_append_cases)
      case (2 cs)
      from this(2) show thesis by (cases rule: prefix_append_cases) (use 2(1) obj rest in simp_all)
    qed (rule head)
  qed
  then show ?case
  proof cases
    case head
    then have "?rd r = None" using key_head.both.truncated [OF v Cons.prems(3)] by simp
    moreover have "length bs < length (key_bytes p)" using head kb prefix_length_less by fastforce
    ultimately show ?thesis using Cons.prems(5) by (intro exI [of _ 0]) (simp add: keys_map_def map_add_def fun_eq_iff)
  next
    case (obj cs)
    then obtain r1 where r1: "?rd r = Some (?hd, r1)" "reads_at r1 cs"
      using key_head.both.decode [OF v, of r cs] Cons.prems(3) by auto
    then obtain s1 where s1: "rdb_read_obj r1 (type_byte (type_of (ptr (snd p)))) s = (None, s1)" "same_env s s1"
      using rdb_read_obj_truncated [OF _ _ r1(2) obj(2)] fits(1) by (auto simp: key_fits_def)
    have "length bs < length (key_bytes p)" using obj kb prefix_length_less [OF obj(2)] by simp
    then show ?thesis
      using r1 s1(1) same_env_fields [OF s1(2)] Cons.prems(5)
      by (intro exI [of _ 0]) (simp add: keys_map_def map_add_def fun_eq_iff)
  next
    case (rest cs)
    then obtain r1 where r1: "?rd r = Some (?hd, r1)" "reads_at r1 (?obj @ cs)"
      using key_head.both.decode [OF v, of r "?obj @ cs"] Cons.prems(3) by auto
    then obtain ob r2 s1 where o: "rdb_read_obj r1 (type_byte (type_of (ptr (snd p)))) s = (Some (ob, r2), s1)"
      "reads_at r2 cs" "loads (ptr (snd p)) ob" "same_env s s1"
      using rdb_read_obj_ok [OF _ _ r1(2)] fits(1) unfolding key_fits_def by metis
    let ?s2 = "store_set (fst p) (ob\<lparr>expire_at := expire_at (snd p)\<rparr>) s1"
    note e = same_env_fields [OF o(4)]
    have s2: "st_ok ?s2" "astore (store ?s2) = (astore (store s))(fst p \<mapsto> aobj (snd p))"
      "outb ?s2 = outb s" "clock ?s2 = clock s" "closing ?s2 = closing s"
      using o(3) e Cons.prems(5) by (auto simp: loads_def astore_def aobj_def fun_eq_iff)
    have d: "distinct (map fst ps)" "fst p \<notin> fst ` set ps" using Cons.prems(2) by simp_all
    obtain m s' where m: "m \<le> length ps" "load_keys (length ps) r2 ?s2 = (m, s')" "st_ok s'"
      "outb s' = outb s" "clock s' = clock s" "closing s' = closing s"
      "astore (store s') = astore (store ?s2) ++ keys_map (take m ps)"
      "length (concat (map key_bytes (take m ps))) \<le> length cs"
      "m < length ps \<longrightarrow> length cs < length (concat (map key_bytes (take (Suc m) ps)))"
      using Cons.IH [OF fits(2) d(1) o(2) rest(2) s2(1)] s2(3-5) by auto
    have "fst p \<notin> fst ` set (take m ps)" using d(2) set_take_subset [of m ps] by auto
    then have "astore (store s') = astore (store s) ++ keys_map (take (Suc m) (p # ps))"
      unfolding m(7) s2(2) using keys_map_Cons [of p "take m ps"] m(1) by simp
    then show ?thesis
      using r1 o(1) m(1-6,8,9) rest(1) kb by (intro exI [of _ "Suc m"]) simp
  qed
qed

definition rdb_fits :: "robj dict \<Rightarrow> bool" where
  "rdb_fits d =
     (dict_size d < 2 ^ 32 \<and>
      (\<forall>k ob. dict_get d k = Some ob \<longrightarrow> short k \<and> int64 (expire_at ob) \<and> obj_fits (ptr ob)))"

text \<open>The keys of the file in their order, and the length of what precedes them.\<close>

definition rdb_keys :: "robj dict \<Rightarrow> (bytes \<times> robj) list" where
  "rdb_keys d = map pair_of (dict_entries d)"

definition rdb_length :: "robj dict \<Rightarrow> nat \<Rightarrow> nat" where
  "rdb_length d m = 17 + length (concat (map key_bytes (take m (rdb_keys d))))"

lemma concat_take_prefix: "prefix (concat (take m xss)) (concat xss)"
  by (metis append_take_drop_id concat_append prefixI)

lemma rdb_length_le: "rdb_length d m \<le> length (rdb_image d)"
proof -
  have "length (concat (map key_bytes (take m (rdb_keys d)))) \<le> length (concat (map key_bytes (rdb_keys d)))"
    unfolding take_map [symmetric] by (intro prefix_length_le concat_take_prefix)
  then show ?thesis by (simp add: rdb_length_def rdb_image_def rdb_keys_def RDB_MAGIC_def u32_bytes_def)
qed

lemma rdb_keys_facts:
  assumes "st_ok s" "rdb_fits (store s)"
  shows "list_all key_fits (rdb_keys (store s))" "distinct (map fst (rdb_keys (store s)))"
    "length (rdb_keys (store s)) = dict_size (store s)" "keys_map (rdb_keys (store s)) = astore (store s)"
proof -
  have d: "dict_ok (store s)" using assms(1) by (simp add: st_ok_def)
  have "p \<in> set (rdb_keys (store s)) \<Longrightarrow> key_fits p" for p
    using dict_entries_iff [OF d, of "fst p" "snd p"] assms
    by (auto simp: rdb_keys_def key_fits_def rdb_fits_def st_ok_def)
  then show "list_all key_fits (rdb_keys (store s))" by (simp add: list_all_iff)
  show "distinct (map fst (rdb_keys (store s)))"
    using dict_entries_distinct [OF d] by (simp add: rdb_keys_def comp_def pair_of_def)
  show "length (rdb_keys (store s)) = dict_size (store s)"
    using dict_size_correct [OF d] unfolding rdb_keys_def pairs_of_entries [OF d] by (rule sym)
  show "keys_map (rdb_keys (store s)) = astore (store s)"
    using dict_entries_map [OF d] by (simp add: fun_eq_iff keys_map_def astore_def rdb_keys_def)
qed

lemma rdb_load_prefix:
  assumes "st_ok s" "rdb_fits (store s)" "st_ok t" "17 \<le> n"
  shows "\<exists>m\<le>dict_size (store s). \<exists>t'. rdb_load_bytes (take n (rdb_image (store s))) t = (0, t') \<and> st_ok t' \<and>
    outb t' = outb t \<and> clock t' = clock t \<and>
    astore (store t') = astore (store t) ++ keys_map (take m (rdb_keys (store s))) \<and>
    (n < length (rdb_image (store s)) \<longrightarrow> rdb_length (store s) m \<le> n) \<and>
    (m < dict_size (store s) \<longrightarrow> n < rdb_length (store s) (Suc m))"
proof -
  let ?d = "store s" and ?ps = "rdb_keys (store s)"
  define bs where "bs = take (n - 17) (concat (map key_bytes ?ps))"
  let ?size = "word_of_nat (dict_size ?d) :: 32 word"
  note k = rdb_keys_facts [OF assms(1,2)]
  have size: "unat ?size = dict_size ?d"
    using assms(2) by (simp add: rdb_fits_def unsigned_of_nat take_bit_nat_eq_self)
  have hd: "length RDB_MAGIC = 9" "length (u32_bytes w) = 4" for w by (simp_all add: RDB_MAGIC_def u32_bytes_def)
  have img: "take n (rdb_image ?d) = RDB_MAGIC @ u32_bytes RDB_VERSION @ u32_bytes ?size @ bs"
    using assms(4) hd by (simp add: rdb_image_def bs_def rdb_keys_def)
  let ?r = "\<lparr>rbuf = take n (rdb_image ?d), rlen = length (take n (rdb_image ?d)), rpos = 9\<rparr>"
  have "reads_at ?r (u32_bytes RDB_VERSION @ u32_bytes ?size @ bs)"
    unfolding img using hd by (simp add: reads_at_def)
  then obtain r1 where r1: "r_u32 ?r = Some (RDB_VERSION, r1)" "reads_at r1 (u32_bytes ?size @ bs)"
    using u32.decode [where x = RDB_VERSION] by blast
  then obtain r2 where r2: "r_u32 r1 = Some (?size, r2)" "reads_at r2 bs"
    using u32.decode [where x = ?size] by blast
  have "prefix bs (concat (map key_bytes ?ps))" by (simp add: bs_def take_is_prefix)
  from load_keys_ok [OF k(1,2) r2(2) this assms(3)]
  obtain m t' where m: "m \<le> length ?ps" "load_keys (length ?ps) r2 t = (m, t')" "st_ok t'" "outb t' = outb t"
    "clock t' = clock t" "astore (store t') = astore (store t) ++ keys_map (take m ?ps)"
    "length (concat (map key_bytes (take m ?ps))) \<le> length bs"
    "m < length ?ps \<longrightarrow> length bs < length (concat (map key_bytes (take (Suc m) ?ps)))"
    by blast
  have "take 9 (take n (rdb_image ?d)) = RDB_MAGIC" "\<not> length (take n (rdb_image ?d)) < 9 + 4 + 4"
    unfolding img using hd by simp_all
  then have "rdb_load_bytes (take n (rdb_image ?d)) t = (0, t')"
    using r1(1) r2(1) m(2) size k(3) unfolding rdb_load_bytes_def by simp
  moreover have "length (rdb_image ?d) = 17 + length (concat (map key_bytes ?ps))"
    using hd by (simp add: rdb_image_def rdb_keys_def)
  moreover have "length bs = min (n - 17) (length (concat (map key_bytes ?ps)))"
    by (simp only: bs_def length_take min.commute)
  ultimately show ?thesis
    using m assms(4) k(3) rdb_length_le [of ?d "Suc m"] by (intro exI [of _ m] exI [of _ t'] conjI) (auto simp: rdb_length_def min_def split: if_splits)
qed

section \<open>Properties\<close>

text \<open>
  C4. A snapshot restores what was saved: loading the bytes that \<open>rdb_save\<close> writes adds to the
  keyspace exactly the saved keys, each with the value of its type and its expiration time, and
  into an empty keyspace it gives back the saved one, whatever the hash seeds, the order of the
  tables and the levels of the skip lists; the state stays well formed.
\<close>

theorem rdb_roundtrip:
  assumes "st_ok s" "rdb_fits (store s)" "st_ok t"
  shows "\<exists>t'. rdb_load_bytes (contents (rdb_buffer mem (store s))) t = (0, t') \<and> st_ok t' \<and>
    astore (store t') = astore (store t) ++ astore (store s) \<and>
    (dict_get (store t) = Map.empty \<longrightarrow> view_of now (store t') = view_of now (store s))"
proof -
  let ?d = "store s" and ?n = "17 + length (rdb_image (store s))"
  obtain m t' where m: "m \<le> dict_size ?d" "rdb_load_bytes (take ?n (rdb_image ?d)) t = (0, t')" "st_ok t'"
    "astore (store t') = astore (store t) ++ keys_map (take m (rdb_keys ?d))"
    "m < dict_size ?d \<longrightarrow> ?n < rdb_length ?d (Suc m)"
    using rdb_load_prefix [OF assms, of ?n] by auto
  have "m = dict_size ?d" using m(1,5) rdb_length_le [of ?d "Suc m"] by force
  then have a: "astore (store t') = astore (store t) ++ astore ?d"
    using m(4) rdb_keys_facts [OF assms(1,2)] by simp
  moreover have "view_of now (store t') = view_of now ?d" if "dict_get (store t) = Map.empty"
  proof -
    have "astore (store t') = astore ?d" using a that by (simp add: fun_eq_iff astore_def map_add_def split: option.split)
    then show ?thesis by (simp add: fun_eq_iff view_astore)
  qed
  ultimately show ?thesis using m(2,3) rdb_buffer_ok by auto
qed

text \<open>
  C8. Loading a snapshot that was cut off at any byte: without its header nothing changes and the
  load fails; otherwise exactly the keys that are complete before the cut are added, in their order,
  the state stays well formed, and yet the load reports success.
\<close>

theorem rdb_truncated_load:
  assumes "st_ok s" "rdb_fits (store s)" "st_ok t" "n < length (rdb_image (store s))"
  shows "(n < 17 \<longrightarrow> rdb_load_bytes (take n (rdb_image (store s))) t = (- 1, t)) \<and>
    (17 \<le> n \<longrightarrow> (\<exists>m t'. rdb_load_bytes (take n (rdb_image (store s))) t = (0, t') \<and> st_ok t' \<and>
       m < dict_size (store s) \<and> rdb_length (store s) m \<le> n \<and> n < rdb_length (store s) (Suc m) \<and>
       astore (store t') = astore (store t) ++ keys_map (take m (rdb_keys (store s)))))"
proof (intro conjI impI)
  assume "n < 17"
  then have "length (take n (rdb_image (store s))) < 9 + 4 + 4" by (simp add: min.strict_coboundedI2)
  then show "rdb_load_bytes (take n (rdb_image (store s))) t = (- 1, t)" unfolding rdb_load_bytes_def by (simp only: if_True simp_thms)
next
  let ?d = "store s"
  assume "17 \<le> n"
  then obtain m t' where m: "m \<le> dict_size ?d" "rdb_load_bytes (take n (rdb_image ?d)) t = (0, t')" "st_ok t'"
    "astore (store t') = astore (store t) ++ keys_map (take m (rdb_keys ?d))"
    "rdb_length ?d m \<le> n" "m < dict_size ?d \<longrightarrow> n < rdb_length ?d (Suc m)"
    using rdb_load_prefix [OF assms(1-3)] assms(4) by blast
  have "rdb_length ?d (dict_size ?d) = length (rdb_image ?d)"
    using rdb_keys_facts(3) [OF assms(1,2)]
    by (simp add: rdb_length_def rdb_image_def rdb_keys_def RDB_MAGIC_def u32_bytes_def)
  then have "m < dict_size ?d" using m(1,5) assms(4) by (cases "m = dict_size ?d") auto
  then show "\<exists>m t'. rdb_load_bytes (take n (rdb_image ?d)) t = (0, t') \<and> st_ok t' \<and>
       m < dict_size ?d \<and> rdb_length ?d m \<le> n \<and> n < rdb_length ?d (Suc m) \<and>
       astore (store t') = astore (store t) ++ keys_map (take m (rdb_keys ?d))"
    using m by blast
qed

text \<open>A keyspace with one string that expires.\<close>

definition rdb_demo :: st where
  "rdb_demo = store_set ''k'' \<lparr>ptr = PString ''v'', expire_at = 5000\<rparr> demo_st"

lemma rdb_demo_facts:
  "st_ok rdb_demo" "dict_get (store rdb_demo) = [''k'' \<mapsto> \<lparr>ptr = PString ''v'', expire_at = 5000\<rparr>]"
  "dict_size (store rdb_demo) = 1" "rdb_fits (store rdb_demo)" "dict_get (store demo_st) = Map.empty"
proof -
  show e: "dict_get (store demo_st) = Map.empty" by (simp add: demo_st_def db_create_def)
  show ok: "st_ok rdb_demo" by (simp add: rdb_demo_def)
  show g: "dict_get (store rdb_demo) = [''k'' \<mapsto> \<lparr>ptr = PString ''v'', expire_at = 5000\<rparr>]"
    unfolding rdb_demo_def store_set_simps(3) [OF demo_st_ok(1)] e ..
  show "dict_size (store rdb_demo) = 1"
    using ds.count_card [of "store rdb_demo"] ok by (simp add: st_ok_def g)
  then show "rdb_fits (store rdb_demo)" by (simp add: rdb_fits_def g short_def int64_def)
qed

theorem rdb_roundtrip_witness:
  "\<exists>t'. rdb_load_bytes (contents (rdb_buffer (\<lambda>_. CHR 0x00) (store rdb_demo))) demo_st = (0, t') \<and> st_ok t' \<and>
     view_of 1000 (store t') ''k'' = Some (AString ''v'', 5000)"
proof -
  have "view_of 1000 (store rdb_demo) ''k'' = Some (AString ''v'', 5000)"
    by (simp add: view_of_def rdb_demo_facts(2) key_expired_def aobj_def)
  then show ?thesis
    using rdb_roundtrip [OF rdb_demo_facts(1,4) demo_st_ok(1), of "\<lambda>_. CHR 0x00" 1000] rdb_demo_facts(5) by auto
qed

theorem rdb_truncated_load_witness:
  "\<exists>t'. rdb_load_bytes (take 20 (rdb_image (store rdb_demo))) demo_st = (0, t') \<and> st_ok t' \<and>
     astore (store t') = astore (store demo_st)"
proof -
  have "rdb_length (store rdb_demo) 1 = length (rdb_image (store rdb_demo))"
    using rdb_keys_facts(3) [OF rdb_demo_facts(1,4)] rdb_demo_facts(3)
    by (simp add: rdb_length_def rdb_image_def rdb_keys_def RDB_MAGIC_def u32_bytes_def)
  moreover obtain p where "rdb_keys (store rdb_demo) = [p]"
    using rdb_keys_facts(3) [OF rdb_demo_facts(1,4)] rdb_demo_facts(3) by (auto simp: length_Suc_conv)
  ultimately have "20 < length (rdb_image (store rdb_demo))"
    by (simp add: rdb_length_def key_bytes_def enc_both_def str_bytes_def u32_bytes_def)
  then show ?thesis
    using rdb_truncated_load [OF rdb_demo_facts(1,4) demo_st_ok(1), of 20] rdb_demo_facts(3)
    by (auto simp: keys_map_def fun_eq_iff map_add_def)
qed

end
