(* ===== verification/Files.thy ===== *)
theory Files
  imports Prelude "HOL-Library.Sublist"
begin

text \<open>
  The file system calls that \<open>src/aof.c\<close> and \<open>src/rdb.c\<close> make, and the \<open>write_full\<close> loop both of
  them have. A directory maps paths to files and a file is its bytes, so that a descriptor keeps
  pointing at a file whose name has been given to another one. Which calls fail, and how a write is
  cut into pieces, is an input: \<open>sys_ok i\<close> is the outcome of the \<open>i\<close>-th call, and \<open>sys_writes i\<close> lists
  what the calls of \<open>write\<close> of one \<open>write_full\<close> return before the rest goes through. A \<open>write_full\<close>
  that is interrupted for ever is not in the model.
\<close>

datatype write_result = Wrote nat | Interrupted | Write_failed

record os =
  names :: "bytes \<Rightarrow> nat option"
  inodes :: "nat \<Rightarrow> bytes"
  next_ino :: nat
  sys_ok :: "nat \<Rightarrow> bool"
  sys_writes :: "nat \<Rightarrow> write_result list"
  sys_pos :: nat

section \<open>Writing a buffer\<close>

text \<open>The result and the bytes that have reached the file.\<close>

fun write_full :: "write_result list \<Rightarrow> bytes \<Rightarrow> bool \<times> bytes" where
  "write_full [] buf = (True, buf)"
| "write_full (w # ws) buf =
     (if buf = [] then (True, [])
      else case w of
        Wrote n \<Rightarrow> (case write_full ws (drop n buf) of (ok, rest) \<Rightarrow> (ok, take n buf @ rest))
      | Interrupted \<Rightarrow> write_full ws buf
      | Write_failed \<Rightarrow> (False, []))"

lemma write_full_prefix: "prefix (snd (write_full ws buf)) buf"
proof (induction ws buf rule: write_full.induct)
  case (2 w ws buf)
  have "prefix xs (drop n buf) \<Longrightarrow> prefix (take n buf @ xs) buf" for n xs
    by (metis append_take_drop_id same_prefix_prefix)
  then show ?case using 2 by (cases w) (auto simp: split_def)
qed simp

lemma write_full_all: "fst (write_full ws buf) \<Longrightarrow> snd (write_full ws buf) = buf"
  by (induction ws buf rule: write_full.induct) (auto simp: split_def split: write_result.splits if_splits)

lemma write_full_ok: "Write_failed \<notin> set ws \<Longrightarrow> fst (write_full ws buf)"
  by (induction ws buf rule: write_full.induct) (auto simp: split_def split: write_result.split)

section \<open>Files\<close>

definition sys_call :: "os \<Rightarrow> bool \<times> os" where
  "sys_call w = (sys_ok w (sys_pos w), w\<lparr>sys_pos := sys_pos w + 1\<rparr>)"

definition create_file :: "bytes \<Rightarrow> os \<Rightarrow> nat option \<times> os" where
  "create_file path w =
     (Some (next_ino w),
      w\<lparr>names := (names w)(path \<mapsto> next_ino w), inodes := (inodes w)(next_ino w := []), next_ino := next_ino w + 1\<rparr>)"

text \<open>\<open>open\<close> with \<open>O_CREAT | O_APPEND\<close>, and with \<open>O_CREAT | O_TRUNC\<close>.\<close>

definition open_append :: "bytes \<Rightarrow> os \<Rightarrow> nat option \<times> os" where
  "open_append path w =
     (case sys_call w of (ok, w1) \<Rightarrow>
        if \<not> ok then (None, w1)
        else case names w1 path of Some i \<Rightarrow> (Some i, w1) | None \<Rightarrow> create_file path w1)"

definition open_trunc :: "bytes \<Rightarrow> os \<Rightarrow> nat option \<times> os" where
  "open_trunc path w =
     (case sys_call w of (ok, w1) \<Rightarrow>
        if \<not> ok then (None, w1)
        else case names w1 path of
          Some i \<Rightarrow> (Some i, w1\<lparr>inodes := (inodes w1)(i := [])\<rparr>)
        | None \<Rightarrow> create_file path w1)"

definition write_file :: "nat \<Rightarrow> bytes \<Rightarrow> os \<Rightarrow> bool \<times> os" where
  "write_file i buf w =
     (case write_full (sys_writes w (sys_pos w)) buf of (ok, sent) \<Rightarrow>
        (ok, w\<lparr>inodes := (inodes w)(i := inodes w i @ sent), sys_pos := sys_pos w + 1\<rparr>))"

definition rename_file :: "bytes \<Rightarrow> bytes \<Rightarrow> os \<Rightarrow> bool \<times> os" where
  "rename_file old new w =
     (case sys_call w of (ok, w1) \<Rightarrow>
        (ok, if ok then w1\<lparr>names := (names w1)(new := names w1 old, old := None)\<rparr> else w1))"

text \<open>\<open>fopen\<close> and the \<open>fread\<close> loop: \<open>None\<close> when the file cannot be opened or read.\<close>

definition read_file :: "bytes \<Rightarrow> os \<Rightarrow> bytes option \<times> os" where
  "read_file path w =
     (case sys_call w of (ok, w1) \<Rightarrow> (if ok then map_option (inodes w1) (names w1 path) else None, w1))"

definition file_at :: "bytes \<Rightarrow> os \<Rightarrow> bytes option" where
  "file_at path w = map_option (inodes w) (names w path)"

text \<open>Every name has a file of its own.\<close>

definition os_ok :: "os \<Rightarrow> bool" where
  "os_ok w =
     ((\<forall>p i. names w p = Some i \<longrightarrow> i < next_ino w) \<and>
      (\<forall>p q i. names w p = Some i \<longrightarrow> names w q = Some i \<longrightarrow> p = q))"

text \<open>The outcomes still to come are not affected by the calls made; when every call succeeds.\<close>

definition same_calls :: "os \<Rightarrow> os \<Rightarrow> bool" where
  "same_calls w w' = (sys_ok w' = sys_ok w \<and> sys_writes w' = sys_writes w)"

definition healthy :: "os \<Rightarrow> bool" where
  "healthy w = (\<forall>n. sys_ok w n \<and> Write_failed \<notin> set (sys_writes w n))"

lemma same_calls_refl [simp]: "same_calls w w" "same_calls w (snd (sys_call w))"
  by (simp_all add: same_calls_def sys_call_def)

lemma same_calls_trans: "same_calls w w1 \<Longrightarrow> same_calls w1 w2 \<Longrightarrow> same_calls w w2"
  by (simp add: same_calls_def)

lemma same_calls_healthy: "same_calls w w' \<Longrightarrow> healthy w' = healthy w"
  by (simp add: same_calls_def healthy_def)

section \<open>Replacing a file\<close>

text \<open>
  The end of \<open>rdb_save\<close> and of \<open>aof_rewrite\<close>: \<open>fsync\<close> unless something has failed, \<open>close\<close>, and the
  renaming of the temporary file unless something has failed.
\<close>

definition sync_and_rename :: "bytes \<Rightarrow> bytes \<Rightarrow> bool \<Rightarrow> os \<Rightarrow> bool \<times> os" where
  "sync_and_rename tmp path rc w =
     (case (if rc then sys_call w else (False, w)) of (rc1, w1) \<Rightarrow>
      case sys_call w1 of (closed, w2) \<Rightarrow>
        if rc1 \<and> closed then rename_file tmp path w2 else (False, w2))"

text \<open>Some bytes appended to one file.\<close>

definition appends :: "nat \<Rightarrow> bytes \<Rightarrow> os \<Rightarrow> os \<Rightarrow> bool" where
  "appends i bs w w' =
     (names w' = names w \<and> next_ino w' = next_ino w \<and> inodes w' = (inodes w)(i := inodes w i @ bs) \<and>
      same_calls w w')"

lemma appends_refl: "appends i [] w w"
  by (simp add: appends_def)

lemma appends_trans: "appends i bs w w1 \<Longrightarrow> appends i cs w1 w2 \<Longrightarrow> appends i (bs @ cs) w w2"
  using same_calls_trans by (auto simp: appends_def)

lemma appends_ok: "appends i bs w w' \<Longrightarrow> os_ok w' = os_ok w"
  by (simp add: appends_def os_ok_def)

lemma write_file_appends:
  assumes "write_file i buf w = (ok, w')"
  obtains bs where "appends i bs w w'" "prefix bs buf" "ok \<Longrightarrow> bs = buf"
proof -
  obtain sent where d: "write_full (sys_writes w (sys_pos w)) buf = (ok, sent)" "appends i sent w w'"
    using assms by (auto simp: write_file_def appends_def same_calls_def split: prod.splits)
  then show thesis
    using that write_full_prefix [of "sys_writes w (sys_pos w)" buf] write_full_all [of "sys_writes w (sys_pos w)" buf]
    by simp
qed

lemma write_file_healthy: "healthy w \<Longrightarrow> fst (write_file i buf w)"
  using write_full_ok [of "sys_writes w (sys_pos w)" buf] by (auto simp: write_file_def healthy_def split: prod.split)

lemma sys_call_simps [simp]:
  "names (snd (sys_call w)) = names w" "inodes (snd (sys_call w)) = inodes w" "next_ino (snd (sys_call w)) = next_ino w"
  "fst (sys_call w) = sys_ok w (sys_pos w)"
  by (simp_all add: sys_call_def)

lemma fresh_ino: "os_ok w \<Longrightarrow> names w p \<noteq> Some (next_ino w)"
  by (auto simp: os_ok_def)

lemma open_trunc_ok:
  assumes "open_trunc path w = (Some i, w1)" "os_ok w"
  shows "os_ok w1" "names w1 path = Some i" "inodes w1 i = []" "\<And>p. p \<noteq> path \<Longrightarrow> names w1 p = names w p"
    "\<And>j. j < next_ino w \<Longrightarrow> names w path \<noteq> Some j \<Longrightarrow> inodes w1 j = inodes w j \<and> j \<noteq> i"
    "next_ino w \<le> next_ino w1" "same_calls w w1"
  using assms fresh_ino [OF assms(2)]
  by (auto simp: open_trunc_def sys_call_def create_file_def os_ok_def same_calls_def split_def less_Suc_eq
      split: if_splits option.splits)

lemma open_trunc_healthy: "healthy w \<Longrightarrow> \<exists>i w1. open_trunc path w = (Some i, w1)"
  by (auto simp: open_trunc_def create_file_def healthy_def split_def split: option.split)

lemma open_trunc_sick: "open_trunc path w = (None, w1) \<Longrightarrow> \<not> healthy w"
  using open_trunc_healthy [of w path] by auto

lemma sync_and_rename_ok:
  assumes "sync_and_rename tmp path ok w = (rc, w')"
  shows "inodes w' = inodes w" "next_ino w' = next_ino w" "rc \<Longrightarrow> ok"
    "names w' = (if rc then (names w)(path := names w tmp, tmp := None) else names w)" "same_calls w w'"
    "healthy w \<Longrightarrow> ok \<Longrightarrow> rc"
  using assms
  by (auto simp: sync_and_rename_def rename_file_def sys_call_def same_calls_def healthy_def split: if_splits)

text \<open>
  A file is replaced as a whole or not at all: if everything has gone well the path names the new
  bytes, otherwise the file it named is still there, unchanged; no other name and no other file,
  open or not, is affected.
\<close>

lemma replace_file:
  assumes ok: "os_ok w" and "tmp \<noteq> path" "open_trunc tmp w = (Some i, w1)" "appends i bs w1 w2"
    "sync_and_rename tmp path full w2 = (rc, w3)"
  shows "os_ok w3" "rc \<Longrightarrow> full \<and> file_at path w3 = Some bs" "\<not> rc \<Longrightarrow> file_at path w3 = file_at path w"
    "p \<noteq> path \<Longrightarrow> p \<noteq> tmp \<Longrightarrow> file_at p w3 = file_at p w"
    "j < next_ino w \<Longrightarrow> names w tmp \<noteq> Some j \<Longrightarrow> inodes w3 j = inodes w j" "next_ino w \<le> next_ino w3"
    "p \<noteq> path \<Longrightarrow> p \<noteq> tmp \<Longrightarrow> names w3 p = names w p" "rc \<Longrightarrow> names w3 path \<noteq> names w path" "\<not> rc \<Longrightarrow> names w3 path = names w path"
    "same_calls w w3" "healthy w \<Longrightarrow> full \<Longrightarrow> rc"
proof -
  note o = open_trunc_ok [OF assms(3) ok] and r = sync_and_rename_ok [OF assms(5)]
  have n2: "names w2 = names w1" "next_ino w2 = next_ino w1" and i2: "inodes w2 i = bs"
    and j2: "\<And>j. j \<noteq> i \<Longrightarrow> inodes w2 j = inodes w1 j"
    using assms(4) o(3) by (auto simp: appends_def)
  have w1: "names w1 p = Some j \<Longrightarrow> names w1 q = Some j \<Longrightarrow> p = q" for p q j using o(1) by (auto simp: os_ok_def)
  show "os_ok w3" using o(1) n2 r(2,4) o(2) by (auto simp: os_ok_def split: if_splits)
  show "rc \<Longrightarrow> full \<and> file_at path w3 = Some bs"
    using r o(2) n2 i2 assms(2) by (simp add: file_at_def)
  have other: "map_option (inodes w2) (names w2 p) = file_at p w" if "p \<noteq> tmp" for p
  proof (cases "names w p")
    case (Some j)
    then have "j < next_ino w" "names w tmp \<noteq> Some j" using ok that by (auto simp: os_ok_def)
    then show ?thesis using Some o(4) [OF that] o(5) n2 j2 by (simp add: file_at_def)
  qed (use o(4) [OF that] n2 in \<open>simp add: file_at_def\<close>)
  show "\<not> rc \<Longrightarrow> file_at path w3 = file_at path w" using other [of path] assms(2) r by (simp add: file_at_def)
  show "p \<noteq> path \<Longrightarrow> p \<noteq> tmp \<Longrightarrow> file_at p w3 = file_at p w" using other [of p] r by (simp add: file_at_def)
  show "j < next_ino w \<Longrightarrow> names w tmp \<noteq> Some j \<Longrightarrow> inodes w3 j = inodes w j" using o(5) j2 r by simp
  show "next_ino w \<le> next_ino w3" using o(6) n2 r by simp
  show "p \<noteq> path \<Longrightarrow> p \<noteq> tmp \<Longrightarrow> names w3 p = names w p" "\<not> rc \<Longrightarrow> names w3 path = names w path"
    using o(4) n2 r assms(2) by auto
  have "names w path \<noteq> Some i"
  proof
    assume i: "names w path = Some i"
    then have "i < next_ino w" "names w tmp \<noteq> Some i" using ok assms(2) by (auto simp: os_ok_def)
    then show False using o(5) by blast
  qed
  then show "rc \<Longrightarrow> names w3 path \<noteq> names w path" using r o(2) n2 assms(2) by auto
  have c2: "same_calls w w2" using o(7) assms(4) same_calls_trans by (auto simp: appends_def)
  then show "same_calls w w3" using r(5) same_calls_trans by blast
  show "healthy w \<Longrightarrow> full \<Longrightarrow> rc" using r(6) same_calls_healthy [OF c2] by simp
qed

end
