(* ===== verification/Persist.thy ===== *)
theory Persist
  imports Rdb Files
begin

text \<open>
  The state of the server around the keyspace (the globals of \<open>src/server.c\<close> and \<open>src/aof.c\<close>), the
  snapshot files of \<open>src/rdb.c\<close> and the append-only file of \<open>src/aof.c\<close>. A background child is a
  record of what it was forked with; its work is done in one step, when it ends.
\<close>

datatype child = Child_save "robj dict" | Child_rewrite "robj dict"

record srv =
  cur :: st
  os :: Files.os
  g_aof_path :: "bytes option"
  g_rdb_path :: "bytes option"
  g_aof_fd :: "nat option"
  g_aof_replaying :: bool
  g_aof_rewriting :: bool
  g_rewrite_buf :: dynbuf
  aof_last_fsync_ms :: int
  children :: "child list"
  g_sigchld :: bool

section \<open>Snapshot files\<close>

definition rdb_tmp :: "bytes \<Rightarrow> bytes" where
  "rdb_tmp path = path @ ''.tmp''"

definition rdb_save :: "(nat \<Rightarrow> char) \<Rightarrow> bytes \<Rightarrow> robj dict \<Rightarrow> os \<Rightarrow> bool \<times> os" where
  "rdb_save mem path d w =
     (let b = rdb_buffer mem d
      in case open_trunc (rdb_tmp path) w of
           (None, w1) \<Rightarrow> (False, w1)
         | (Some i, w1) \<Rightarrow>
             (case write_file i (contents b) w1 of (rc, w2) \<Rightarrow> sync_and_rename (rdb_tmp path) path rc w2))"

definition rdb_load :: "bytes \<Rightarrow> srv \<Rightarrow> int \<times> srv" where
  "rdb_load path s =
     (case read_file path (os s) of
        (None, w) \<Rightarrow> (- 1, s\<lparr>os := w\<rparr>)
      | (Some b, w) \<Rightarrow>
          (case rdb_load_bytes b (cur s) of (rc, c) \<Rightarrow> (rc, s\<lparr>cur := c, os := w\<rparr>)))"

section \<open>The append-only file\<close>

definition aof_open :: "bytes \<Rightarrow> srv \<Rightarrow> nat option \<times> srv" where
  "aof_open path s =
     (case open_append path (os s) of
        (None, w) \<Rightarrow> (None, s\<lparr>os := w\<rparr>)
      | (Some i, w) \<Rightarrow> (Some i, s\<lparr>os := w, aof_last_fsync_ms := clock (cur s)\<rparr>))"

definition aof_close :: "nat option \<Rightarrow> srv \<Rightarrow> srv" where
  "aof_close fd s = (if fd = None then s else s\<lparr>os := snd (sys_call (snd (sys_call (os s))))\<rparr>)"

definition aof_periodic :: "srv \<Rightarrow> srv" where
  "aof_periodic s =
     (if g_aof_fd s = None then s
      else let now = clock (cur s)
           in if now - aof_last_fsync_ms s \<ge> 1000
              then s\<lparr>os := snd (sys_call (os s)), aof_last_fsync_ms := now\<rparr>
              else s)"

definition resp_arg :: "(nat \<Rightarrow> char) \<Rightarrow> dynbuf \<Rightarrow> bytes \<Rightarrow> dynbuf" where
  "resp_arg mem b a =
     dynbuf_append_cstr mem
       (dynbuf_append mem (dynbuf_appendf mem b (CHR ''$'' # show_nat (length a) @ crlf)) a) crlf"

definition command_to_resp :: "(nat \<Rightarrow> char) \<Rightarrow> command \<Rightarrow> dynbuf \<Rightarrow> dynbuf" where
  "command_to_resp mem argv b =
     foldl (resp_arg mem) (dynbuf_appendf mem b (CHR ''*'' # show_nat (length argv) @ crlf)) argv"

definition aof_append_command :: "nat option \<Rightarrow> command \<Rightarrow> srv \<Rightarrow> bool \<times> srv" where
  "aof_append_command fd argv s =
     (case fd of
        None \<Rightarrow> (False, s)
      | Some i \<Rightarrow>
          let b = command_to_resp (junk (cur s)) argv dynbuf_init
          in case write_file i (contents b) (os s) of (rc, w) \<Rightarrow>
               (rc, if rc \<and> g_aof_rewriting s
                    then s\<lparr>os := w, g_rewrite_buf := dynbuf_append (junk (cur s)) (g_rewrite_buf s) (contents b)\<rparr>
                    else s\<lparr>os := w\<rparr>))"

definition aof_reopen :: "srv \<Rightarrow> bool \<times> srv" where
  "aof_reopen s =
     (let s1 = (if g_aof_fd s \<noteq> None then s\<lparr>os := snd (sys_call (os s)), g_aof_fd := None\<rparr> else s)
      in case g_aof_path s1 of
           None \<Rightarrow> (False, s1)
         | Some path \<Rightarrow>
             (case aof_open path s1 of
                (None, s2) \<Rightarrow> (False, s2)
              | (Some i, s2) \<Rightarrow>
                  let s3 = s2\<lparr>g_aof_fd := Some i\<rparr>
                  in if dlen (g_rewrite_buf s3) > 0
                     then (True, s3\<lparr>os := snd (write_file i (contents (g_rewrite_buf s3)) (os s3)),
                                    g_rewrite_buf := dynbuf_clear (g_rewrite_buf s3)\<rparr>)
                     else (True, s3)))"

section \<open>Rewriting the log\<close>

text \<open>The arguments come with their lengths, so that NUL bytes are written as they are.\<close>

definition aw_write_command :: "(nat \<Rightarrow> char) \<Rightarrow> nat \<Rightarrow> bytes list \<Rightarrow> os \<Rightarrow> bool \<times> os" where
  "aw_write_command mem i argv w = write_file i (contents (command_to_resp mem argv dynbuf_init)) w"

text \<open>
  The loops over a container: \<open>argv\<close> is filled up with items, one or two arguments each, and
  written out when it has no room (\<open>cap\<close>) for another; the first two arguments are \<open>base\<close>.
\<close>

fun aw_batches :: "(nat \<Rightarrow> char) \<Rightarrow> nat \<Rightarrow> nat \<Rightarrow> bytes list \<Rightarrow> bytes list list \<Rightarrow> bytes list \<Rightarrow> os \<Rightarrow> bool \<times> os" where
  "aw_batches mem i cap base [] argv w =
     (if length argv > 2 then aw_write_command mem i argv w else (True, w))"
| "aw_batches mem i cap base (item # items) argv w =
     (if length argv + length item > cap
      then (case aw_write_command mem i argv w of (rc, w1) \<Rightarrow>
              if \<not> rc then (False, w1) else aw_batches mem i cap base items (base @ item) w1)
      else aw_batches mem i cap base items (argv @ item) w)"

fun aof_rewrite_value :: "(nat \<Rightarrow> char) \<Rightarrow> nat \<Rightarrow> bytes \<Rightarrow> payload \<Rightarrow> os \<Rightarrow> bool \<times> os" where
  "aof_rewrite_value mem i key (PString x) w = (True, w)"
| "aof_rewrite_value mem i key (PList l) w =
     aw_batches mem i 66 [''RPUSH'', key] (map (\<lambda>x. [x]) (list_vals l)) [''RPUSH'', key] w"
| "aof_rewrite_value mem i key (PHash h) w =
     aw_batches mem i 130 [''HSET'', key] (map (\<lambda>e. [ekey e, evalue e]) (dict_entries h)) [''HSET'', key] w"
| "aof_rewrite_value mem i key (PSet d) w =
     aw_batches mem i 66 [''SADD'', key] (map (\<lambda>e. [ekey e]) (dict_entries d)) [''SADD'', key] w"
| "aof_rewrite_value mem i key (PZset zs) w =
     aw_batches mem i 130 [''ZADD'', key]
       (map (\<lambda>a. [fmt17 (zscore (znode_of (zsl zs) a)), zmember (znode_of (zsl zs) a)]) (zsl_nodes (zsl zs)))
       [''ZADD'', key] w"

definition aof_rewrite_key :: "(nat \<Rightarrow> char) \<Rightarrow> nat \<Rightarrow> bytes \<Rightarrow> robj \<Rightarrow> os \<Rightarrow> bool \<times> os" where
  "aof_rewrite_key mem i key ob w =
     (let expires = (expire_at ob \<ge> 0); expire = show_int (expire_at ob)
      in case ptr ob of
           PString x \<Rightarrow>
             aw_write_command mem i ([''SET'', key, x] @ (if expires then [''PXAT'', expire] else [])) w
         | _ \<Rightarrow>
             (case aof_rewrite_value mem i key (ptr ob) w of (rc, w1) \<Rightarrow>
                if \<not> rc then (False, w1)
                else if expires then aw_write_command mem i [''PEXPIREAT'', key, expire] w1
                else (True, w1)))"

fun aof_rewrite_loop :: "(nat \<Rightarrow> char) \<Rightarrow> nat \<Rightarrow> robj dict_entry list \<Rightarrow> os \<Rightarrow> bool \<times> os" where
  "aof_rewrite_loop mem i [] w = (True, w)"
| "aof_rewrite_loop mem i (e # es) w =
     (case aof_rewrite_key mem i (ekey e) (evalue e) w of (rc, w1) \<Rightarrow>
        if \<not> rc then (False, w1) else aof_rewrite_loop mem i es w1)"

definition aof_tmp :: "bytes \<Rightarrow> bytes" where
  "aof_tmp path = path @ ''.rewrite.tmp''"

definition aof_rewrite :: "(nat \<Rightarrow> char) \<Rightarrow> bytes \<Rightarrow> robj dict \<Rightarrow> os \<Rightarrow> bool \<times> os" where
  "aof_rewrite mem path d w =
     (case open_trunc (aof_tmp path) w of
        (None, w1) \<Rightarrow> (False, w1)
      | (Some i, w1) \<Rightarrow>
          (case aof_rewrite_loop mem i (dict_entries d) w1 of (rc, w2) \<Rightarrow>
             sync_and_rename (aof_tmp path) path rc w2))"

section \<open>What is written\<close>

lemma resp_arg_ok [simp]:
  assumes "dynbuf_ok b"
  shows "dynbuf_ok (resp_arg mem b a)" "contents (resp_arg mem b a) = contents b @ bulk_frame a"
  using assms
  by (simp_all add: resp_arg_def bulk_frame_def dynbuf_append_cstr_def ob.append_bytes ob.append_bytes_invar
      ob.append_text ob.append_text_invar)

lemma command_to_resp_ok [simp]:
  assumes "dynbuf_ok b"
  shows "dynbuf_ok (command_to_resp mem argv b)" "contents (command_to_resp mem argv b) = contents b @ resp_frame argv"
  using foldl_append [of "resp_arg mem" bulk_frame "dynbuf_appendf mem b (CHR ''*'' # show_nat (length argv) @ crlf)" argv] assms
  by (simp_all add: command_to_resp_def resp_frame_def ob.append_text ob.append_text_invar)

lemma frame_of_command [simp]: "contents (command_to_resp mem argv dynbuf_init) = resp_frame argv"
  by (simp add: dynbuf_init_ok)

text \<open>The commands that a rewrite puts into the log.\<close>

fun batches :: "nat \<Rightarrow> bytes list \<Rightarrow> bytes list list \<Rightarrow> bytes list \<Rightarrow> command list" where
  "batches cap base [] argv = (if length argv > 2 then [argv] else [])"
| "batches cap base (item # items) argv =
     (if length argv + length item > cap then argv # batches cap base items (base @ item)
      else batches cap base items (argv @ item))"

fun value_cmds :: "bytes \<Rightarrow> payload \<Rightarrow> command list" where
  "value_cmds key (PString x) = []"
| "value_cmds key (PList l) = batches 66 [''RPUSH'', key] (map (\<lambda>x. [x]) (list_vals l)) [''RPUSH'', key]"
| "value_cmds key (PHash h) =
     batches 130 [''HSET'', key] (map (\<lambda>p. [fst p, snd p]) (map pair_of (dict_entries h))) [''HSET'', key]"
| "value_cmds key (PSet d) = batches 66 [''SADD'', key] (map (\<lambda>x. [x]) (map ekey (dict_entries d))) [''SADD'', key]"
| "value_cmds key (PZset zs) =
     batches 130 [''ZADD'', key] (map (\<lambda>p. [fmt17 (snd p), fst p]) (zset_items zs)) [''ZADD'', key]"

definition key_cmds :: "bytes \<times> robj \<Rightarrow> command list" where
  "key_cmds p =
     (case ptr (snd p) of
        PString x \<Rightarrow>
          [[''SET'', fst p, x] @ (if expire_at (snd p) \<ge> 0 then [''PXAT'', show_int (expire_at (snd p))] else [])]
      | v \<Rightarrow>
          value_cmds (fst p) v @
          (if expire_at (snd p) \<ge> 0 then [[''PEXPIREAT'', fst p, show_int (expire_at (snd p))]] else []))"

definition rewrite_cmds :: "robj dict \<Rightarrow> command list" where
  "rewrite_cmds d = concat (map key_cmds (rdb_keys d))"

definition frames :: "command list \<Rightarrow> bytes" where
  "frames cmds = concat (map resp_frame cmds)"

lemma frames_simps [simp]:
  "frames [] = []" "frames (c # cs) = resp_frame c @ frames cs" "frames (cs @ ds) = frames cs @ frames ds"
  by (simp_all add: frames_def)

text \<open>A writer appends the frames of its commands to the file, all of them if it succeeds.\<close>

definition writes :: "nat \<Rightarrow> (os \<Rightarrow> bool \<times> os) \<Rightarrow> command list \<Rightarrow> bool" where
  "writes i f cmds = (\<forall>w. (\<exists>bs. appends i bs w (snd (f w)) \<and> (fst (f w) \<longrightarrow> bs = frames cmds)) \<and> (healthy w \<longrightarrow> fst (f w)))"

lemma writes_none: "writes i (\<lambda>w. (True, w)) []"
  using appends_refl by (auto simp: writes_def)

lemma writes_command: "writes i (aw_write_command mem i argv) [argv]"
  unfolding writes_def
proof
  fix w
  obtain rc w' where f: "aw_write_command mem i argv w = (rc, w')" by fastforce
  then show "(\<exists>bs. appends i bs w (snd (aw_write_command mem i argv w)) \<and>
      (fst (aw_write_command mem i argv w) \<longrightarrow> bs = frames [argv])) \<and>
      (healthy w \<longrightarrow> fst (aw_write_command mem i argv w))"
    using write_file_appends [of i "resp_frame argv" w rc w'] write_file_healthy [of w i "resp_frame argv"]
    by (auto simp: aw_write_command_def)
qed

lemma writes_seq:
  assumes "writes i f cs" "writes i g ds"
  shows "writes i (\<lambda>w. case f w of (rc, w1) \<Rightarrow> if \<not> rc then (False, w1) else g w1) (cs @ ds)"
  unfolding writes_def
proof
  fix w
  obtain bs where "appends i bs w (snd (f w))" "fst (f w) \<longrightarrow> bs = frames cs" using assms(1) by (auto simp: writes_def)
  moreover obtain b2 where "appends i b2 (snd (f w)) (snd (g (snd (f w))))" "fst (g (snd (f w))) \<longrightarrow> b2 = frames ds"
    using assms(2) unfolding writes_def by blast
  ultimately have "\<exists>bs. appends i bs w (snd (case f w of (rc, w1) \<Rightarrow> if \<not> rc then (False, w1) else g w1)) \<and>
      (fst (case f w of (rc, w1) \<Rightarrow> if \<not> rc then (False, w1) else g w1) \<longrightarrow> bs = frames (cs @ ds))"
    using appends_trans by (fastforce simp: split_def)
  moreover have "fst (case f w of (rc, w1) \<Rightarrow> if \<not> rc then (False, w1) else g w1)" if "healthy w"
  proof -
    have "same_calls w (snd (f w))" "fst (f w)" using assms(1) that by (auto simp: writes_def appends_def)
    then have "fst (g (snd (f w)))" using assms(2) same_calls_healthy that by (auto simp: writes_def)
    then show ?thesis using \<open>fst (f w)\<close> by (simp add: split_def)
  qed
  ultimately show "(\<exists>bs. appends i bs w (snd (case f w of (rc, w1) \<Rightarrow> if \<not> rc then (False, w1) else g w1)) \<and>
      (fst (case f w of (rc, w1) \<Rightarrow> if \<not> rc then (False, w1) else g w1) \<longrightarrow> bs = frames (cs @ ds))) \<and>
      (healthy w \<longrightarrow> fst (case f w of (rc, w1) \<Rightarrow> if \<not> rc then (False, w1) else g w1))"
    by blast
qed

lemma writes_batches: "writes i (aw_batches mem i cap base items argv) (batches cap base items argv)"
proof (induction items arbitrary: argv)
  case Nil
  have "aw_batches mem i cap base [] argv = (\<lambda>w. if length argv > 2 then aw_write_command mem i argv w else (True, w))"
    by (simp add: fun_eq_iff)
  then show ?case using writes_none writes_command by (cases "length argv > 2") simp_all
next
  case (Cons item items)
  let ?rest = "aw_batches mem i cap base items"
  show ?case
  proof (cases "length argv + length item > cap")
    case True
    then have "aw_batches mem i cap base (item # items) argv =
        (\<lambda>w. case aw_write_command mem i argv w of (rc, w1) \<Rightarrow> if \<not> rc then (False, w1) else ?rest (base @ item) w1)"
      by (simp add: fun_eq_iff)
    then show ?thesis using True writes_seq [OF writes_command [of i mem argv] Cons.IH [of "base @ item"]] by simp
  next
    case False
    then have "aw_batches mem i cap base (item # items) argv = ?rest (argv @ item)" by (simp add: fun_eq_iff)
    then show ?thesis using False Cons.IH by simp
  qed
qed

lemma rewrite_value_eqs:
  "aof_rewrite_value mem i key (PString x) = (\<lambda>w. (True, w))"
  "aof_rewrite_value mem i key (PList l) =
     aw_batches mem i 66 [''RPUSH'', key] (map (\<lambda>x. [x]) (list_vals l)) [''RPUSH'', key]"
  "aof_rewrite_value mem i key (PHash h) =
     aw_batches mem i 130 [''HSET'', key] (map (\<lambda>p. [fst p, snd p]) (map pair_of (dict_entries h))) [''HSET'', key]"
  "aof_rewrite_value mem i key (PSet d) =
     aw_batches mem i 66 [''SADD'', key] (map (\<lambda>x. [x]) (map ekey (dict_entries d))) [''SADD'', key]"
  "aof_rewrite_value mem i key (PZset zs) =
     aw_batches mem i 130 [''ZADD'', key] (map (\<lambda>p. [fmt17 (snd p), fst p]) (zset_items zs)) [''ZADD'', key]"
  by (simp_all add: fun_eq_iff comp_def pair_of_def zset_items_def node_item_def)

lemma writes_value: "writes i (aof_rewrite_value mem i key p) (value_cmds key p)"
  by (cases p) (simp_all only: rewrite_value_eqs value_cmds.simps writes_none writes_batches)

lemma writes_key: "writes i (aof_rewrite_key mem i key ob) (key_cmds (key, ob))"
proof (cases "\<exists>x. ptr ob = PString x")
  case True
  then obtain x where "ptr ob = PString x" by blast
  then have "aof_rewrite_key mem i key ob = aw_write_command mem i
      ([''SET'', key, x] @ (if expire_at ob \<ge> 0 then [''PXAT'', show_int (expire_at ob)] else []))"
    by (simp add: aof_rewrite_key_def fun_eq_iff Let_def)
  then show ?thesis
    using writes_command [of i mem "[''SET'', key, x] @ (if expire_at ob \<ge> 0 then [''PXAT'', show_int (expire_at ob)] else [])"]
      \<open>ptr ob = PString x\<close>
    by (simp only: key_cmds_def snd_conv fst_conv payload.case)
next
  case False
  let ?ex = "\<lambda>w. if expire_at ob \<ge> 0 then aw_write_command mem i [''PEXPIREAT'', key, show_int (expire_at ob)] w else (True, w)"
  let ?exc = "if expire_at ob \<ge> 0 then [[''PEXPIREAT'', key, show_int (expire_at ob)]] else []"
  have "aof_rewrite_key mem i key ob =
      (\<lambda>w. case aof_rewrite_value mem i key (ptr ob) w of (rc, w1) \<Rightarrow> if \<not> rc then (False, w1) else ?ex w1)"
    using False by (cases "ptr ob") (auto simp: aof_rewrite_key_def fun_eq_iff Let_def split_def)
  moreover have "key_cmds (key, ob) = value_cmds key (ptr ob) @ ?exc"
    using False by (cases "ptr ob") (simp_all add: key_cmds_def)
  moreover have "writes i ?ex ?exc" using writes_none writes_command by (cases "expire_at ob \<ge> 0") simp_all
  ultimately show ?thesis using writes_seq [OF writes_value] by simp
qed

lemma writes_loop: "writes i (aof_rewrite_loop mem i es) (concat (map key_cmds (map pair_of es)))"
proof (induction es)
  case Nil
  have "aof_rewrite_loop mem i [] = (\<lambda>w. (True, w))" by (simp add: fun_eq_iff)
  then show ?case using writes_none by simp
next
  case (Cons e es)
  have "aof_rewrite_loop mem i (e # es) = (\<lambda>w. case aof_rewrite_key mem i (ekey e) (evalue e) w of (rc, w1) \<Rightarrow>
      if \<not> rc then (False, w1) else aof_rewrite_loop mem i es w1)"
    by (simp add: fun_eq_iff)
  then show ?case using writes_seq [OF writes_key [of i mem "ekey e" "evalue e"] Cons.IH] by (simp add: pair_of_def)
qed

section \<open>Properties\<close>

lemma open_trunc_None: "open_trunc path w = (None, w1) \<Longrightarrow> w1 = snd (sys_call w)"
  by (auto simp: open_trunc_def create_file_def split_def split: if_splits option.splits)

lemma sys_call_files [simp]: "os_ok (snd (sys_call w)) = os_ok w" "file_at p (snd (sys_call w)) = file_at p w"
  by (simp_all add: os_ok_def file_at_def)

lemma tmp_names [simp]: "rdb_tmp path \<noteq> path" "aof_tmp path \<noteq> path"
  by (simp_all add: rdb_tmp_def aof_tmp_def)

text \<open>The file at \<open>path\<close> replaced through \<open>tmp\<close>; a file open elsewhere keeps its bytes.\<close>

definition replaced :: "bytes \<Rightarrow> bytes \<Rightarrow> bytes \<Rightarrow> bool \<Rightarrow> os \<Rightarrow> os \<Rightarrow> bool" where
  "replaced tmp path bs rc w w' =
     (os_ok w' \<and> file_at path w' = (if rc then Some bs else file_at path w) \<and>
      (\<forall>p. p \<noteq> path \<longrightarrow> p \<noteq> tmp \<longrightarrow> file_at p w' = file_at p w) \<and>
      (\<forall>j. j < next_ino w \<longrightarrow> names w tmp \<noteq> Some j \<longrightarrow> inodes w' j = inodes w j) \<and> next_ino w \<le> next_ino w' \<and>
      (\<forall>p. p \<noteq> path \<longrightarrow> p \<noteq> tmp \<longrightarrow> names w' p = names w p) \<and> (rc \<longleftrightarrow> names w' path \<noteq> names w path) \<and>
      same_calls w w' \<and> (healthy w \<longrightarrow> rc))"

lemma not_replaced: "os_ok w \<Longrightarrow> \<not> healthy w \<Longrightarrow> replaced tmp path bs False w (snd (sys_call w))"
  by (simp add: replaced_def)

lemma replacedI:
  assumes "os_ok w" "tmp \<noteq> path" "open_trunc tmp w = (Some i, w1)" "appends i bs w1 w2"
    "sync_and_rename tmp path full w2 = (rc, w3)" "full \<Longrightarrow> bs = cs"
    "healthy w \<Longrightarrow> full"
  shows "replaced tmp path cs rc w w3"
  using replace_file [OF assms(1-5)] assms(6,7) unfolding replaced_def by (cases rc) (simp_all, blast)

lemma aof_rewrite_ok:
  assumes "os_ok w" "aof_rewrite mem path d w = (rc, w')"
  shows "replaced (aof_tmp path) path (frames (rewrite_cmds d)) rc w w'"
proof (cases "open_trunc (aof_tmp path) w")
  case (Pair fd w1)
  show ?thesis
  proof (cases fd)
    case None
    then have "\<not> rc" "w' = snd (sys_call w)"
      using assms(2) Pair open_trunc_None [of "aof_tmp path" w w1] by (auto simp: aof_rewrite_def)
    moreover have "\<not> healthy w" using open_trunc_sick Pair None by blast
    ultimately show ?thesis using assms(1) not_replaced by simp
  next
    case (Some i)
    obtain full w2 where l: "aof_rewrite_loop mem i (dict_entries d) w1 = (full, w2)" by fastforce
    obtain bs where "appends i bs w1 w2" "full \<longrightarrow> bs = frames (rewrite_cmds d)" "healthy w1 \<longrightarrow> full"
      using writes_loop [of i mem "dict_entries d"] l unfolding writes_def rewrite_cmds_def rdb_keys_def
      by (metis fst_conv snd_conv)
    moreover have "healthy w1 = healthy w"
      using open_trunc_ok(7) [OF Pair [unfolded Some] assms(1)] by (rule same_calls_healthy)
    moreover have "sync_and_rename (aof_tmp path) path full w2 = (rc, w')"
      using assms(2) Pair Some l by (simp add: aof_rewrite_def)
    ultimately show ?thesis using replacedI [OF assms(1) tmp_names(2) Pair [unfolded Some]] by blast
  qed
qed

lemma rdb_save_ok:
  assumes "os_ok w" "rdb_save mem path d w = (rc, w')"
  shows "replaced (rdb_tmp path) path (rdb_image d) rc w w'"
proof (cases "open_trunc (rdb_tmp path) w")
  case (Pair fd w1)
  show ?thesis
  proof (cases fd)
    case None
    then have "\<not> rc" "w' = snd (sys_call w)"
      using assms(2) Pair open_trunc_None [of "rdb_tmp path" w w1] by (auto simp: rdb_save_def Let_def)
    moreover have "\<not> healthy w" using open_trunc_sick Pair None by blast
    ultimately show ?thesis using assms(1) not_replaced by simp
  next
    case (Some i)
    obtain full w2 where l: "write_file i (rdb_image d) w1 = (full, w2)" by fastforce
    obtain bs where bs: "appends i bs w1 w2" "prefix bs (rdb_image d)" "full \<longrightarrow> bs = rdb_image d"
      using write_file_appends [OF l] by blast
    have "sync_and_rename (rdb_tmp path) path full w2 = (rc, w')"
      using assms(2) Pair Some l rdb_buffer_ok by (simp add: rdb_save_def Let_def)
    moreover have "healthy w \<longrightarrow> full"
      using open_trunc_ok(7) [OF Pair [unfolded Some] assms(1)] write_file_healthy [of w1 i "rdb_image d"] l
      by (simp add: same_calls_healthy)
    ultimately show ?thesis using replacedI [OF assms(1) tmp_names(1) Pair [unfolded Some] bs(1)] bs(3) by blast
  qed
qed

text \<open>
  C9. Saving a snapshot is atomic, whatever calls of the system fail or are cut short: if it
  reports success the path names the complete image of the keyspace, otherwise the file that was
  there is unchanged, and no other file is affected but the temporary one.
\<close>

theorem rdb_save_atomic:
  assumes "os_ok w" "rdb_save mem path d w = (rc, w')"
  shows "os_ok w' \<and> file_at path w' = (if rc then Some (rdb_image d) else file_at path w) \<and>
    (p \<noteq> path \<and> p \<noteq> rdb_tmp path \<longrightarrow> file_at p w' = file_at p w)"
  using rdb_save_ok [OF assms] by (simp add: replaced_def)

text \<open>
  C10. Rewriting the log is atomic in the same way: on success the path names a log of exactly the
  commands that rebuild the keyspace, otherwise the old log is still there as it was.
\<close>

theorem aof_rewrite_atomic:
  assumes "os_ok w" "aof_rewrite mem path d w = (rc, w')"
  shows "os_ok w' \<and> file_at path w' = (if rc then Some (frames (rewrite_cmds d)) else file_at path w) \<and>
    (p \<noteq> path \<and> p \<noteq> aof_tmp path \<longrightarrow> file_at p w' = file_at p w)"
  using aof_rewrite_ok [OF assms] by (simp add: replaced_def)

text \<open>A file system in which the third call, the \<open>fsync\<close> of the new file, fails.\<close>

definition bad_sync :: os where
  "bad_sync = \<lparr>names = [''db'' \<mapsto> 0], inodes = (\<lambda>_. ''old''), next_ino = 1, sys_ok = (\<lambda>i. i \<noteq> 2),
     sys_writes = (\<lambda>_. []), sys_pos = 0\<rparr>"

lemma bad_sync_ok: "os_ok bad_sync" "file_at ''db'' bad_sync = Some ''old''"
  by (auto simp: bad_sync_def os_ok_def file_at_def split: if_splits)

theorem rdb_save_atomic_witness:
  "fst (rdb_save (\<lambda>_. CHR 0x00) ''db'' (store rdb_demo) bad_sync) = False \<and>
   file_at ''db'' (snd (rdb_save (\<lambda>_. CHR 0x00) ''db'' (store rdb_demo) bad_sync)) = Some ''old''"
proof -
  obtain rc w where r: "rdb_save (\<lambda>_. CHR 0x00) ''db'' (store rdb_demo) bad_sync = (rc, w)" by fastforce
  then have "\<not> rc"
    by (auto simp: rdb_save_def open_trunc_def sys_call_def create_file_def write_file_def sync_and_rename_def
        rename_file_def bad_sync_def rdb_tmp_def Let_def split: if_splits)
  then show ?thesis using rdb_save_atomic [OF bad_sync_ok(1) r] bad_sync_ok(2) r by simp
qed

theorem aof_rewrite_atomic_witness:
  "file_at ''db'' (snd (aof_rewrite (\<lambda>_. CHR 0x00) ''db'' (dict_create []) bad_sync)) =
   (if fst (aof_rewrite (\<lambda>_. CHR 0x00) ''db'' (dict_create []) bad_sync)
    then Some (frames (rewrite_cmds (dict_create []))) else Some ''old'')"
proof -
  obtain rc w where r: "aof_rewrite (\<lambda>_. CHR 0x00) ''db'' (dict_create []) bad_sync = (rc, w)" by fastforce
  then show ?thesis using aof_rewrite_atomic [OF bad_sync_ok(1) r] bad_sync_ok(2) by simp
qed

end
