(* ===== verification/Dispatch.thy ===== *)
theory Dispatch
  imports Persist Db_String Db_List Db_Hash Db_Set Db_Zset
begin

text \<open>
  \<open>dispatch_command\<close> of \<open>src/db.c\<close> with its table of commands, and the handlers that reach the files:
  \<open>SAVE\<close>, \<open>BGSAVE\<close>, \<open>REWRITEAOF\<close> and \<open>BGREWRITEAOF\<close>. Whether \<open>fork\<close> succeeds is the next outcome of
  the system.
\<close>

section \<open>Handlers on the server\<close>

definition on_db :: "(command \<Rightarrow> st \<Rightarrow> st) \<Rightarrow> command \<Rightarrow> srv \<Rightarrow> srv" where
  "on_db f argv s = s\<lparr>cur := f argv (cur s)\<rparr>"

definition answer :: "(st \<Rightarrow> st) \<Rightarrow> srv \<Rightarrow> srv" where
  "answer f s = s\<lparr>cur := f (cur s)\<rparr>"

definition cmd_save :: "command \<Rightarrow> srv \<Rightarrow> srv" where
  "cmd_save argv s =
     (if length argv \<noteq> 1 then answer (reply_error (wrong_args ''save'')) s
      else case g_rdb_path s of
        None \<Rightarrow> answer (reply_error ''SAVE requires --rdb FILE at startup'') s
      | Some path \<Rightarrow>
          (case rdb_save (junk (cur s)) path (store (cur s)) (os s) of (rc, w) \<Rightarrow>
             if \<not> rc then answer (reply_error ''could not save RDB snapshot'') (s\<lparr>os := w\<rparr>)
             else answer (reply_simple ''OK'') (s\<lparr>os := w\<rparr>)))"

definition cmd_bgsave :: "command \<Rightarrow> srv \<Rightarrow> srv" where
  "cmd_bgsave argv s =
     (if length argv \<noteq> 1 then answer (reply_error (wrong_args ''bgsave'')) s
      else case g_rdb_path s of
        None \<Rightarrow> answer (reply_error ''BGSAVE requires --rdb FILE at startup'') s
      | Some path \<Rightarrow>
          (case sys_call (os s) of (forked, w) \<Rightarrow>
             if \<not> forked then answer (reply_error ''fork failed: could not start background save'') (s\<lparr>os := w\<rparr>)
             else answer (reply_simple ''Background saving started'')
                    (s\<lparr>os := w, children := children s @ [Child_save (store (cur s))]\<rparr>)))"

definition cmd_rewriteaof :: "command \<Rightarrow> srv \<Rightarrow> srv" where
  "cmd_rewriteaof argv s =
     (if length argv \<noteq> 1 then answer (reply_error (wrong_args ''rewriteaof'')) s
      else case g_aof_path s of
        None \<Rightarrow> answer (reply_error ''REWRITEAOF requires --aof FILE at startup'') s
      | Some path \<Rightarrow>
          (case aof_rewrite (junk (cur s)) path (store (cur s)) (os s) of (rc, w) \<Rightarrow>
             if \<not> rc then answer (reply_error ''could not rewrite AOF'') (s\<lparr>os := w\<rparr>)
             else case aof_reopen (s\<lparr>os := w\<rparr>) of (rc1, s1) \<Rightarrow>
               if \<not> rc1 then answer (reply_error ''could not reopen AOF after rewrite'') s1
               else answer (reply_simple ''OK'') s1))"

definition cmd_bgrewriteaof :: "command \<Rightarrow> srv \<Rightarrow> srv" where
  "cmd_bgrewriteaof argv s =
     (if length argv \<noteq> 1 then answer (reply_error (wrong_args ''bgrewriteaof'')) s
      else case g_aof_path s of
        None \<Rightarrow> answer (reply_error ''BGREWRITEAOF requires --aof FILE at startup'') s
      | Some path \<Rightarrow>
          if g_aof_rewriting s
          then answer (reply_error ''Background append only file rewriting already in progress'') s
          else case sys_call (os s) of (forked, w) \<Rightarrow>
             if \<not> forked then answer (reply_error ''fork failed: could not start background rewrite'') (s\<lparr>os := w\<rparr>)
             else answer (reply_simple ''Background append only file rewriting started'')
                    (s\<lparr>os := w, children := children s @ [Child_rewrite (store (cur s))], g_aof_rewriting := True\<rparr>))"

section \<open>The table\<close>

record cmd_entry =
  cname :: bytes
  is_write :: bool
  cfn :: "command \<Rightarrow> srv \<Rightarrow> srv"

definition entry :: "bytes \<Rightarrow> bool \<Rightarrow> (command \<Rightarrow> srv \<Rightarrow> srv) \<Rightarrow> cmd_entry" where
  "entry n w f = \<lparr>cname = n, is_write = w, cfn = f\<rparr>"

definition commands :: "cmd_entry list" where
  "commands =
     [entry ''ping'' False (on_db cmd_ping),
      entry ''echo'' False (on_db cmd_echo),
      entry ''select'' False (on_db cmd_select),
      entry ''quit'' False (on_db cmd_quit),
      entry ''set'' True (on_db cmd_set),
      entry ''get'' False (on_db cmd_get),
      entry ''del'' True (on_db cmd_del),
      entry ''exists'' False (on_db cmd_exists),
      entry ''incr'' True (on_db cmd_incr),
      entry ''decr'' True (on_db cmd_decr),
      entry ''mget'' False (on_db cmd_mget),
      entry ''mset'' True (on_db cmd_mset),
      entry ''append'' True (on_db cmd_append),
      entry ''strlen'' False (on_db cmd_strlen),
      entry ''getrange'' False (on_db cmd_getrange),
      entry ''setrange'' True (on_db cmd_setrange),
      entry ''rename'' True (on_db cmd_rename),
      entry ''setnx'' True (on_db cmd_setnx),
      entry ''setex'' True (on_db cmd_setex),
      entry ''getset'' True (on_db cmd_getset),
      entry ''expire'' True (on_db cmd_expire),
      entry ''pexpire'' True (on_db cmd_pexpire),
      entry ''expireat'' True (on_db cmd_expireat),
      entry ''pexpireat'' True (on_db cmd_pexpireat),
      entry ''ttl'' False (on_db cmd_ttl),
      entry ''pttl'' False (on_db cmd_pttl),
      entry ''type'' False (on_db cmd_type),
      entry ''lpush'' True (on_db cmd_lpush),
      entry ''rpush'' True (on_db cmd_rpush),
      entry ''lpushx'' True (on_db cmd_lpushx),
      entry ''rpushx'' True (on_db cmd_rpushx),
      entry ''lpop'' True (on_db cmd_lpop),
      entry ''rpop'' True (on_db cmd_rpop),
      entry ''llen'' False (on_db cmd_llen),
      entry ''lrange'' False (on_db cmd_lrange),
      entry ''lindex'' False (on_db cmd_lindex),
      entry ''lset'' True (on_db cmd_lset),
      entry ''ltrim'' True (on_db cmd_ltrim),
      entry ''lrem'' True (on_db cmd_lrem),
      entry ''linsert'' True (on_db cmd_linsert),
      entry ''hset'' True (on_db cmd_hset),
      entry ''hmset'' True (on_db cmd_hmset),
      entry ''hget'' False (on_db cmd_hget),
      entry ''hmget'' False (on_db cmd_hmget),
      entry ''hgetall'' False (on_db cmd_hgetall),
      entry ''hkeys'' False (on_db cmd_hkeys),
      entry ''hvals'' False (on_db cmd_hvals),
      entry ''hlen'' False (on_db cmd_hlen),
      entry ''hexists'' False (on_db cmd_hexists),
      entry ''hdel'' True (on_db cmd_hdel),
      entry ''hsetnx'' True (on_db cmd_hsetnx),
      entry ''hincrby'' True (on_db cmd_hincrby),
      entry ''hincrbyfloat'' True (on_db cmd_hincrbyfloat),
      entry ''sadd'' True (on_db cmd_sadd),
      entry ''srem'' True (on_db cmd_srem),
      entry ''sismember'' False (on_db cmd_sismember),
      entry ''scard'' False (on_db cmd_scard),
      entry ''smembers'' False (on_db cmd_smembers),
      entry ''spop'' True (on_db cmd_spop),
      entry ''sinter'' False (on_db cmd_sinter),
      entry ''sunion'' False (on_db cmd_sunion),
      entry ''sdiff'' False (on_db cmd_sdiff),
      entry ''zadd'' True (on_db cmd_zadd),
      entry ''zcard'' False (on_db cmd_zcard),
      entry ''zscore'' False (on_db cmd_zscore),
      entry ''zrem'' True (on_db cmd_zrem),
      entry ''zrange'' False (on_db cmd_zrange),
      entry ''zrevrange'' False (on_db cmd_zrevrange),
      entry ''zrangebyscore'' False (on_db cmd_zrangebyscore),
      entry ''zrank'' False (on_db cmd_zrank),
      entry ''zrevrank'' False (on_db cmd_zrevrank),
      entry ''zincrby'' True (on_db cmd_zincrby),
      entry ''zcount'' False (on_db cmd_zcount),
      entry ''keys'' False (on_db cmd_keys),
      entry ''flushall'' True (on_db cmd_flushall),
      entry ''dbsize'' False (on_db cmd_dbsize),
      entry ''info'' False (on_db cmd_info),
      entry ''command'' False (on_db cmd_command),
      entry ''save'' False cmd_save,
      entry ''bgsave'' False cmd_bgsave,
      entry ''rewriteaof'' False cmd_rewriteaof,
      entry ''bgrewriteaof'' False cmd_bgrewriteaof]"

definition unknown_command :: "bytes \<Rightarrow> bytes" where
  "unknown_command n = ''unknown command '' @ [CHR 0x27] @ n @ [CHR 0x27]"

definition dispatch_command :: "command \<Rightarrow> srv \<Rightarrow> srv" where
  "dispatch_command argv s =
     (if argv = [] then s
      else case find (\<lambda>e. strcaseeq (cname e) (argv ! 0)) commands of
        None \<Rightarrow> answer (reply_error (unknown_command (argv ! 0))) s
      | Some e \<Rightarrow>
          let s1 = (if is_write e \<and> g_aof_fd s \<noteq> None \<and> \<not> g_aof_replaying s
                    then snd (aof_append_command (g_aof_fd s) argv s) else s)
          in cfn e argv s1)"

section \<open>The specifications of the commands\<close>

definition det :: "spec \<Rightarrow> spec_set" where
  "det sp argv now v = {sp argv now v}"

text \<open>\<open>QUIT\<close> and the commands that work on files have none here.\<close>

definition specs :: "(bytes \<times> spec_set option) list" where
  "specs =
     [(''ping'', Some (det spec_ping)),
      (''echo'', Some (det spec_echo)),
      (''select'', Some (det spec_select)),
      (''quit'', None),
      (''set'', Some (det spec_set)),
      (''get'', Some (det spec_get)),
      (''del'', Some spec_del),
      (''exists'', Some (det spec_exists)),
      (''incr'', Some (det (spec_incr 1))),
      (''decr'', Some (det (spec_incr (- 1)))),
      (''mget'', Some (det spec_mget)),
      (''mset'', Some (det spec_mset)),
      (''append'', Some (det spec_append)),
      (''strlen'', Some (det spec_strlen)),
      (''getrange'', Some (det spec_getrange)),
      (''setrange'', Some (det spec_setrange)),
      (''rename'', Some (det spec_rename)),
      (''setnx'', Some (det spec_setnx)),
      (''setex'', Some (det spec_setex)),
      (''getset'', Some (det spec_getset)),
      (''expire'', Some (det (spec_expire False))),
      (''pexpire'', Some (det (spec_expire True))),
      (''expireat'', Some (det (spec_expireat False))),
      (''pexpireat'', Some (det (spec_expireat True))),
      (''ttl'', Some (det (spec_ttl False))),
      (''pttl'', Some (det (spec_ttl True))),
      (''type'', Some (det spec_type)),
      (''lpush'', Some (det (spec_push True False))),
      (''rpush'', Some (det (spec_push False False))),
      (''lpushx'', Some (det (spec_push True True))),
      (''rpushx'', Some (det (spec_push False True))),
      (''lpop'', Some (det (spec_pop True))),
      (''rpop'', Some (det (spec_pop False))),
      (''llen'', Some (det spec_llen)),
      (''lrange'', Some (det spec_lrange)),
      (''lindex'', Some (det spec_lindex)),
      (''lset'', Some (det spec_lset)),
      (''ltrim'', Some (det spec_ltrim)),
      (''lrem'', Some (det spec_lrem)),
      (''linsert'', Some (det spec_linsert)),
      (''hset'', Some (det (spec_hset False))),
      (''hmset'', Some (det (spec_hset True))),
      (''hget'', Some (det spec_hget)),
      (''hmget'', Some (det spec_hmget)),
      (''hgetall'', Some spec_hgetall),
      (''hkeys'', Some (spec_hkeys False)),
      (''hvals'', Some (spec_hkeys True)),
      (''hlen'', Some (det spec_hlen)),
      (''hexists'', Some (det spec_hexists)),
      (''hdel'', Some (det spec_hdel)),
      (''hsetnx'', Some (det spec_hsetnx)),
      (''hincrby'', Some (det spec_hincrby)),
      (''hincrbyfloat'', Some (det spec_hincrbyfloat)),
      (''sadd'', Some (det spec_sadd)),
      (''srem'', Some (det spec_srem)),
      (''sismember'', Some (det spec_sismember)),
      (''scard'', Some (det spec_scard)),
      (''smembers'', Some spec_smembers),
      (''spop'', Some spec_spop),
      (''sinter'', Some spec_sinter),
      (''sunion'', Some spec_sunion),
      (''sdiff'', Some spec_sdiff),
      (''zadd'', Some (det spec_zadd)),
      (''zcard'', Some (det spec_zcard)),
      (''zscore'', Some (det spec_zscore)),
      (''zrem'', Some (det spec_zrem)),
      (''zrange'', Some (spec_zrange False)),
      (''zrevrange'', Some (spec_zrange True)),
      (''zrangebyscore'', Some spec_zrangebyscore),
      (''zrank'', Some (det (spec_zrank False ''zrank''))),
      (''zrevrank'', Some (det (spec_zrank True ''zrevrank''))),
      (''zincrby'', Some (det spec_zincrby)),
      (''zcount'', Some (det spec_zcount)),
      (''keys'', Some spec_keys),
      (''flushall'', Some (det spec_flushall)),
      (''dbsize'', Some spec_dbsize),
      (''info'', Some spec_info),
      (''command'', Some (det spec_command)),
      (''save'', None),
      (''bgsave'', None),
      (''rewriteaof'', None),
      (''bgrewriteaof'', None)]"

definition meets :: "cmd_entry \<Rightarrow> bytes \<times> spec_set option \<Rightarrow> bool" where
  "meets e p =
     (cname e = fst p \<and>
      (case snd p of
         Some sp \<Rightarrow> \<exists>f. cfn e = on_db f \<and> allows f sp
       | None \<Rightarrow> cfn e \<in> {on_db cmd_quit, cmd_save, cmd_bgsave, cmd_rewriteaof, cmd_bgrewriteaof}))"

lemma allows_det: "implements cmd sp \<Longrightarrow> allows cmd (det sp)"
  unfolding det_def by (rule implements_allows)

lemma meets_db: "allows f sp \<Longrightarrow> meets (entry n w (on_db f)) (n, Some sp)"
  by (auto simp: meets_def entry_def)

lemma meets_det: "implements f sp \<Longrightarrow> meets (entry n w (on_db f)) (n, Some (det sp))"
  by (intro meets_db allows_det)

lemma meets_other:
  "f \<in> {on_db cmd_quit, cmd_save, cmd_bgsave, cmd_rewriteaof, cmd_bgrewriteaof} \<Longrightarrow> meets (entry n w f) (n, None)"
  by (simp add: meets_def entry_def)

lemmas command_facts =
  implements_ping implements_echo implements_set implements_get implements_append implements_strlen
  implements_getrange implements_setrange implements_rename implements_setnx implements_setex
  implements_getset implements_mget implements_mset implements_exists implements_incr
  implements_expire implements_expireat implements_ttl implements_type implements_flushall
  implements_select implements_command allows_dbsize allows_info allows_del allows_keys
  implements_push implements_pop implements_llen implements_lrange implements_lindex implements_lset
  implements_ltrim implements_lrem implements_linsert implements_hset implements_hget
  implements_hmget allows_hgetall allows_hkeys implements_hlen implements_hexists implements_hdel
  implements_hsetnx implements_hincrby implements_hincrbyfloat implements_sadd implements_srem
  implements_sismember implements_scard allows_sinter allows_sdiff allows_sunion allows_smembers
  allows_spop implements_zcard implements_zscore implements_zrem implements_zadd implements_zincrby
  implements_zrank allows_zrange allows_zrangebyscore implements_zcount

lemmas command_variants =
  cmd_incr_def cmd_decr_def cmd_expire_def cmd_pexpire_def cmd_expireat_def cmd_pexpireat_def
  cmd_ttl_def cmd_pttl_def cmd_lpush_def cmd_rpush_def cmd_lpushx_def cmd_rpushx_def cmd_lpop_def
  cmd_rpop_def cmd_hset_def cmd_hmset_def cmd_hkeys_def cmd_hvals_def cmd_zrank_def cmd_zrevrank_def
  cmd_zrange_def cmd_zrevrange_def

lemma table_meets: "list_all2 meets commands specs"
  unfolding commands_def specs_def
  by (simp add: meets_det meets_db meets_other command_facts command_variants)

lemma find_meets:
  assumes "list_all2 meets es ps"
  shows "find (\<lambda>e. strcaseeq (cname e) n) es = None \<Longrightarrow> find (\<lambda>p. strcaseeq (fst p) n) ps = None"
    and "find (\<lambda>e. strcaseeq (cname e) n) es = Some e \<Longrightarrow>
      \<exists>p. find (\<lambda>p. strcaseeq (fst p) n) ps = Some p \<and> meets e p"
  using assms by (induction rule: list_all2_induct) (auto simp: meets_def split: if_splits)

definition spec_unknown :: spec where
  "spec_unknown argv now v = (err (unknown_command (argv ! 0)), v)"

definition command_spec :: "bytes \<Rightarrow> spec_set option" where
  "command_spec n =
     (case find (\<lambda>p. strcaseeq (fst p) n) specs of None \<Rightarrow> Some (det spec_unknown) | Some p \<Rightarrow> snd p)"

lemma answer_sel [simp]:
  "cur (answer f s) = f (cur s)" "os (answer f s) = os s" "g_aof_fd (answer f s) = g_aof_fd s"
  "g_aof_path (answer f s) = g_aof_path s" "g_rdb_path (answer f s) = g_rdb_path s"
  "g_aof_replaying (answer f s) = g_aof_replaying s" "g_aof_rewriting (answer f s) = g_aof_rewriting s"
  "g_rewrite_buf (answer f s) = g_rewrite_buf s" "children (answer f s) = children s"
  by (simp_all add: answer_def)

lemma on_db_sel [simp]:
  "cur (on_db f argv s) = f argv (cur s)" "os (on_db f argv s) = os s" "g_aof_fd (on_db f argv s) = g_aof_fd s"
  "g_aof_path (on_db f argv s) = g_aof_path s" "g_rdb_path (on_db f argv s) = g_rdb_path s"
  "g_aof_replaying (on_db f argv s) = g_aof_replaying s" "g_aof_rewriting (on_db f argv s) = g_aof_rewriting s"
  "g_rewrite_buf (on_db f argv s) = g_rewrite_buf s" "children (on_db f argv s) = children s"
  by (simp_all add: on_db_def)

lemma aof_append_sel [simp]:
  "cur (snd (aof_append_command fd argv s)) = cur s"
  "g_aof_fd (snd (aof_append_command fd argv s)) = g_aof_fd s"
  "g_aof_path (snd (aof_append_command fd argv s)) = g_aof_path s"
  "g_rdb_path (snd (aof_append_command fd argv s)) = g_rdb_path s"
  "g_aof_replaying (snd (aof_append_command fd argv s)) = g_aof_replaying s"
  "g_aof_rewriting (snd (aof_append_command fd argv s)) = g_aof_rewriting s"
  "children (snd (aof_append_command fd argv s)) = children s"
  by (simp_all add: aof_append_command_def Let_def split: option.split prod.split)

lemma aof_reopen_cur [simp]: "cur (snd (aof_reopen s)) = cur s"
  by (auto simp: aof_reopen_def aof_open_def Let_def split: option.split prod.split)

lemma file_commands_reply:
  assumes "st_ok (cur s)" "f \<in> {on_db cmd_quit, cmd_save, cmd_bgsave, cmd_rewriteaof, cmd_bgrewriteaof}"
  shows "\<exists>r. gives (cur s) ((cur (f argv s))\<lparr>closing := closing (cur s)\<rparr>) (view (cur s)) (encode r)"
proof -
  let ?G = "\<lambda>c. \<exists>r. gives (cur s) (c\<lparr>closing := closing (cur s)\<rparr>) (view (cur s)) (encode r)"
  have e: "?G (reply_error m (cur s))" for m
    using assms(1) by (intro exI [of _ "err m"]) (simp add: gives_def)
  have o: "?G (reply_simple m (cur s))" if "CHR 0x00 \<notin> set m" for m
    using assms(1) that by (intro exI [of _ "RSimple m"]) (simp add: gives_def)
  have q: "?G (cmd_quit argv (cur s))" using cmd_quit_correct(1) [OF assms(1)] by blast
  have r: "cur s1 = cur s" if "aof_reopen (s\<lparr>os := w\<rparr>) = (rc, s1)" for w rc s1
    using aof_reopen_cur [of "s\<lparr>os := w\<rparr>"] that by simp
  from assms(2) q show ?thesis
    by (auto simp: cmd_save_def cmd_bgsave_def cmd_rewriteaof_def cmd_bgrewriteaof_def e o r
        split: option.split prod.split)
qed

text \<open>The server after the command has been logged, and a dispatch by the three cases of the table.\<close>

definition logged :: "cmd_entry \<Rightarrow> command \<Rightarrow> srv \<Rightarrow> srv" where
  "logged e argv s =
     (if is_write e \<and> g_aof_fd s \<noteq> None \<and> \<not> g_aof_replaying s
      then snd (aof_append_command (g_aof_fd s) argv s) else s)"

lemma logged_sel [simp]:
  "cur (logged e argv s) = cur s" "g_aof_fd (logged e argv s) = g_aof_fd s"
  "g_aof_path (logged e argv s) = g_aof_path s" "g_rdb_path (logged e argv s) = g_rdb_path s"
  "g_aof_replaying (logged e argv s) = g_aof_replaying s" "g_aof_rewriting (logged e argv s) = g_aof_rewriting s"
  "children (logged e argv s) = children s"
  by (simp_all add: logged_def)

lemma dispatch_cases:
  assumes "argv \<noteq> []"
  obtains (unknown) "command_spec (argv ! 0) = Some (det spec_unknown)"
      "dispatch_command argv s = answer (reply_error (unknown_command (argv ! 0))) s"
      "find (\<lambda>e. strcaseeq (cname e) (argv ! 0)) commands = None"
    | (db) e f sp where "find (\<lambda>e. strcaseeq (cname e) (argv ! 0)) commands = Some e"
      "command_spec (argv ! 0) = Some sp" "allows f sp"
      "dispatch_command argv s = on_db f argv (logged e argv s)"
    | (other) e where "find (\<lambda>e. strcaseeq (cname e) (argv ! 0)) commands = Some e" "command_spec (argv ! 0) = None"
      "cfn e \<in> {on_db cmd_quit, cmd_save, cmd_bgsave, cmd_rewriteaof, cmd_bgrewriteaof}"
      "dispatch_command argv s = cfn e argv (logged e argv s)"
proof (cases "find (\<lambda>e. strcaseeq (cname e) (argv ! 0)) commands")
  case None
  then show thesis
    using unknown find_meets(1) [OF table_meets None] assms by (simp add: dispatch_command_def command_spec_def)
next
  case (Some e)
  then obtain p where p: "find (\<lambda>p. strcaseeq (fst p) (argv ! 0)) specs = Some p" "meets e p"
    using find_meets(2) [OF table_meets Some] by blast
  have d: "dispatch_command argv s = cfn e argv (logged e argv s)"
    using assms Some by (simp add: dispatch_command_def logged_def Let_def)
  show thesis
  proof (cases "snd p")
    case None
    then show thesis using other [OF Some] p d by (auto simp: command_spec_def meets_def)
  next
    case (Some sp)
    then obtain f where "cfn e = on_db f" "allows f sp" using p(2) by (auto simp: meets_def)
    then show thesis using db [of e sp f] p(1) d Some \<open>find _ commands = Some e\<close> by (auto simp: command_spec_def)
  qed
qed

section \<open>Properties\<close>

lemma dispatch_ok:
  assumes "st_ok (cur s)" "argv \<noteq> []" "command_spec (argv ! 0) = Some sp"
  shows "\<exists>r v. (r, v) \<in> sp argv (clock (cur s)) (view (cur s)) \<and>
    gives (cur s) (cur (dispatch_command argv s)) v (encode r)"
  using assms(2)
proof (cases rule: dispatch_cases [of argv s])
  case unknown
  then show ?thesis using assms by (simp add: det_def spec_unknown_def gives_def)
next
  case (db e f sp')
  then show ?thesis using assms unfolding allows_def by fastforce
qed (use assms in simp)

text \<open>
  C1. A command does what its specification says when it comes through the dispatcher: the name is
  matched without regard to case, the handler of the table meets the specification of that name on
  the keyspace, and an unknown name is answered with an error and changes nothing.
\<close>

theorem dispatch_refines:
  assumes "st_ok (cur s)" "argv \<noteq> []" "command_spec (argv ! 0) = Some sp"
  shows "\<exists>(r, v)\<in>sp argv (clock (cur s)) (view (cur s)).
    gives (cur s) (cur (dispatch_command argv s)) v (encode r)"
  using dispatch_ok [OF assms] by fastforce

text \<open>
  C3. Whatever arrives, the state stays well formed and every command gets exactly one reply: any
  list of arguments, through any branch of any handler, leaves every object of its type intact and
  the output buffer in bounds, and appends the bytes of one reply value; an empty command is
  ignored.
\<close>

theorem dispatch_type_safe:
  assumes "st_ok (cur s)"
  shows "st_ok (cur (dispatch_command argv s)) \<and>
    (if argv = [] then dispatch_command argv s = s
     else \<exists>r. outb (cur (dispatch_command argv s)) = outb (cur s) @ encode r)"
proof (cases "argv = []")
  case False
  from False show ?thesis
  proof (cases rule: dispatch_cases [of argv s])
    case unknown
    then show ?thesis using assms False by auto
  next
    case (db e f sp)
    then obtain r v where "gives (cur s) (cur (dispatch_command argv s)) v (encode r)"
      using assms unfolding allows_def by (metis (no_types, lifting) case_prodE logged_sel(1) on_db_sel(1))
    then show ?thesis using False by (auto simp: gives_def)
  next
    case (other e)
    then obtain r where "gives (cur s) ((cur (dispatch_command argv s))\<lparr>closing := closing (cur s)\<rparr>) (view (cur s)) (encode r)"
      using file_commands_reply [of "logged e argv s" "cfn e" argv] assms by auto
    then show ?thesis using False by (auto simp: gives_def)
  qed
qed (use assms in \<open>simp add: dispatch_command_def\<close>)

text \<open>
  A session of a client: commands at times that do not go back, each served with the clock at its
  time. On the keyspace as the client sees it, time passing removes the keys that expire.
\<close>

definition serve_at :: "int \<Rightarrow> command \<Rightarrow> srv \<Rightarrow> srv" where
  "serve_at t argv s = dispatch_command argv (s\<lparr>cur := (cur s)\<lparr>clock := t\<rparr>\<rparr>)"

fun serve_all :: "(int \<times> command) list \<Rightarrow> srv \<Rightarrow> srv" where
  "serve_all [] s = s"
| "serve_all ((t, argv) # cs) s = serve_all cs (serve_at t argv s)"

definition expire_view :: "int \<Rightarrow> view \<Rightarrow> view" where
  "expire_view t v k =
     (case v k of Some (a, e) \<Rightarrow> if 0 \<le> e \<and> e \<le> t then None else Some (a, e) | None \<Rightarrow> None)"

inductive session :: "int \<Rightarrow> view \<Rightarrow> (int \<times> command) list \<Rightarrow> reply list \<Rightarrow> view \<Rightarrow> bool" where
  session_Nil: "session t v [] [] v"
| session_Cons: "\<lbrakk>t \<le> t'; command_spec (argv ! 0) = Some sp; (r, v1) \<in> sp argv t' (expire_view t' v);
     session t' v1 cs rs v2\<rbrakk> \<Longrightarrow> session t v ((t', argv) # cs) (r # rs) v2"

inductive_cases session_NilE: "session t v [] rs w"

inductive_cases session_ConsE: "session t v ((t', argv) # cs) rs w"

lemma view_later: "t \<le> t' \<Longrightarrow> view_of t' d = expire_view t' (view_of t d)"
  by (auto simp: view_of_def expire_view_def key_expired_def aobj_def fun_eq_iff split: option.split)

lemma clock_update [simp]:
  "st_ok (c\<lparr>clock := t\<rparr>) = st_ok c" "outb (c\<lparr>clock := t\<rparr>) = outb c" "closing (c\<lparr>clock := t\<rparr>) = closing c"
  by (simp_all add: st_ok_def outb_def)

lemma serve_all_session:
  assumes "st_ok (cur s)" "sorted (map fst cs)" "\<forall>c\<in>set cs. clock (cur s) \<le> fst c"
    "\<forall>c\<in>set cs. snd c \<noteq> [] \<and> command_spec (snd c ! 0) \<noteq> None"
  shows "\<exists>rs. session (clock (cur s)) (view (cur s)) cs rs (view (cur (serve_all cs s))) \<and>
    outb (cur (serve_all cs s)) = outb (cur s) @ concat (map encode rs) \<and> st_ok (cur (serve_all cs s))"
  using assms
proof (induction cs arbitrary: s)
  case Nil
  then show ?case by (auto intro: session_Nil)
next
  case (Cons c cs)
  obtain t argv where c: "c = (t, argv)" by fastforce
  let ?s = "s\<lparr>cur := (cur s)\<lparr>clock := t\<rparr>\<rparr>"
  obtain sp where sp: "argv \<noteq> []" "command_spec (argv ! 0) = Some sp" using Cons.prems(4) c by auto
  obtain r v where r: "(r, v) \<in> sp argv t (view (cur ?s))"
    "gives (cur ?s) (cur (dispatch_command argv ?s)) v (encode r)"
    using dispatch_ok [of ?s argv sp] sp Cons.prems(1) by auto
  have v: "view (cur ?s) = expire_view t (view (cur s))"
    using view_later [of "clock (cur s)" t] Cons.prems(3) c by (simp add: view_def)
  let ?s1 = "serve_at t argv s"
  have s1: "st_ok (cur ?s1)" "clock (cur ?s1) = t" "view (cur ?s1) = v" "outb (cur ?s1) = outb (cur s) @ encode r"
    using r(2) by (simp_all add: gives_def serve_at_def)
  then obtain rs where "session t v cs rs (view (cur (serve_all cs ?s1)))"
    "outb (cur (serve_all cs ?s1)) = outb (cur ?s1) @ concat (map encode rs)" "st_ok (cur (serve_all cs ?s1))"
    using Cons.IH [of ?s1] Cons.prems(2,4) c by fastforce
  then show ?case
    using session_Cons [of "clock (cur s)" t argv sp r v "view (cur s)" cs rs] sp r(1) v s1 c Cons.prems(3)
    by (intro exI [of _ "r # rs"]) auto
qed

text \<open>
  C2. From an empty keyspace, any session of commands at times that do not go back behaves as the
  abstract keyspace does: there is a sequence of results allowed by the specifications, one for each
  command, keys disappearing when their time has come, such that the client gets exactly their
  replies in order and the keyspace it can see at the end is the abstract one.
\<close>

theorem session_refines:
  assumes "cur s = db_create now mem sd rn" "sorted (now # map fst cs)"
    "\<forall>c\<in>set cs. snd c \<noteq> [] \<and> command_spec (snd c ! 0) \<noteq> None"
  shows "\<exists>rs. session now Map.empty cs rs (view (cur (serve_all cs s))) \<and>
    outb (cur (serve_all cs s)) = concat (map encode rs) \<and> st_ok (cur (serve_all cs s))"
proof -
  have "st_ok (cur s)" "clock (cur s) = now" "view (cur s) = Map.empty" "outb (cur s) = []"
    using assms(1) db_create_ok by simp_all
  then show ?thesis using serve_all_session [of s cs] assms(2,3) by simp
qed

text \<open>A server without persistence on an empty keyspace, on a system where every call succeeds.\<close>

definition good_os :: os where
  "good_os = \<lparr>names = Map.empty, inodes = (\<lambda>_. []), next_ino = 0, sys_ok = (\<lambda>_. True), sys_writes = (\<lambda>_. []), sys_pos = 0\<rparr>"

definition demo_srv :: srv where
  "demo_srv = \<lparr>cur = demo_st, os = good_os, g_aof_path = None, g_rdb_path = None, g_aof_fd = None,
     g_aof_replaying = False, g_aof_rewriting = False, g_rewrite_buf = dynbuf_init, aof_last_fsync_ms = 0,
     children = [], g_sigchld = False\<rparr>"

lemma command_spec_get: "command_spec ''GET'' = Some (det spec_get)"
proof -
  have "\<not> strcaseeq ''ping'' ''GET''" "\<not> strcaseeq ''echo'' ''GET''" "\<not> strcaseeq ''select'' ''GET''"
    "\<not> strcaseeq ''quit'' ''GET''" "\<not> strcaseeq ''set'' ''GET''" "strcaseeq ''get'' ''GET''"
    by code_simp+
  then show ?thesis by (simp add: command_spec_def specs_def)
qed

theorem dispatch_refines_witness:
  "outb (cur (dispatch_command [''GET'', ''k''] demo_srv)) = encode RNull \<and>
   view (cur (dispatch_command [''GET'', ''k''] demo_srv)) = Map.empty"
  using dispatch_refines [of demo_srv "[''GET'', ''k'']" "det spec_get"] command_spec_get
  by (simp add: demo_srv_def det_def spec_get_def on_string_def gives_def)

theorem dispatch_type_safe_witness:
  "st_ok (cur (dispatch_command [''NOPE''] demo_srv)) \<and>
   (\<exists>r. outb (cur (dispatch_command [''NOPE''] demo_srv)) = encode r)"
  using dispatch_type_safe [of demo_srv "[''NOPE'']"] by (simp add: demo_srv_def)

theorem session_refines_witness:
  "\<exists>r. (r, view (cur (serve_all [(2000, [''GET'', ''k''])] demo_srv))) \<in> det spec_get [''GET'', ''k''] 2000 Map.empty \<and>
     outb (cur (serve_all [(2000, [''GET'', ''k''])] demo_srv)) = encode r"
proof -
  have c: "cur demo_srv = db_create 1000 (\<lambda>_. CHR 0x00) (\<lambda>_. replicate 16 (CHR 0x00)) (\<lambda>_. 0)"
    by (simp add: demo_srv_def demo_st_def)
  have "expire_view 2000 Map.empty = Map.empty" by (simp add: fun_eq_iff expire_view_def)
  then show ?thesis
    using session_refines [OF c, of "[(2000, [''GET'', ''k''])]"] command_spec_get
    by (fastforce elim!: session_ConsE session_NilE)
qed

end
