(* ===== verification/Typed.thy ===== *)
theory Typed
  imports Dispatch
begin

text \<open>
  Type safety of the keyspace: the handlers that work on one type of value, and what they do when
  the key holds another.
\<close>

definition typed_handlers :: "(obj_type \<times> (command \<Rightarrow> st \<Rightarrow> st)) list" where
  "typed_handlers =
     map (Pair OBJ_STRING) [cmd_get, cmd_append, cmd_strlen, cmd_getrange, cmd_setrange, cmd_getset, cmd_incr, cmd_decr] @
     map (Pair OBJ_LIST) [cmd_lpush, cmd_rpush, cmd_lpushx, cmd_rpushx, cmd_lpop, cmd_rpop, cmd_llen, cmd_lrange,
       cmd_lindex, cmd_lset, cmd_ltrim, cmd_lrem, cmd_linsert] @
     map (Pair OBJ_HASH) [cmd_hset, cmd_hmset, cmd_hget, cmd_hmget, cmd_hgetall, cmd_hkeys, cmd_hvals, cmd_hlen,
       cmd_hexists, cmd_hdel, cmd_hsetnx, cmd_hincrby, cmd_hincrbyfloat] @
     map (Pair OBJ_SET) [cmd_sadd, cmd_srem, cmd_sismember, cmd_scard, cmd_smembers, cmd_spop, cmd_sinter, cmd_sunion,
       cmd_sdiff] @
     map (Pair OBJ_ZSET) [cmd_zadd, cmd_zcard, cmd_zscore, cmd_zrem, cmd_zincrby, cmd_zcount, cmd_zrank, cmd_zrevrank,
       cmd_zrange, cmd_zrevrange, cmd_zrangebyscore]"

text \<open>
  An error about the arguments alone (their number, an option, a number that does not parse) is the
  same in every state.
\<close>

definition argument_error :: "(command \<Rightarrow> st \<Rightarrow> st) \<Rightarrow> command \<Rightarrow> reply \<Rightarrow> bool" where
  "argument_error f argv r =
     ((\<exists>m. r = RErr m) \<and> (\<forall>s. st_ok s \<longrightarrow> view (f argv s) = view s \<and> outb (f argv s) = outb s @ encode r))"

text \<open>
  A specification refuses a key of another type: nothing changes, and the reply is the type error
  unless the arguments are refused in every keyspace.
\<close>

definition refuses :: "obj_type \<Rightarrow> spec_set \<Rightarrow> bool" where
  "refuses t sp =
     (\<forall>argv now v a e r w. 2 \<le> length argv \<longrightarrow> v (argv ! 1) = Some (a, e) \<longrightarrow> atype a \<noteq> t \<longrightarrow>
        (r, w) \<in> sp argv now v \<longrightarrow>
        w = v \<and> (r = wrongtype \<or> (\<exists>m. r = RErr m) \<and> (\<forall>now' v'. sp argv now' v' = {(r, v')})))"

definition refused :: "obj_type \<Rightarrow> (command \<Rightarrow> st \<Rightarrow> st) \<Rightarrow> bool" where
  "refused t f =
     (\<forall>argv s a e. st_ok s \<longrightarrow> 2 \<le> length argv \<longrightarrow> view s (argv ! 1) = Some (a, e) \<longrightarrow> atype a \<noteq> t \<longrightarrow>
        view (f argv s) = view s \<and>
        (\<exists>r. outb (f argv s) = outb s @ encode r \<and> (r = wrongtype \<or> argument_error f argv r)))"

lemma refusedI:
  assumes "allows f sp" "refuses t sp"
  shows "refused t f"
  unfolding refused_def
proof (intro allI impI)
  fix argv s a e
  assume s: "st_ok s" "2 \<le> length argv" "view s (argv ! 1) = Some (a, e)" "atype a \<noteq> t"
  then obtain r v where r: "(r, v) \<in> sp argv (clock s) (view s)" "gives s (f argv s) v (encode r)"
    using assms(1) unfolding allows_def by fastforce
  then have v: "v = view s" "r = wrongtype \<or> (\<exists>m. r = RErr m) \<and> (\<forall>now v. sp argv now v = {(r, v)})"
    using assms(2) s(2-4) unfolding refuses_def by blast+
  have "argument_error f argv r" if "\<exists>m. r = RErr m" "\<forall>now v. sp argv now v = {(r, v)}"
  proof -
    have "gives x (f argv x) (view x) (encode r)" if "st_ok x" for x
      using assms(1) [unfolded allows_def, rule_format, OF that, of argv] \<open>\<forall>now v. sp argv now v = {(r, v)}\<close> by simp
    then show ?thesis using that(1) by (simp add: argument_error_def gives_def)
  qed
  then show "view (f argv s) = view s \<and>
      (\<exists>r. outb (f argv s) = outb s @ encode r \<and> (r = wrongtype \<or> argument_error f argv r))"
    using r(2) v by (auto simp: gives_def)
qed

lemmas refused_det = refusedI [OF allows_det]

lemma on_other:
  assumes "v k = Some (a, e)"
  shows "atype a \<noteq> OBJ_STRING \<Longrightarrow> on_string v k n f = (wrongtype, v)"
    and "atype a \<noteq> OBJ_LIST \<Longrightarrow> on_list v k n g = (wrongtype, v)"
    and "atype a \<noteq> OBJ_HASH \<Longrightarrow> on_hash v k n h = (wrongtype, v)"
    and "atype a \<noteq> OBJ_SET \<Longrightarrow> on_set v k n i = (wrongtype, v)"
    and "atype a \<noteq> OBJ_ZSET \<Longrightarrow> on_zset v k n j = (wrongtype, v)"
    and "atype a \<noteq> OBJ_SET \<Longrightarrow> \<not> set_key v k"
    and "atype a \<noteq> OBJ_ZSET \<Longrightarrow> \<not> zset_key v k"
  using assms
  by (cases a; simp add: on_string_def on_list_def on_hash_def on_set_def on_zset_def set_key_def zset_key_def)+

lemma refuses_string:
  "refuses OBJ_STRING (det spec_get)"
  "refuses OBJ_STRING (det spec_append)"
  "refuses OBJ_STRING (det spec_strlen)"
  "refuses OBJ_STRING (det spec_getrange)"
  "refuses OBJ_STRING (det spec_setrange)"
  "refuses OBJ_STRING (det spec_getset)"
  "refuses OBJ_STRING (det (spec_incr d))"
  by (auto simp: refuses_def det_def on_other err_def Let_def
      spec_get_def spec_append_def spec_strlen_def spec_getrange_def spec_setrange_def
      spec_getset_def spec_incr_def
      split: option.splits if_splits prod.splits sum.splits)

lemma refuses_list:
  "refuses OBJ_LIST (det (spec_push h x))"
  "refuses OBJ_LIST (det (spec_pop h))"
  "refuses OBJ_LIST (det spec_llen)"
  "refuses OBJ_LIST (det spec_lrange)"
  "refuses OBJ_LIST (det spec_lindex)"
  "refuses OBJ_LIST (det spec_lset)"
  "refuses OBJ_LIST (det spec_ltrim)"
  "refuses OBJ_LIST (det spec_lrem)"
  "refuses OBJ_LIST (det spec_linsert)"
  by (auto simp: refuses_def det_def on_other err_def Let_def
      spec_push_def spec_pop_def spec_llen_def spec_lrange_def spec_lindex_def spec_lset_def
      spec_ltrim_def spec_lrem_def spec_linsert_def
      split: option.splits if_splits prod.splits sum.splits)

lemma refuses_hash:
  "refuses OBJ_HASH (det (spec_hset b))"
  "refuses OBJ_HASH (det spec_hget)"
  "refuses OBJ_HASH (det spec_hmget)"
  "refuses OBJ_HASH spec_hgetall"
  "refuses OBJ_HASH (spec_hkeys b)"
  "refuses OBJ_HASH (det spec_hlen)"
  "refuses OBJ_HASH (det spec_hexists)"
  "refuses OBJ_HASH (det spec_hdel)"
  "refuses OBJ_HASH (det spec_hsetnx)"
  "refuses OBJ_HASH (det spec_hincrby)"
  "refuses OBJ_HASH (det spec_hincrbyfloat)"
  by (auto simp: refuses_def det_def on_other err_def Let_def
      spec_hset_def spec_hget_def spec_hmget_def spec_hgetall_def spec_hkeys_def spec_hlen_def
      spec_hexists_def spec_hdel_def spec_hsetnx_def spec_hincrby_def spec_hincrbyfloat_def
      split: option.splits if_splits prod.splits sum.splits)

lemma refuses_set:
  "refuses OBJ_SET (det spec_sadd)"
  "refuses OBJ_SET (det spec_srem)"
  "refuses OBJ_SET (det spec_sismember)"
  "refuses OBJ_SET (det spec_scard)"
  "refuses OBJ_SET spec_smembers"
  "refuses OBJ_SET spec_spop"
  by (auto simp: refuses_def det_def on_other err_def Let_def
      spec_sadd_def spec_srem_def spec_sismember_def spec_scard_def spec_smembers_def spec_spop_def
      spop_result_def
      split: option.splits if_splits prod.splits sum.splits)

lemma refuses_multi: "refuses OBJ_SET (spec_multi n f)"
proof -
  have "\<not> all_sets v (drop 1 argv)" if "2 \<le> length argv" "\<not> set_key v (argv ! 1)" for v argv
    using that by (cases argv; cases "tl argv") auto
  then show ?thesis
    by (auto simp: refuses_def spec_multi_def on_other split: if_splits)
qed

lemma refuses_zset:
  "refuses OBJ_ZSET (det spec_zadd)"
  "refuses OBJ_ZSET (det spec_zcard)"
  "refuses OBJ_ZSET (det spec_zscore)"
  "refuses OBJ_ZSET (det spec_zrem)"
  "refuses OBJ_ZSET (det spec_zincrby)"
  "refuses OBJ_ZSET (det spec_zcount)"
  "refuses OBJ_ZSET (det (spec_zrank b n))"
  "refuses OBJ_ZSET (spec_zrange b)"
  "refuses OBJ_ZSET spec_zrangebyscore"
  by (auto simp: refuses_def det_def on_other err_def Let_def
      spec_zadd_def spec_zcard_def spec_zscore_def spec_zrem_def spec_zincrby_def spec_zcount_def
      spec_zrank_def spec_zrange_def spec_zrangebyscore_def
      split: option.splits if_splits prod.splits sum.splits)

lemma refuses_algebra: "refuses OBJ_SET spec_sinter" "refuses OBJ_SET spec_sunion" "refuses OBJ_SET spec_sdiff"
  unfolding spec_sinter_def spec_sunion_def spec_sdiff_def by (rule refuses_multi)+

lemmas refusals = refuses_string refuses_list refuses_hash refuses_set refuses_algebra refuses_zset

lemma typed_refused: "list_all (\<lambda>(t, f). refused t f) typed_handlers"
  unfolding typed_handlers_def
  by (simp add: command_variants, intro conjI;
      (rule refused_det refusedI, rule command_facts, (simp; fail)?, rule refusals))

text \<open>
  C11. A command on a key that holds a value of another type fails without touching the keyspace:
  every one of the 54 handlers for strings, lists, hashes, sets and sorted sets answers \<open>WRONGTYPE\<close>,
  and no key, value or expiration time changes. The one exception are arguments that are wrong in
  themselves, which the handlers check first: they get an error that is the same in every state.
\<close>

theorem wrong_type_refused:
  assumes "(t, f) \<in> set typed_handlers" "st_ok s" "2 \<le> length argv" "view s (argv ! 1) = Some (a, e)" "atype a \<noteq> t"
  shows "view (f argv s) = view s \<and>
    (outb (f argv s) = outb s @ encode wrongtype \<or>
     (\<exists>r. argument_error f argv r \<and> outb (f argv s) = outb s @ encode r))"
proof -
  have "refused t f" using typed_refused assms(1) by (auto simp: list_all_iff)
  then show ?thesis using assms(2-5) unfolding refused_def by blast
qed

theorem wrong_type_refused_witness:
  "view (cmd_lpush [''LPUSH'', ''k'', ''x''] rdb_demo) = view rdb_demo \<and>
   (outb (cmd_lpush [''LPUSH'', ''k'', ''x''] rdb_demo) = outb rdb_demo @ encode wrongtype \<or>
    (\<exists>r. argument_error cmd_lpush [''LPUSH'', ''k'', ''x''] r \<and>
       outb (cmd_lpush [''LPUSH'', ''k'', ''x''] rdb_demo) = outb rdb_demo @ encode r))"
proof -
  have "clock rdb_demo = 1000" by (simp add: rdb_demo_def)
  then have "view rdb_demo ''k'' = Some (AString ''v'', 5000)"
    by (simp add: view_def view_of_def rdb_demo_facts(2) key_expired_def aobj_def)
  moreover have "(OBJ_LIST, cmd_lpush) \<in> set typed_handlers" by (simp add: typed_handlers_def)
  ultimately show ?thesis
    using wrong_type_refused [OF _ rdb_demo_facts(1), of OBJ_LIST cmd_lpush "[''LPUSH'', ''k'', ''x'']"] by simp
qed

end
