(* ===== verification/Replay.thy ===== *)
theory Replay
  imports Typed
begin

text \<open>
  Replaying the append-only file (\<open>aof_replay\<close> of \<open>src/aof.c\<close>): the recorded commands go through the
  normal dispatch with a throwaway client. The clock stands still while a file is replayed.
\<close>

definition reset_client :: "srv \<Rightarrow> srv" where
  "reset_client s = s\<lparr>cur := (cur s)\<lparr>closing := False, out := dynbuf_clear (out (cur s))\<rparr>\<rparr>"

function replay_loop :: "bytes \<Rightarrow> srv \<Rightarrow> int \<times> srv" where
  "replay_loop b s =
     (if b = [] then (0, s)
      else case resp_parse_command b of (consumed, argv) \<Rightarrow>
        if consumed > 0 then replay_loop (drop (nat consumed) b) (reset_client (dispatch_command argv s))
        else if consumed < 0 then (- 1, s)
        else (0, s))"
  by auto
termination by (relation "measure (length \<circ> fst)") auto

declare replay_loop.simps [simp del]

definition aof_replay :: "bytes \<Rightarrow> srv \<Rightarrow> int \<times> srv" where
  "aof_replay path s =
     (case read_file path (os s) of
        (None, w) \<Rightarrow> (- 1, s\<lparr>os := w\<rparr>)
      | (Some b, w) \<Rightarrow>
          if b = [] then (0, s\<lparr>os := w\<rparr>)
          else case replay_loop b (s\<lparr>os := w, g_aof_replaying := True,
                                     cur := (cur s)\<lparr>out := dynbuf_init, closing := False\<rparr>\<rparr>) of
            (rc, s1) \<Rightarrow>
              (rc, s1\<lparr>g_aof_replaying := False, cur := (cur s1)\<lparr>out := out (cur s), closing := closing (cur s)\<rparr>\<rparr>))"

section \<open>Replaying whole frames\<close>

definition replay_step :: "command \<Rightarrow> srv \<Rightarrow> srv" where
  "replay_step argv s = reset_client (dispatch_command (map cstr argv) s)"

text \<open>The length of a frame is handled as an \<open>int\<close>.\<close>

definition loggable :: "command \<Rightarrow> bool" where
  "loggable argv = (frame_ok argv \<and> length (resp_frame argv) < 2 ^ 31)"

lemma parse_loggable:
  "loggable argv \<Longrightarrow> resp_parse_command (resp_frame argv @ after) = (int (length (resp_frame argv)), map cstr argv)"
  by (simp add: loggable_def resp_parse_command_def resp_parse_frame wrap32_id)

lemma replay_frames:
  assumes "\<forall>c\<in>set cmds. loggable c"
  shows "replay_loop (frames cmds @ after) s = replay_loop after (fold replay_step cmds s)"
  using assms
proof (induction cmds arbitrary: s)
  case (Cons c cmds)
  have "replay_loop (resp_frame c @ frames cmds @ after) s = replay_loop (frames cmds @ after) (replay_step c s)"
    using parse_loggable [of c "frames cmds @ after"] Cons.prems
    by (subst replay_loop.simps) (simp add: replay_step_def)
  then show ?case using Cons by simp
qed simp

lemma replay_torn:
  assumes "frame_ok c" "strict_prefix torn (resp_frame c)"
  shows "replay_loop torn s = (0, s)"
proof -
  obtain q where "resp_frame c = torn @ q" "q \<noteq> []" using assms(2) by (auto simp: strict_prefix_def prefix_def)
  then have "resp_parse torn = Need_more"
    using rp.strict_prefix_needs_more [of torn q] resp_parse_frame [OF assms(1), of "[]"] by simp
  then show ?thesis by (subst replay_loop.simps) (simp add: resp_parse_command_cases)
qed

lemma prefix_frames:
  assumes "prefix b (frames cmds)"
  obtains m torn where "m \<le> length cmds" "b = frames (take m cmds) @ torn"
    "torn = [] \<or> m < length cmds \<and> strict_prefix torn (resp_frame (cmds ! m))"
  using assms
proof (induction cmds arbitrary: b thesis)
  case Nil
  then show ?case by simp
next
  case (Cons c cmds)
  show ?case
  proof (cases "prefix (resp_frame c) b")
    case True
    then obtain b' where b: "b = resp_frame c @ b'" by (auto simp: prefix_def)
    then have "prefix b' (frames cmds)" using Cons.prems(2) by simp
    then obtain m torn where "m \<le> length cmds" "b' = frames (take m cmds) @ torn"
      "torn = [] \<or> m < length cmds \<and> strict_prefix torn (resp_frame (cmds ! m))"
      using Cons.IH by blast
    then show ?thesis using Cons.prems(1) [of "Suc m" torn] b by auto
  next
    case False
    then have "strict_prefix b (resp_frame c)"
      using Cons.prems(2) by (auto simp: prefix_append strict_prefix_def)
    then show ?thesis using Cons.prems(1) [of 0 b] by simp
  qed
qed

section \<open>Which commands can be replayed\<close>

text \<open>
  A command that reads leaves the keyspace as it is. A stable one changes a keyspace without
  expirations in a way that depends on neither the time nor any choice.
\<close>

definition readonly :: "spec_set \<Rightarrow> bool" where
  "readonly sp = (\<forall>argv now v r w. (r, w) \<in> sp argv now v \<longrightarrow> w = v)"

definition permanent :: "view \<Rightarrow> bool" where
  "permanent v = (\<forall>k a e. v k = Some (a, e) \<longrightarrow> e < 0)"

definition stable :: "spec_set \<Rightarrow> command \<Rightarrow> bool" where
  "stable sp argv = (\<exists>g. \<forall>now v r w. permanent v \<longrightarrow> (r, w) \<in> sp argv now v \<longrightarrow> w = g v \<and> permanent w)"

lemma permanentD: "permanent v \<Longrightarrow> v k = Some (a, e) \<Longrightarrow> e < 0"
  by (simp add: permanent_def)

lemma permanent_simps [simp]:
  "permanent Map.empty"
  "permanent v \<Longrightarrow> e < 0 \<Longrightarrow> permanent (v(k \<mapsto> (a, e)))"
  "permanent v \<Longrightarrow> permanent (v(k := None))"
  by (simp_all add: permanent_def)

lemma permanent_put [simp]:
  assumes "permanent v" "e < 0"
  shows "permanent (put_list k xs e v)" "permanent (put_hash k h e v)" "permanent (put_set k S e v)"
    "permanent (put_zset k z e v)"
  using assms by (simp_all add: put_list_def put_hash_def put_set_def put_zset_def)

lemma permanent_restrict: "permanent v \<Longrightarrow> permanent (v |` K)"
  by (auto simp: permanent_def restrict_map_def)

lemma permanent_mset: "permanent v \<Longrightarrow> permanent (mset_view kvs v)"
  by (induction kvs v rule: mset_view.induct) simp_all

lemma permanent_on:
  assumes "permanent v" "permanent (snd n)"
  shows "(\<And>x e. e < 0 \<Longrightarrow> permanent (snd (f1 x e))) \<Longrightarrow> permanent (snd (on_string v k n f1))"
    and "(\<And>x e. e < 0 \<Longrightarrow> permanent (snd (f2 x e))) \<Longrightarrow> permanent (snd (on_list v k n f2))"
    and "(\<And>x e. e < 0 \<Longrightarrow> permanent (snd (f3 x e))) \<Longrightarrow> permanent (snd (on_hash v k n f3))"
    and "(\<And>x e. e < 0 \<Longrightarrow> permanent (snd (f4 x e))) \<Longrightarrow> permanent (snd (on_set v k n f4))"
    and "(\<And>x e. e < 0 \<Longrightarrow> permanent (snd (f5 x e))) \<Longrightarrow> permanent (snd (on_zset v k n f5))"
  using assms
  by (auto simp: on_string_def on_list_def on_hash_def on_set_def on_zset_def split: option.split aval.split
      dest: permanentD)

lemma stable_readonly: "readonly sp \<Longrightarrow> stable sp argv"
  unfolding stable_def readonly_def by (intro exI [of _ "\<lambda>v. v"]) blast

lemma stable_det:
  assumes "\<And>now v. sp argv now v = sp argv 0 v" "\<And>v. permanent v \<Longrightarrow> permanent (snd (sp argv 0 v))"
  shows "stable (det sp) argv"
  unfolding stable_def det_def
  by (rule exI [of _ "\<lambda>v. snd (sp argv 0 v)"]) (metis assms singletonD snd_conv)

text \<open>A \<open>SET\<close> that is given no time.\<close>

definition untimed_set :: "command \<Rightarrow> bool" where
  "untimed_set argv = list_all (\<lambda>a. Option.is_none (time_option a)) (drop 3 argv)"

lemma untimed_deadline:
  assumes "list_all (\<lambda>a. Option.is_none (time_option a)) args" "set_options args = Inr opts"
  shows "last_deadline now opts d = d"
  using assms
proof (induction args arbitrary: opts rule: set_options.induct)
  case (2 a args)
  then have "time_option a = None" by (simp add: Option.is_none_def)
  then show ?case using 2 by (cases "set_options args") (auto split: if_splits)
qed simp

lemma stable_set: "untimed_set argv \<Longrightarrow> stable (det spec_set) argv"
  by (rule stable_det)
    (auto simp: spec_set_def untimed_set_def untimed_deadline stored_deadline_def split: sum.split)

lemma stable_strings:
  "stable (det (spec_incr d)) argv" "stable (det spec_mset) argv" "stable (det spec_append) argv"
  "stable (det spec_setrange) argv" "stable (det spec_setnx) argv"
  "stable (det spec_getset) argv" "stable (det spec_flushall) argv"
  by (rule stable_det; auto simp: spec_incr_def spec_mset_def spec_append_def spec_setrange_def
      spec_setnx_def spec_getset_def spec_flushall_def Let_def
      intro!: permanent_on permanent_mset split: option.split dest: permanentD)+

lemma stable_rename: "stable (det spec_rename) argv"
  by (rule stable_det) (auto simp: spec_rename_def split: option.split intro!: permanent_simps intro: permanentD)

lemma stable_del: "stable spec_del argv"
  unfolding stable_def
  by (rule exI [of _ "\<lambda>v. if length argv < 2 then v else v |` (- set (drop 1 argv))"])
    (auto simp: spec_del_def intro: permanent_restrict)

lemma stable_lists:
  "stable (det (spec_push h x)) argv" "stable (det (spec_pop h)) argv" "stable (det spec_lset) argv"
  "stable (det spec_ltrim) argv" "stable (det spec_lrem) argv" "stable (det spec_linsert) argv"
  by (rule stable_det; auto simp: spec_push_def spec_pop_def spec_lset_def spec_ltrim_def spec_lrem_def
      spec_linsert_def Let_def intro!: permanent_on split: option.split)+

lemma stable_hashes:
  "stable (det (spec_hset b)) argv" "stable (det spec_hdel) argv" "stable (det spec_hsetnx) argv"
  "stable (det spec_hincrby) argv" "stable (det spec_hincrbyfloat) argv"
  by (rule stable_det; auto simp: spec_hset_def spec_hdel_def spec_hsetnx_def spec_hincrby_def
      spec_hincrbyfloat_def Let_def intro!: permanent_on split: option.split)+

lemma stable_sets: "stable (det spec_sadd) argv" "stable (det spec_srem) argv"
  by (rule stable_det; auto simp: spec_sadd_def spec_srem_def Let_def intro!: permanent_on)+

lemma stable_zsets:
  "stable (det spec_zadd) argv" "stable (det spec_zrem) argv" "stable (det spec_zincrby) argv"
  by (rule stable_det; auto simp: spec_zadd_def spec_zrem_def spec_zincrby_def Let_def
      intro!: permanent_on split: option.split prod.split)+

lemma on_readonly:
  "snd n = v \<Longrightarrow> (\<And>x e. snd (f1 x e) = v) \<Longrightarrow> snd (on_string v k n f1) = v"
  "snd n = v \<Longrightarrow> (\<And>x e. snd (f2 x e) = v) \<Longrightarrow> snd (on_list v k n f2) = v"
  "snd n = v \<Longrightarrow> (\<And>x e. snd (f3 x e) = v) \<Longrightarrow> snd (on_hash v k n f3) = v"
  "snd n = v \<Longrightarrow> (\<And>x e. snd (f4 x e) = v) \<Longrightarrow> snd (on_set v k n f4) = v"
  "snd n = v \<Longrightarrow> (\<And>x e. snd (f5 x e) = v) \<Longrightarrow> snd (on_zset v k n f5) = v"
  by (auto simp: on_string_def on_list_def on_hash_def on_set_def on_zset_def split: option.split aval.split)

lemma readonlyI: "(\<And>argv now v x. x \<in> sp argv now v \<Longrightarrow> snd x = v) \<Longrightarrow> readonly sp"
  by (fastforce simp: readonly_def)

lemma readonly_det: "(\<And>argv now v. snd (sp argv now v) = v) \<Longrightarrow> readonly (det sp)"
  by (rule readonlyI) (simp add: det_def)

lemma readonly_plain:
  "readonly (det spec_ping)" "readonly (det spec_echo)" "readonly (det spec_select)" "readonly (det spec_command)"
  "readonly (det spec_get)" "readonly (det spec_exists)" "readonly (det spec_mget)" "readonly (det spec_strlen)"
  "readonly (det spec_getrange)" "readonly (det (spec_ttl b))" "readonly (det spec_type)"
  "readonly (det spec_llen)" "readonly (det spec_lrange)" "readonly (det spec_lindex)"
  "readonly (det spec_hget)" "readonly (det spec_hmget)" "readonly (det spec_hlen)" "readonly (det spec_hexists)"
  "readonly (det spec_sismember)" "readonly (det spec_scard)"
  "readonly (det spec_zcard)" "readonly (det spec_zscore)" "readonly (det (spec_zrank rv n))" "readonly (det spec_zcount)"
  by (rule readonly_det; auto simp: spec_ping_def spec_echo_def spec_select_def spec_command_def spec_get_def
      spec_exists_def spec_mget_def spec_strlen_def spec_getrange_def spec_ttl_def spec_type_def spec_llen_def
      spec_lrange_def spec_lindex_def spec_hget_def spec_hmget_def spec_hlen_def spec_hexists_def spec_sismember_def
      spec_scard_def spec_zcard_def spec_zscore_def spec_zrank_def spec_zcount_def Let_def
      intro!: on_readonly split: option.split)+

lemma readonly_choice:
  "readonly spec_hgetall" "readonly (spec_hkeys b)" "readonly spec_smembers" "readonly spec_sinter"
  "readonly spec_sunion" "readonly spec_sdiff" "readonly (spec_zrange rv)" "readonly spec_zrangebyscore"
  "readonly spec_keys" "readonly spec_dbsize" "readonly spec_info"
  by (rule readonlyI; auto simp: spec_hgetall_def spec_hkeys_def spec_smembers_def spec_sinter_def spec_sunion_def
      spec_sdiff_def spec_multi_def members_of_def spec_zrange_def spec_zrangebyscore_def spec_keys_def spec_dbsize_def
      spec_info_def intro!: on_readonly split: if_splits option.splits sum.splits prod.splits)+

lemma readonly_unknown: "readonly (det spec_unknown)"
  by (rule readonly_det) (simp add: spec_unknown_def)

text \<open>The commands that depend on the time or on a random choice; \<open>SET\<close> does when it is given a time.\<close>

definition timed_names :: "bytes list" where
  "timed_names = [''setex'', ''expire'', ''pexpire'', ''expireat'', ''pexpireat'', ''spop'']"

definition timed :: "command \<Rightarrow> bool" where
  "timed argv =
     (list_ex (\<lambda>n. strcaseeq n (argv ! 0)) timed_names \<or> strcaseeq ''set'' (argv ! 0) \<and> \<not> untimed_set argv)"

definition replays :: "cmd_entry \<Rightarrow> bytes \<times> spec_set option \<Rightarrow> bool" where
  "replays e p =
     (cname e = fst p \<and>
      (\<forall>sp. snd p = Some sp \<longrightarrow>
        (\<not> is_write e \<longrightarrow> readonly sp) \<and>
        (fst p \<notin> set timed_names \<longrightarrow> (\<forall>argv. (fst p = ''set'' \<longrightarrow> untimed_set argv) \<longrightarrow> stable sp argv))))"

lemma replaysI:
  "readonly sp \<Longrightarrow> replays (entry n w f) (n, Some sp)"
  "n \<noteq> ''set'' \<Longrightarrow> (\<And>argv. stable sp argv) \<Longrightarrow> replays (entry n True f) (n, Some sp)"
  "replays (entry n w f) (n, None)"
  "n \<in> set timed_names \<Longrightarrow> replays (entry n True f) (n, Some sp)"
  "replays (entry ''set'' True f) (''set'', Some (det spec_set))"
  by (auto simp: replays_def entry_def stable_readonly stable_set)

lemma table_replays: "list_all2 replays commands specs"
  unfolding commands_def specs_def
  by (simp add: replaysI readonly_plain readonly_choice stable_del stable_rename stable_strings stable_lists
      stable_hashes stable_sets stable_zsets timed_names_def)

lemma find_replays:
  assumes "list_all2 replays es ps" "find (\<lambda>p. strcaseeq (fst p) n) ps = Some p"
  shows "\<exists>e. find (\<lambda>e. strcaseeq (cname e) n) es = Some e \<and> replays e p \<and> strcaseeq (fst p) n"
  using assms by (induction rule: list_all2_induct) (auto simp: replays_def split: if_splits)

definition write_cmd :: "command \<Rightarrow> bool" where
  "write_cmd argv = (\<exists>e. find (\<lambda>e. strcaseeq (cname e) (argv ! 0)) commands = Some e \<and> is_write e)"

lemma command_replays:
  assumes "command_spec (argv ! 0) = Some sp"
  shows "\<not> write_cmd argv \<Longrightarrow> readonly sp" "\<not> timed argv \<Longrightarrow> stable sp argv"
proof -
  have "(\<not> write_cmd argv \<longrightarrow> readonly sp) \<and> (\<not> timed argv \<longrightarrow> stable sp argv)"
  proof (cases "find (\<lambda>p. strcaseeq (fst p) (argv ! 0)) specs")
    case None
    then have "sp = det spec_unknown" using assms by (simp add: command_spec_def)
    then show ?thesis using readonly_unknown stable_readonly by blast
  next
    case (Some p)
    then obtain e where e: "find (\<lambda>e. strcaseeq (cname e) (argv ! 0)) commands = Some e" "replays e p"
      "strcaseeq (fst p) (argv ! 0)"
      using find_replays [OF table_replays Some] by blast
    have "snd p = Some sp" using assms Some by (simp add: command_spec_def)
    then show ?thesis using e by (fastforce simp: replays_def write_cmd_def timed_def list_ex_iff)
  qed
  then show "\<not> write_cmd argv \<Longrightarrow> readonly sp" "\<not> timed argv \<Longrightarrow> stable sp argv" by blast+
qed

section \<open>Recovery\<close>

text \<open>
  A command of a client that is logged in one piece and can be replayed: it is neither one of those
  that take a time or choose at random nor one of those that save or rewrite, and no argument has a
  NUL byte.
\<close>

definition recordable :: "command \<Rightarrow> bool" where
  "recordable argv =
     (argv \<noteq> [] \<and> command_spec (argv ! 0) \<noteq> None \<and> \<not> timed argv \<and> loggable argv \<and>
      (\<forall>a\<in>set argv. CHR 0x00 \<notin> set a))"

lemma reset_client_sel [simp]:
  "st_ok (cur s) \<Longrightarrow> st_ok (cur (reset_client s))" "view (cur (reset_client s)) = view (cur s)"
  "clock (cur (reset_client s)) = clock (cur s)"
  by (simp_all add: reset_client_def st_ok_def view_def dynbuf_clear_ok)

lemma recorded_step:
  assumes "st_ok (cur s)" "permanent (view (cur s))" "argv \<noteq> []" "command_spec (argv ! 0) \<noteq> None" "\<not> timed argv"
  shows "st_ok (cur (dispatch_command argv s))" "permanent (view (cur (dispatch_command argv s)))"
    and "\<not> write_cmd argv \<Longrightarrow> view (cur (dispatch_command argv s)) = view (cur s)"
    and "st_ok (cur t) \<Longrightarrow> view (cur t) = view (cur s) \<Longrightarrow>
      view (cur (dispatch_command argv t)) = view (cur (dispatch_command argv s))"
proof -
  obtain sp where sp: "command_spec (argv ! 0) = Some sp" using assms(4) by blast
  obtain r v where v: "(r, v) \<in> sp argv (clock (cur s)) (view (cur s))"
    "gives (cur s) (cur (dispatch_command argv s)) v (encode r)"
    using dispatch_ok [OF assms(1,3) sp] by blast
  obtain g where g: "\<And>now v r w. permanent v \<Longrightarrow> (r, w) \<in> sp argv now v \<Longrightarrow> w = g v \<and> permanent w"
    using command_replays(2) [OF sp assms(5)] unfolding stable_def by blast
  show "st_ok (cur (dispatch_command argv s))" "permanent (view (cur (dispatch_command argv s)))"
    using v g assms(2) by (auto simp: gives_def)
  show "view (cur (dispatch_command argv s)) = view (cur s)" if "\<not> write_cmd argv"
    using command_replays(1) [OF sp that] v by (auto simp: readonly_def gives_def)
  show "view (cur (dispatch_command argv t)) = view (cur (dispatch_command argv s))"
    if t: "st_ok (cur t)" "view (cur t) = view (cur s)"
  proof -
    obtain r' v' where v': "(r', v') \<in> sp argv (clock (cur t)) (view (cur s))"
      "gives (cur t) (cur (dispatch_command argv t)) v' (encode r')"
      using dispatch_ok [OF t(1) assms(3) sp] t(2) by auto
    have "v' = v" using g [OF assms(2) v'(1)] g [OF assms(2) v(1)] by simp
    then show ?thesis using v(2) v'(2) by (simp add: gives_def)
  qed
qed

lemma expire_permanent: "permanent v \<Longrightarrow> expire_view t v = v"
  by (fastforce simp: expire_view_def fun_eq_iff split: option.split dest: permanentD)

lemma later_permanent:
  assumes "permanent (view (cur s))" "clock (cur s) \<le> t"
  shows "view ((cur s)\<lparr>clock := t\<rparr>) = view (cur s)"
  using view_later [OF assms(2)] expire_permanent [OF assms(1)] by (simp add: view_def)

lemma replay_recorded:
  assumes "st_ok (cur s)" "st_ok (cur t)" "view (cur t) = view (cur s)" "permanent (view (cur s))"
    "sorted (clock (cur s) # map fst cs)" "\<forall>c\<in>set cs. recordable (snd c)"
  shows "view (cur (fold replay_step (filter write_cmd (map snd cs)) t)) = view (cur (serve_all cs s)) \<and>
    st_ok (cur (fold replay_step (filter write_cmd (map snd cs)) t))"
  using assms
proof (induction cs arbitrary: s t)
  case (Cons c cs)
  obtain now argv where c: "c = (now, argv)" by fastforce
  let ?s = "s\<lparr>cur := (cur s)\<lparr>clock := now\<rparr>\<rparr>" and ?s1 = "serve_at now argv s"
  have argv: "argv \<noteq> []" "command_spec (argv ! 0) \<noteq> None" "\<not> timed argv" "map cstr argv = argv"
    using Cons.prems(6) c by (auto simp: recordable_def intro: map_idI)
  have s: "st_ok (cur ?s)" "view (cur ?s) = view (cur s)" "permanent (view (cur ?s))"
    using Cons.prems(1,4,5) later_permanent [OF Cons.prems(4), of now] c by auto
  have s1: "st_ok (cur ?s1)" "permanent (view (cur ?s1))"
    using recorded_step(1,2) [OF s(1,3) argv(1-3)] by (simp_all add: serve_at_def)
  have "sorted (clock (cur ?s1) # map fst cs)"
  proof -
    have "clock (cur ?s1) = now"
      using dispatch_ok [OF s(1) argv(1)] argv(2) by (auto simp: serve_at_def gives_def)
    then show ?thesis using Cons.prems(5) c by simp
  qed
  moreover have "view (cur t) = view (cur ?s1)" if "\<not> write_cmd argv"
    using recorded_step(3) [OF s(1,3) argv(1-3) that] s(2) Cons.prems(3) by (simp add: serve_at_def)
  moreover have "view (cur (replay_step argv t)) = view (cur ?s1)" "st_ok (cur (replay_step argv t))"
  proof -
    show "view (cur (replay_step argv t)) = view (cur ?s1)"
      using recorded_step(4) [OF s(1,3) argv(1-3)] s(2) Cons.prems(2,3) argv(4)
      by (simp add: serve_at_def replay_step_def)
    show "st_ok (cur (replay_step argv t))"
      using recorded_step(1) [of t] Cons.prems(2-4) argv by (simp add: replay_step_def)
  qed
  ultimately show ?case
    using Cons.IH [of ?s1] Cons.prems(2,6) s1 c by (cases "write_cmd argv") simp_all
qed simp

text \<open>The log of a session on a system whose writes succeed, in however many pieces.\<close>

definition reliable :: "os \<Rightarrow> bool" where
  "reliable w = (\<forall>n. Write_failed \<notin> set (sys_writes w n))"

lemma write_reliable:
  assumes "reliable w" "write_file i buf w = (ok, w')"
  shows "ok" "appends i buf w w'" "reliable w'"
proof -
  have full: "fst (write_full (sys_writes w (sys_pos w)) buf)" using assms(1) write_full_ok by (simp add: reliable_def)
  show "ok" using full assms(2) by (auto simp: write_file_def split: prod.splits)
  then show "appends i buf w w'" using write_file_appends [OF assms(2)] by blast
  show "reliable w'" using assms by (auto simp: write_file_def reliable_def split: prod.splits)
qed

definition logging :: "nat \<Rightarrow> srv \<Rightarrow> bool" where
  "logging i s = (g_aof_fd s = Some i \<and> \<not> g_aof_replaying s \<and> reliable (os s))"

lemma logged_log:
  assumes "logging i s"
  shows "logging i (logged e argv s)" "appends i (if is_write e then resp_frame argv else []) (os s) (os (logged e argv s))"
proof -
  obtain ok w where w: "write_file i (resp_frame argv) (os s) = (ok, w)" by fastforce
  have "reliable (os s)" using assms by (simp add: logging_def)
  note w' = write_reliable [OF this w]
  show "logging i (logged e argv s)" "appends i (if is_write e then resp_frame argv else []) (os s) (os (logged e argv s))"
    using assms w w' appends_refl by (auto simp: logging_def logged_def aof_append_command_def Let_def)
qed

lemma dispatch_log:
  assumes "logging i s" "argv \<noteq> []" "command_spec (argv ! 0) \<noteq> None"
  shows "logging i (dispatch_command argv s)"
    and "appends i (frames (filter write_cmd [argv])) (os s) (os (dispatch_command argv s))"
proof -
  have "logging i (dispatch_command argv s) \<and>
      appends i (frames (filter write_cmd [argv])) (os s) (os (dispatch_command argv s))"
    using assms(2)
  proof (cases rule: dispatch_cases [of argv s])
    case unknown
    then show ?thesis using assms(1) appends_refl by (simp add: logging_def write_cmd_def)
  next
    case (db e f sp)
    then have "write_cmd argv = is_write e" by (simp add: write_cmd_def)
    then show ?thesis using logged_log [OF assms(1), of e argv] db by (auto simp: logging_def split: if_splits)
  next
    case (other e)
    then show ?thesis using assms(3) by simp
  qed
  then show "logging i (dispatch_command argv s)"
    "appends i (frames (filter write_cmd [argv])) (os s) (os (dispatch_command argv s))" by simp_all
qed

lemma serve_all_log:
  assumes "logging i s" "\<forall>c\<in>set cs. snd c \<noteq> [] \<and> command_spec (snd c ! 0) \<noteq> None"
  shows "logging i (serve_all cs s) \<and> appends i (frames (filter write_cmd (map snd cs))) (os s) (os (serve_all cs s))"
  using assms
proof (induction cs arbitrary: s)
  case Nil
  then show ?case by (simp add: appends_refl)
next
  case (Cons c cs)
  obtain t argv where c: "c = (t, argv)" by fastforce
  let ?s = "s\<lparr>cur := (cur s)\<lparr>clock := t\<rparr>\<rparr>"
  have "logging i ?s" using Cons.prems(1) by (simp add: logging_def)
  then have s1: "logging i (serve_at t argv s)"
    "appends i (frames (filter write_cmd [argv])) (os s) (os (serve_at t argv s))"
    using dispatch_log [of i ?s argv] Cons.prems(2) c by (simp_all add: serve_at_def)
  have "filter write_cmd (map snd (c # cs)) = filter write_cmd [argv] @ filter write_cmd (map snd cs)" using c by simp
  then show ?case
    using Cons.IH [OF s1(1)] Cons.prems(2) appends_trans [OF s1(2)] c by (simp only: frames_simps(3) serve_all.simps) simp
qed

lemma take_filter: "\<exists>n\<le>length xs. take m (filter P xs) = filter P (take n xs)"
proof (induction xs arbitrary: m)
  case (Cons x xs)
  show ?case
  proof (cases "P x \<and> m = 0")
    case False
    then obtain n where "n \<le> length xs" "take (if P x then m - 1 else m) (filter P xs) = filter P (take n xs)"
      using Cons.IH by blast
    then show ?thesis using False by (intro exI [of _ "Suc n"]) (auto simp: take_Cons')
  qed (intro exI [of _ 0], simp)
qed simp

lemma cut_log:
  assumes "prefix b (frames (filter P (map snd cs)))" "\<forall>c\<in>set cs. frame_ok (snd c)"
  obtains n torn where "n \<le> length cs" "b = frames (filter P (map snd (take n cs))) @ torn"
    "torn = [] \<or> (\<exists>c. frame_ok c \<and> strict_prefix torn (resp_frame c))"
    "b = frames (filter P (map snd cs)) \<longrightarrow> n = length cs"
proof (cases "b = frames (filter P (map snd cs))")
  case True
  then show thesis using that [of "length cs" "[]"] by simp
next
  case False
  let ?cmds = "filter P (map snd cs)"
  obtain m torn where m: "m \<le> length ?cmds" "b = frames (take m ?cmds) @ torn"
    "torn = [] \<or> m < length ?cmds \<and> strict_prefix torn (resp_frame (?cmds ! m))"
    using prefix_frames [OF assms(1)] by blast
  obtain n where n: "n \<le> length cs" "take m ?cmds = filter P (map snd (take n cs))"
    using take_filter [of "map snd cs" m P] by (auto simp: take_map)
  have "frame_ok (?cmds ! m)" if "m < length ?cmds"
    using nth_mem [OF that] assms(2) by auto
  then have torn: "torn = [] \<or> (\<exists>c. frame_ok c \<and> strict_prefix torn (resp_frame c))" using m(3) by blast
  have "b = frames (filter P (map snd (take n cs))) @ torn" using m(2) n(2) by simp
  from that [OF n(1) this torn] show thesis using False by blast
qed

section \<open>Properties\<close>

lemma aof_replay_frames:
  assumes "read_file path (os s) = (Some b, w)" "b = frames cmds @ torn" "\<forall>c\<in>set cmds. loggable c"
    "torn = [] \<or> (\<exists>c. frame_ok c \<and> strict_prefix torn (resp_frame c))" "st_ok (cur s)"
  obtains s0 s1 where "aof_replay path s = (0, s1)" "st_ok (cur s0)" "view (cur s0) = view (cur s)"
    "view (cur s1) = view (cur (fold replay_step cmds s0))"
    "st_ok (cur (fold replay_step cmds s0)) \<Longrightarrow> st_ok (cur s1)" "clock (cur s0) = clock (cur s)"
proof -
  let ?s0 = "s\<lparr>os := w, g_aof_replaying := True, cur := (cur s)\<lparr>out := dynbuf_init, closing := False\<rparr>\<rparr>"
  let ?f = "fold replay_step cmds ?s0"
  have s0: "st_ok (cur ?s0)" "view (cur ?s0) = view (cur s)"
    using assms(5) by (simp_all add: st_ok_def view_def dynbuf_init_ok)
  have "replay_loop b ?s0 = replay_loop torn ?f" using replay_frames [OF assms(3)] assms(2) by simp
  also have "replay_loop torn ?f = (0, ?f)"
    using assms(4) replay_torn by (auto simp: replay_loop.simps [of "[]"])
  finally have l: "replay_loop b ?s0 = (0, ?f)" .
  show thesis
  proof (cases "b = []")
    case True
    then have "cmds = []" using assms(2) by (cases cmds) auto
    then show thesis using that [of "s\<lparr>os := w\<rparr>" ?s0] assms(1,5) s0 True by (simp add: aof_replay_def)
  next
    case False
    let ?s1 = "?f\<lparr>g_aof_replaying := False, cur := (cur ?f)\<lparr>out := out (cur s), closing := closing (cur s)\<rparr>\<rparr>"
    have "aof_replay path s = (0, ?s1)" using False l assms(1) by (simp add: aof_replay_def)
    then show thesis using that [of ?s1 ?s0] s0 assms(5) by (simp add: st_ok_def view_def)
  qed
qed

text \<open>
  C5. Recovery from the log, for commands whose effect depends neither on the time nor on a random
  choice: anything but \<open>SETEX\<close>, the \<open>EXPIRE\<close> family, \<open>SET\<close> with a time, \<open>SPOP\<close>, \<open>QUIT\<close> and the commands
  that save or rewrite; no argument holds a NUL byte, and the writes to the log succeed, in however
  many pieces. Such a session is run on an empty keyspace with the log open on an empty file, and the
  file is then cut anywhere, as a crash may leave it. Replaying what is left into an empty keyspace
  succeeds and gives exactly the keyspace after some prefix of the session; the file in full gives the
  keyspace at the end of the session.
\<close>

theorem aof_recovers:
  assumes "cur s = db_create now mem sd rn" "logging i s" "inodes (os s) i = []"
    "sorted (now # map fst cs)" "\<forall>c\<in>set cs. recordable (snd c)"
    "cur t = db_create now' mem' sd' rn'" "read_file path (os t) = (Some b, w)"
    "prefix b (inodes (os (serve_all cs s)) i)"
  shows "\<exists>n t'. n \<le> length cs \<and> aof_replay path t = (0, t') \<and> st_ok (cur t') \<and>
    view (cur t') = view (cur (serve_all (take n cs) s)) \<and>
    (b = inodes (os (serve_all cs s)) i \<longrightarrow> n = length cs)"
proof -
  have "\<forall>c\<in>set cs. snd c \<noteq> [] \<and> command_spec (snd c ! 0) \<noteq> None" using assms(5) by (simp add: recordable_def)
  then have log: "inodes (os (serve_all cs s)) i = frames (filter write_cmd (map snd cs))"
    using serve_all_log [OF assms(2)] assms(3) by (simp add: appends_def)
  have "\<forall>c\<in>set cs. frame_ok (snd c)" using assms(5) by (simp add: recordable_def loggable_def)
  then obtain n torn where n: "n \<le> length cs" "b = frames (filter write_cmd (map snd (take n cs))) @ torn"
    "torn = [] \<or> (\<exists>c. frame_ok c \<and> strict_prefix torn (resp_frame c))"
    "b = frames (filter write_cmd (map snd cs)) \<longrightarrow> n = length cs"
    using cut_log assms(8) log by metis
  have rec: "\<forall>c\<in>set (take n cs). recordable (snd c)" using assms(5) set_take_subset by fastforce
  then have "\<forall>c\<in>set (filter write_cmd (map snd (take n cs))). loggable c" by (auto simp: recordable_def)
  moreover have t: "st_ok (cur t)" "view (cur t) = Map.empty" using assms(6) db_create_ok by simp_all
  ultimately obtain t0 t1 where t1: "aof_replay path t = (0, t1)" "st_ok (cur t0)" "view (cur t0) = view (cur t)"
    "view (cur t1) = view (cur (fold replay_step (filter write_cmd (map snd (take n cs))) t0))"
    "st_ok (cur (fold replay_step (filter write_cmd (map snd (take n cs))) t0)) \<Longrightarrow> st_ok (cur t1)"
    using aof_replay_frames [OF assms(7) n(2) _ n(3)] by metis
  have "sorted (clock (cur s) # map fst (take n cs))"
    using assms(1,4) sorted_wrt_take [of "(\<le>)" "map fst cs" n] set_take_subset by (fastforce simp: take_map)
  moreover have "st_ok (cur s)" "view (cur s) = Map.empty" using assms(1) db_create_ok by simp_all
  ultimately show ?thesis
    using replay_recorded [of s t0 "take n cs"] t1 t(2) rec n(1,4) log by auto
qed

text \<open>
  C38. Where a replay stops. When the bytes after some whole frames do not begin with a complete
  command, the commands of the frames before have been executed and nothing else, and the result only
  depends on what the parser makes of these bytes: the replay fails when they are a protocol error,
  but it reports success when the parser would wait for more, be it a frame that was cut off or a
  corrupt length that swallows the rest of the file.
\<close>

theorem aof_replay_stops:
  assumes "\<forall>c\<in>set cmds. loggable c" "\<nexists>argv r. resp_parse bad = Parsed argv r"
    "file_at path (os s) = Some (frames cmds @ bad)" "sys_ok (os s) (sys_pos (os s))"
  shows "\<exists>s0. fst (aof_replay path s) = (if resp_parse bad = Protocol_error then - 1 else 0) \<and>
    store (cur s0) = store (cur s) \<and> store (cur (snd (aof_replay path s))) = store (cur (fold replay_step cmds s0))"
proof -
  obtain i where i: "names (os s) path = Some i" "inodes (os s) i = frames cmds @ bad"
    using assms(3) by (auto simp: file_at_def)
  let ?rc = "if resp_parse bad = Protocol_error then - 1 else 0 :: int"
  let ?s0 = "s\<lparr>os := (os s)\<lparr>sys_pos := sys_pos (os s) + 1\<rparr>, g_aof_replaying := True,
    cur := (cur s)\<lparr>out := dynbuf_init, closing := False\<rparr>\<rparr>"
  have "resp_parse_command bad = (?rc, [])"
    using assms(2) by (cases "resp_parse bad") (simp_all add: resp_parse_command_cases)
  moreover have nil: "bad = [] \<Longrightarrow> ?rc = 0" by (simp add: resp_parse_def)
  ultimately have "replay_loop bad t = (?rc, t)" for t by (subst replay_loop.simps) auto
  then have l: "replay_loop (frames cmds @ bad) ?s0 = (?rc, fold replay_step cmds ?s0)"
    using replay_frames [OF assms(1)] by simp
  show ?thesis
  proof (cases "frames cmds @ bad = []")
    case True
    then have "cmds = []" "bad = []" by (cases cmds; simp)+
    then show ?thesis
      using i assms(4) nil by (intro exI [of _ s]) (simp add: aof_replay_def read_file_def sys_call_def)
  next
    case False
    then show ?thesis
      using i assms(4) l by (intro exI [of _ ?s0]) (auto simp: aof_replay_def read_file_def sys_call_def)
  qed
qed

text \<open>A server that logs to the file \<open>a\<close>.\<close>

definition log_srv :: srv where
  "log_srv = demo_srv\<lparr>os := good_os\<lparr>names := [''a'' \<mapsto> 0], next_ino := 1\<rparr>, g_aof_path := Some ''a'', g_aof_fd := Some 0\<rparr>"

lemma log_srv_logging: "logging 0 log_srv" "cur log_srv = demo_st" "inodes (os log_srv) 0 = []"
  by (simp_all add: log_srv_def logging_def reliable_def good_os_def demo_srv_def)

lemma command_spec_set: "command_spec ''SET'' = Some (det spec_set)"
proof -
  have "\<not> strcaseeq ''ping'' ''SET''" "\<not> strcaseeq ''echo'' ''SET''" "\<not> strcaseeq ''select'' ''SET''"
    "\<not> strcaseeq ''quit'' ''SET''" "strcaseeq ''set'' ''SET''"
    by code_simp+
  then show ?thesis by (simp add: command_spec_def specs_def)
qed

lemma recordable_set: "recordable [''SET'', ''k'', ''v'']"
proof -
  have "\<not> timed [''SET'', ''k'', ''v'']" by code_simp
  moreover have "loggable [''SET'', ''k'', ''v'']"
    by (simp add: loggable_def frame_ok_def MAX_ARGC_def MAX_BULK_LEN_def resp_frame_def bulk_frame_def crlf_def
        show_nat.simps)
  ultimately show ?thesis by (simp add: recordable_def command_spec_set)
qed

theorem aof_recovers_witness:
  "let s = serve_all [(2000, [''SET'', ''k'', ''v''])] log_srv
   in \<exists>t'. aof_replay ''a'' (demo_srv\<lparr>os := good_os\<lparr>names := [''a'' \<mapsto> 0], inodes := inodes (os s)\<rparr>\<rparr>) = (0, t') \<and>
        view (cur t') = view (cur s)"
proof -
  let ?cs = "[(2000 :: int, [''SET'', ''k'', ''v''])]" and ?mem = "\<lambda>_. CHR 0x00" and ?sd = "\<lambda>_. replicate 16 (CHR 0x00)"
  let ?s = "serve_all ?cs log_srv"
  let ?t = "demo_srv\<lparr>os := good_os\<lparr>names := [''a'' \<mapsto> 0], inodes := inodes (os ?s)\<rparr>\<rparr>"
  have c: "cur log_srv = db_create 1000 ?mem ?sd (\<lambda>_. 0)" "cur ?t = db_create 1000 ?mem ?sd (\<lambda>_. 0)"
    by (simp_all add: log_srv_logging(2) demo_srv_def demo_st_def)
  obtain w where r: "read_file ''a'' (os ?t) = (Some (inodes (os ?s) 0), w)"
    by (simp add: read_file_def sys_call_def good_os_def)
  have "sorted (1000 # map fst ?cs)" "\<forall>c\<in>set ?cs. recordable (snd c)" using recordable_set by simp_all
  from aof_recovers [OF c(1) log_srv_logging(1,3) this c(2) r] show ?thesis by (auto simp: Let_def)
qed

text \<open>Garbage after a frame, and a frame whose length was changed from 4 to 99.\<close>

definition broken_log :: "bytes \<Rightarrow> srv" where
  "broken_log bad =
     demo_srv\<lparr>os := good_os\<lparr>names := [''a'' \<mapsto> 0], inodes := (\<lambda>_. frames [[''SET'', ''k'', ''v'']] @ bad)\<rparr>\<rparr>"

theorem aof_replay_stops_witness:
  "fst (aof_replay ''a'' (broken_log ''garbage'')) = - 1 \<and>
   fst (aof_replay ''a'' (broken_log (''*1'' @ crlf @ ''$99'' @ crlf @ ''PING'' @ crlf))) = 0"
proof -
  have l: "\<forall>c\<in>set [[''SET'', ''k'', ''v'']]. loggable c" using recordable_set by (simp add: recordable_def)
  have f: "file_at ''a'' (os (broken_log bad)) = Some (frames [[''SET'', ''k'', ''v'']] @ bad)"
    "sys_ok (os (broken_log bad)) (sys_pos (os (broken_log bad)))" for bad
    by (simp_all add: broken_log_def file_at_def good_os_def)
  have p: "resp_parse ''garbage'' = Protocol_error"
    "resp_parse (''*1'' @ crlf @ ''$99'' @ crlf @ ''PING'' @ crlf) = Need_more" by code_simp+
  show ?thesis
    using aof_replay_stops [OF l _ f] p by simp
qed

end
