(* ===== verification/Rewrite.thy ===== *)
theory Rewrite
  imports Replay
begin

text \<open>
  A rewritten log rebuilds the keyspace: what each command that \<open>aof_rewrite\<close> of \<open>src/aof.c\<close> writes
  does when it is replayed, and the batches of a container put together.
\<close>

section \<open>Batches\<close>

lemma batches_groups:
  assumes "length base = 2" "\<And>y. f y \<noteq> []" "\<And>y. length (f y) + 2 \<le> cap"
  shows "\<exists>gs. batches cap base (map f ys) (base @ concat (map f g0)) = map (\<lambda>g. base @ concat (map f g)) gs \<and>
    concat gs = g0 @ ys \<and> [] \<notin> set gs"
proof (induction ys arbitrary: g0)
  case Nil
  have "concat (map f g0) \<noteq> [] \<longleftrightarrow> g0 \<noteq> []" using assms(2) by (cases g0) auto
  then show ?case
    using assms(1) by (intro exI [of _ "if g0 = [] then [] else [g0]"]) auto
next
  case (Cons y ys)
  show ?case
  proof (cases "length (base @ concat (map f g0)) + length (f y) > cap")
    case True
    then have "g0 \<noteq> []" using assms(1) assms(3) [of y] by auto
    moreover obtain gs where "batches cap base (map f ys) (base @ concat (map f [y])) = map (\<lambda>g. base @ concat (map f g)) gs"
      "concat gs = y # ys" "[] \<notin> set gs"
      using Cons.IH [of "[y]"] by auto
    ultimately show ?thesis using True by (intro exI [of _ "g0 # gs"]) auto
  next
    case False
    then show ?thesis using Cons.IH [of "g0 @ [y]"] by auto
  qed
qed

text \<open>
  The interface of a command that adds the items of a batch to a container: \<open>run\<close> executes it,
  \<open>put\<close> binds the container so far, and one batch after another has the effect of all items.
\<close>

locale batch_command =
  fixes run :: "command \<Rightarrow> 'v \<Rightarrow> 'v" and cap :: nat and base :: "bytes list" and f :: "'i \<Rightarrow> bytes list"
    and good :: "'i \<Rightarrow> bool" and put :: "'c \<Rightarrow> 'v" and add :: "'c \<Rightarrow> 'i \<Rightarrow> 'c"
  assumes two: "length base = 2"
    and item: "f y \<noteq> []" "length (f y) + 2 \<le> cap"
    and batch: "g \<noteq> [] \<Longrightarrow> \<forall>y\<in>set g. good y \<Longrightarrow> run (base @ concat (map f g)) (put acc) = put (foldl add acc g)"
begin

lemma run_groups:
  "[] \<notin> set gs \<Longrightarrow> \<forall>y\<in>set (concat gs). good y \<Longrightarrow>
     fold run (map (\<lambda>g. base @ concat (map f g)) gs) (put acc) = put (foldl add acc (concat gs))"
  by (induction gs arbitrary: acc) (auto simp: batch)

lemma run_batches:
  assumes "\<forall>y\<in>set ys. good y"
  shows "fold run (batches cap base (map f ys) base) (put acc) = put (foldl add acc ys)"
proof -
  obtain gs where "batches cap base (map f ys) base = map (\<lambda>g. base @ concat (map f g)) gs" "concat gs = ys" "[] \<notin> set gs"
    using batches_groups [of base f cap ys "[]", OF two item] by auto
  then show ?thesis using run_groups [of gs acc] assms by simp
qed

end

section \<open>The commands of a rewritten log\<close>

definition redo :: "int \<Rightarrow> command \<Rightarrow> view \<Rightarrow> view" where
  "redo now argv v =
     snd ((if argv ! 0 = ''SET'' then spec_set
           else if argv ! 0 = ''RPUSH'' then spec_push False False
           else if argv ! 0 = ''HSET'' then spec_hset False
           else if argv ! 0 = ''SADD'' then spec_sadd
           else if argv ! 0 = ''ZADD'' then spec_zadd
           else spec_expireat True) argv now v)"

definition rewrite_names :: "bytes list" where
  "rewrite_names = [''SET'', ''RPUSH'', ''HSET'', ''SADD'', ''ZADD'', ''PEXPIREAT'']"

lemma specs_lower: "\<forall>p\<in>set specs. map to_lower (cstr (fst p)) = fst p"
  by (simp add: specs_def cstr_Cons to_lower_def uchar_def)

lemma command_spec_map:
  "command_spec n = (case map_of specs (map to_lower (cstr n)) of None \<Rightarrow> Some (det spec_unknown) | Some sp \<Rightarrow> sp)"
proof -
  have "find (\<lambda>p. strcaseeq (fst p) n) ps = map_option (Pair (map to_lower (cstr n))) (map_of ps (map to_lower (cstr n)))"
    if "\<forall>p\<in>set ps. map to_lower (cstr (fst p)) = fst p" for ps :: "(bytes \<times> spec_set option) list"
    using that by (induction ps) (auto simp: strcaseeq_def)
  from this [OF specs_lower] show ?thesis by (simp add: command_spec_def split: option.split)
qed

lemma rewrite_specs:
  "command_spec ''SET'' = Some (det spec_set)" "command_spec ''RPUSH'' = Some (det (spec_push False False))"
  "command_spec ''HSET'' = Some (det (spec_hset False))" "command_spec ''SADD'' = Some (det spec_sadd)"
  "command_spec ''ZADD'' = Some (det spec_zadd)" "command_spec ''PEXPIREAT'' = Some (det (spec_expireat True))"
  by (simp_all add: command_spec_map cstr_Cons to_lower_def uchar_def char_of_def bit_0 specs_def)

lemma redo_simps:
  "redo now (''SET'' # args) v = snd (spec_set (''SET'' # args) now v)"
  "redo now (''RPUSH'' # args) v = snd (spec_push False False (''RPUSH'' # args) now v)"
  "redo now (''HSET'' # args) v = snd (spec_hset False (''HSET'' # args) now v)"
  "redo now (''SADD'' # args) v = snd (spec_sadd (''SADD'' # args) now v)"
  "redo now (''ZADD'' # args) v = snd (spec_zadd (''ZADD'' # args) now v)"
  "redo now (''PEXPIREAT'' # args) v = snd (spec_expireat True (''PEXPIREAT'' # args) now v)"
  by (simp_all add: redo_def)

subsection \<open>Lists and sets\<close>

lemma foldl_snoc: "foldl (\<lambda>xs x. xs @ [x]) acc g = acc @ g"
  by (induction g arbitrary: acc) simp_all

lemma foldl_insert: "foldl (\<lambda>S x. insert x S) S g = S \<union> set g"
  by (induction g arbitrary: S) simp_all

interpretation rpush: batch_command "redo now" 66 "[''RPUSH'', k]" "\<lambda>x. [x]" "\<lambda>_. True"
    "\<lambda>xs. put_list k xs (- 1) v" "\<lambda>xs x. xs @ [x]" for now k v
  by unfold_locales
    (auto simp: redo_simps spec_push_def on_list_def put_list_def foldl_snoc Let_def)

interpretation sadd: batch_command "redo now" 66 "[''SADD'', k]" "\<lambda>x. [x]" "\<lambda>_. True"
    "\<lambda>S. put_set k S (- 1) v" "\<lambda>S x. insert x S" for now k v
  by unfold_locales
    (auto simp: redo_simps spec_sadd_def on_set_def put_set_def foldl_insert Let_def)

subsection \<open>Hashes\<close>

lemma foldl_upd: "foldl (\<lambda>m p. m(fst p \<mapsto> snd p)) m g = m ++ map_of (rev g)"
  by (induction g arbitrary: m) (auto simp: map_add_def fun_eq_iff split: option.split)

lemma arg_pairs_items: "arg_pairs (concat (map (\<lambda>p. [fst p, snd p]) g)) = g"
  by (induction g) simp_all

lemma even_items: "even (length (concat (map (\<lambda>p. [a p, b p]) g)))"
  by (induction g) simp_all

interpretation hset: batch_command "redo now" 130 "[''HSET'', k]" "\<lambda>p. [fst p, snd p]" "\<lambda>_. True"
    "\<lambda>m. put_hash k m (- 1) v" "\<lambda>m p. m(fst p \<mapsto> snd p)" for now k v
proof unfold_locales
  fix g :: "(bytes \<times> bytes) list" and acc
  let ?args = "concat (map (\<lambda>p. [fst p, snd p]) g)"
  assume "g \<noteq> []"
  then have g: "acc ++ map_of (rev g) \<noteq> Map.empty" "2 \<le> length ?args"
    by (simp, cases g, simp_all)
  have "spec_hset False (''HSET'' # k # ?args) now w =
      on_hash w k (RInt (int (card (fst ` set g))), w(k \<mapsto> (AHash (map_of (rev g)), - 1)))
        (\<lambda>m e. (RInt (int (card (fst ` set g - dom m))), w(k \<mapsto> (AHash (m ++ map_of (rev g)), e))))" for w
    using g(2) even_items [of fst snd g] by (simp add: spec_hset_def arg_pairs_items)
  then show "redo now ([''HSET'', k] @ ?args) (put_hash k acc (- 1) v) = put_hash k (foldl (\<lambda>m p. m(fst p \<mapsto> snd p)) acc g) (- 1) v"
    using g(1) by (cases "acc = Map.empty") (simp_all add: redo_simps on_hash_def put_hash_def foldl_upd)
qed simp_all

subsection \<open>Sorted sets\<close>

definition number_char :: "char \<Rightarrow> bool" where
  "number_char c = (is_digit c \<or> c \<in> set ''.e+-inf'')"

lemma number_dotted:
  "\<forall>c\<in>set i. is_digit c \<Longrightarrow> \<forall>c\<in>set f. is_digit c \<Longrightarrow> \<forall>c\<in>set (dotted i f). number_char c"
  by (auto simp: dotted_def number_char_def)

lemma number_parts:
  "\<forall>c\<in>set (take k (show_nat n)). is_digit c" "\<forall>c\<in>set (drop k (show_nat n)). is_digit c"
  "\<forall>c\<in>set (strip0 (drop k (show_nat n))). is_digit c" "\<forall>c\<in>set (strip0 (show_nat n)). is_digit c"
  by (auto dest!: strip0_sub in_set_takeD in_set_dropD)

lemma fmt17_chars:
  assumes "\<not> d_isnan d" "c \<in> set (fmt17 d)"
  shows "number_char c"
proof -
  have zero: "is_digit (CHR ''0'')" by (simp add: is_digit_def uchar_def)
  have "\<forall>c\<in>set (fixed_style (show_nat n) x). number_char c" for n x
  proof (cases "0 \<le> x")
    case True
    then show ?thesis using number_dotted [OF number_parts(1,3)] by (simp add: fixed_style_def)
  next
    case False
    have "\<forall>c\<in>set (replicate (nat (- x) - 1) (CHR ''0'') @ strip0 (show_nat n)). is_digit c"
      using zero number_parts(4) [of n] by auto
    from number_dotted [OF _ this, of "''0''"] show ?thesis using zero False by (simp add: fixed_style_def)
  qed
  moreover have "\<forall>c\<in>set (exp_style (show_nat n) x). number_char c" for n x
    using number_dotted [of "take 1 (show_nat n)" "strip0 (drop 1 (show_nat n))"] number_parts
    by (auto simp: exp_style_def number_char_def is_digit_def uchar_def dest: show_nat_digits)
  moreover have "number_char (CHR ''-'')" "number_char (CHR ''i'')" "number_char (CHR ''n'')" "number_char (CHR ''f'')"
    "number_char (CHR ''0'')" using zero by (simp_all add: number_char_def)
  ultimately show ?thesis
    using assms by (cases "digits17 (mag_val (d_mag d)) d_unit") (auto simp: fmt17_def split: if_splits)
qed

lemma fmt17_not_option:
  assumes "\<not> d_isnan d"
  shows "\<not> strcaseeq (fmt17 d) ''NX''" "\<not> strcaseeq (fmt17 d) ''XX''" "\<not> strcaseeq (fmt17 d) ''CH''"
    "\<not> strcaseeq (fmt17 d) ''INCR''"
proof -
  have c: "to_lower c = c \<and> c \<notin> set ''xhr''" if "c \<in> set (fmt17 d)" for c
    using fmt17_chars [OF assms that] by (auto simp: number_char_def is_digit_def to_lower_def uchar_def)
  then have "map to_lower (fmt17 d) = fmt17 d" by (simp add: map_idI)
  moreover have "map to_lower (cstr ''NX'') = ''nx''" "map to_lower (cstr ''XX'') = ''xx''"
    "map to_lower (cstr ''CH'') = ''ch''" "map to_lower (cstr ''INCR'') = ''incr''" by code_simp+
  ultimately show "\<not> strcaseeq (fmt17 d) ''NX''" "\<not> strcaseeq (fmt17 d) ''XX''" "\<not> strcaseeq (fmt17 d) ''CH''"
    "\<not> strcaseeq (fmt17 d) ''INCR''"
    using c [of "CHR ''x''"] c [of "CHR ''h''"] c [of "CHR ''r''"] by (auto simp: strcaseeq_def)
qed

text \<open>A score that its text determines.\<close>

definition plain_score :: "double \<Rightarrow> bool" where
  "plain_score d = (\<not> d_isnan d \<and> (d_mag d = 0 \<or> 2 ^ 52 \<le> d_mag d))"

lemma zadd_abs_items:
  assumes "\<not> incr fl" "\<not> nx fl" "\<not> xx fl" "\<forall>p\<in>set g. plain_score (snd p)"
  shows "snd (zadd_abs fl (concat (map (\<lambda>p. [fmt17 (snd p), fst p]) g)) added changed m) =
    foldl (\<lambda>m p. zadd_map m (snd p) (fst p)) m g"
  using assms
  by (induction g arbitrary: added changed m) (auto simp: parse_double_fmt17 plain_score_def)

lemma zadd_map_not_empty: "zadd_map m d x \<noteq> Map.empty"
proof -
  have "zadd_map m d x x \<noteq> None" by (auto simp: zadd_map_def split: option.split)
  then show ?thesis by metis
qed

lemma foldl_zadd_not_empty: "g \<noteq> [] \<Longrightarrow> foldl (\<lambda>m p. zadd_map m (snd p) (fst p)) m g \<noteq> Map.empty"
  by (cases g rule: rev_cases) (simp_all add: zadd_map_not_empty)

interpretation zadd: batch_command "redo now" 130 "[''ZADD'', k]" "\<lambda>p. [fmt17 (snd p), fst p]" "\<lambda>p. plain_score (snd p)"
    "\<lambda>m. put_zset k m (- 1) v" "\<lambda>m p. zadd_map m (snd p) (fst p)" for now k v
proof unfold_locales
  fix g :: "(bytes \<times> double) list" and acc
  let ?args = "concat (map (\<lambda>p. [fmt17 (snd p), fst p]) g)" and ?fl = "\<lparr>nx = False, xx = False, ch = False, incr = False\<rparr>"
  let ?add = "\<lambda>m. foldl (\<lambda>m p. zadd_map m (snd p) (fst p)) m g"
  assume g: "g \<noteq> []" "\<forall>p\<in>set g. plain_score (snd p)"
  then obtain p g' where p: "g = p # g'" "\<not> d_isnan (snd p)" by (cases g) (auto simp: plain_score_def)
  then have o: "zadd_opts ?args ?fl = (?fl, ?args)" using fmt17_not_option [OF p(2)] by simp
  have a: "snd (zadd_abs ?fl ?args 0 0 m) = ?add m" for m using zadd_abs_items [of ?fl g 0 0 m] g(2) by simp
  have "2 \<le> length ?args" "?args \<noteq> []" using p by simp_all
  then have "snd (spec_zadd (''ZADD'' # k # ?args) now w) =
      snd (on_zset w k (RNull, w(k \<mapsto> (AZset (?add Map.empty), - 1))) (\<lambda>m e. (RNull, w(k \<mapsto> (AZset (?add m), e)))))" for w
    using even_items [of "\<lambda>p. fmt17 (snd p)" fst g] o
    by (auto simp: spec_zadd_opts a [symmetric] on_zset_def split_def split: option.split aval.split)
  then show "redo now ([''ZADD'', k] @ ?args) (put_zset k acc (- 1) v) = put_zset k (?add acc) (- 1) v"
    using foldl_zadd_not_empty [OF g(1)]
    by (cases "acc = Map.empty") (simp_all add: redo_simps on_zset_def put_zset_def)
qed simp_all

section \<open>One key\<close>

definition rebuildable :: "int \<Rightarrow> robj \<Rightarrow> bool" where
  "rebuildable now ob =
     ((expire_at ob = - 1 \<or> 0 \<le> expire_at ob \<and> expire_at ob \<le> LLONG_MAX) \<and>
      (case ptr ob of
         PString x \<Rightarrow> expire_at ob = - 1 \<or> 0 < expire_at ob \<and> now < expire_at ob
       | PList l \<Rightarrow> list_vals l \<noteq> []
       | PHash h \<Rightarrow> dict_entries h \<noteq> []
       | PSet d \<Rightarrow> dict_entries d \<noteq> []
       | PZset zs \<Rightarrow> zset_items zs \<noteq> [] \<and> (\<forall>p\<in>set (zset_items zs). plain_score (snd p))))"

lemma foldl_upd_distinct:
  "distinct (map fst ps) \<Longrightarrow> foldl (\<lambda>m p. m(fst p \<mapsto> snd p)) m ps = m ++ map_of ps"
proof (induction ps arbitrary: m)
  case (Cons p ps)
  then have p: "fst p \<notin> fst ` set ps" "distinct (map fst ps)" by simp_all
  show ?case unfolding foldl.simps Cons.IH [OF p(2)] upd_map_add [OF p(1)] ..
qed simp

lemma foldl_zadd_distinct:
  "distinct (map fst ps) \<Longrightarrow> fst ` set ps \<inter> dom m = {} \<Longrightarrow>
     foldl (\<lambda>m p. zadd_map m (snd p) (fst p)) m ps = m ++ map_of ps"
proof (induction ps arbitrary: m)
  case (Cons p ps)
  then have p: "fst p \<notin> fst ` set ps" "distinct (map fst ps)" "m (fst p) = None" by auto
  have z: "zadd_map m (snd p) (fst p) = m(fst p \<mapsto> snd p)" using p(3) by (simp add: zadd_map_def)
  have d: "fst ` set ps \<inter> dom (m(fst p \<mapsto> snd p)) = {}" using Cons.prems by auto
  show ?case unfolding foldl.simps z Cons.IH [OF p(2) d] upd_map_add [OF p(1)] ..
qed simp

lemma value_rebuilt:
  assumes "payload_ok (ptr ob)" "rebuildable now ob" "v k = None" "type_of (ptr ob) \<noteq> OBJ_STRING"
  shows "fold (redo now) (value_cmds k (ptr ob)) v = v(k \<mapsto> (abs_payload (ptr ob), - 1))"
proof (cases "ptr ob")
  case (PString x)
  then show ?thesis using assms(4) by simp
next
  case (PList l)
  have "put_list k [] (- 1) v = v" using assms(3) by (auto simp: put_list_def)
  then show ?thesis
    using rpush.run_batches [where ys = "list_vals l" and now = now and k = k and v = v and acc = "[]"] assms(2) PList
    by (simp add: foldl_snoc rebuildable_def put_list_def)
next
  case (PHash h)
  let ?ps = "map pair_of (dict_entries h)"
  have h: "dict_ok h" "?ps \<noteq> []" using assms(1,2) PHash by (simp_all add: rebuildable_def)
  have m: "map_of ?ps = dict_get h" by (rule dict_entries_map [OF h(1)])
  have "distinct (map fst ?ps)" using dict_entries_distinct [OF h(1)] by (simp add: comp_def pair_of_def)
  from foldl_upd_distinct [OF this] have "foldl (\<lambda>m p. m(fst p \<mapsto> snd p)) Map.empty ?ps = dict_get h"
    unfolding m by (metis empty_map_add)
  moreover have "dict_get h \<noteq> Map.empty" using h(2) m by (metis map_of_eq_empty_iff)
  moreover have "put_hash k Map.empty (- 1) v = v" using assms(3) by (auto simp: put_hash_def)
  ultimately show ?thesis
    using hset.run_batches [where ys = ?ps and now = now and k = k and v = v and acc = Map.empty] PHash by (simp add: put_hash_def)
next
  case (PSet d)
  let ?ps = "map ekey (dict_entries d)"
  have d: "dict_ok d" "?ps \<noteq> []" using assms(1,2) PSet by (simp_all add: rebuildable_def)
  have "set ?ps = dom (dict_get d)"
    using arg_cong [OF dict_entries_map [OF d(1)], of dom] by (simp add: dom_map_of_conv_image_fst image_image pair_of_def)
  moreover have "set ?ps \<noteq> {}" using d(2) by simp
  moreover have "put_set k {} (- 1) v = v" using assms(3) by (auto simp: put_set_def)
  ultimately show ?thesis
    using sadd.run_batches [where ys = ?ps and now = now and k = k and v = v and acc = "{}"] PSet by (simp add: put_set_def foldl_insert)
next
  case (PZset zs)
  let ?ps = "zset_items zs"
  have z: "zset_ok zs" "?ps \<noteq> []" "\<forall>p\<in>set ?ps. plain_score (snd p)" using assms(1,2) PZset by (simp_all add: rebuildable_def)
  have m: "map_of ?ps = zset_score zs" by (rule zset_items_map [OF z(1)])
  have "foldl (\<lambda>m p. zadd_map m (snd p) (fst p)) Map.empty ?ps = zset_score zs"
    using foldl_zadd_distinct [of ?ps Map.empty] zset_items_sorted(2) [OF z(1)] m by simp
  moreover have "zset_score zs \<noteq> Map.empty" using z(2) m by (metis map_of_eq_empty_iff)
  moreover have "put_zset k Map.empty (- 1) v = v" using assms(3) by (auto simp: put_zset_def)
  ultimately show ?thesis
    using zadd.run_batches [where ys = ?ps and now = now and k = k and v = v and acc = Map.empty] z(3) PZset by (simp add: put_zset_def)
qed

lemma show_int_no_NUL [simp]: "CHR 0x00 \<notin> set (show_int i)"
  by (simp add: show_int_def)

lemma expire_rebuilt:
  assumes "0 \<le> e" "e \<le> LLONG_MAX"
  shows "redo now [''PEXPIREAT'', k, show_int e] (v(k \<mapsto> (a, e'))) = aput now k a e v"
proof -
  have "string_to_ll (show_int e) = Some e"
    using assms by (simp add: string_to_ll_def string_to_ll_n_show_int)
  then show ?thesis using assms(1) by (simp add: redo_simps spec_expireat_def aput_def)
qed

text \<open>\<open>SET key value PXAT e\<close>: the time left is kept unless it is negative.\<close>

lemma set_rebuilt:
  "redo now [''SET'', k, x] v = v(k \<mapsto> (AString x, - 1))"
  "0 < e \<Longrightarrow> e \<le> LLONG_MAX \<Longrightarrow>
     redo now [''SET'', k, x, ''PXAT'', show_int e] v =
       (if e < now then v(k \<mapsto> (AString x, - 1)) else aput now k (AString x) e v)"
proof -
  show "redo now [''SET'', k, x] v = v(k \<mapsto> (AString x, - 1))"
    by (simp add: redo_simps spec_set_opts set_expiry_def)
  assume e: "0 < e" "e \<le> LLONG_MAX"
  have "string_to_ll (show_int e) = Some e" "wrap64 e = e"
    using e by (simp_all add: string_to_ll_def string_to_ll_n_show_int wrap64_id)
  moreover have "strcaseeq ''PXAT'' ''PXAT''" "\<not> strcaseeq ''PXAT'' ''EX''" "\<not> strcaseeq ''PXAT'' ''PX''"
    "\<not> strcaseeq ''PXAT'' ''EXAT''" by code_simp+
  ultimately show "redo now [''SET'', k, x, ''PXAT'', show_int e] v =
      (if e < now then v(k \<mapsto> (AString x, - 1)) else aput now k (AString x) e v)"
    using e(1) by (simp add: redo_simps spec_set_opts set_expiry_def)
qed

lemma key_rebuilt:
  assumes "payload_ok (ptr ob)" "rebuildable now ob" "v k = None"
  shows "fold (redo now) (key_cmds (k, ob)) v = v(k := if key_expired now ob then None else Some (aobj ob))"
proof (cases "type_of (ptr ob) = OBJ_STRING")
  case True
  then obtain x where x: "ptr ob = PString x" by (cases "ptr ob") simp_all
  then show ?thesis
    using assms(2) set_rebuilt(1) [of now k x v] set_rebuilt(2) [of "expire_at ob" now k x v]
    by (auto simp: key_cmds_def rebuildable_def key_expired_def aobj_def aput_def)
next
  case False
  have "key_cmds (k, ob) = value_cmds k (ptr ob) @
      (if expire_at ob \<ge> 0 then [[''PEXPIREAT'', k, show_int (expire_at ob)]] else [])"
    using False by (cases "ptr ob") (simp_all add: key_cmds_def)
  then show ?thesis
    using value_rebuilt [of ob now v k] assms False expire_rebuilt [of "expire_at ob" now k v "abs_payload (ptr ob)" "- 1"]
    by (auto simp: rebuildable_def key_expired_def aobj_def aput_def)
qed

section \<open>The whole keyspace\<close>

definition alive_keys :: "int \<Rightarrow> (bytes \<times> robj) list \<Rightarrow> view" where
  "alive_keys now ps k =
     (case map_of ps k of None \<Rightarrow> None | Some ob \<Rightarrow> if key_expired now ob then None else Some (aobj ob))"

lemma keys_rebuilt:
  assumes "distinct (map fst ps)" "\<forall>p\<in>set ps. v (fst p) = None"
    "\<forall>p\<in>set ps. payload_ok (ptr (snd p)) \<and> rebuildable now (snd p)"
  shows "fold (redo now) (concat (map key_cmds ps)) v = v ++ alive_keys now ps"
  using assms
proof (induction ps arbitrary: v)
  case Nil
  then show ?case by (simp add: alive_keys_def map_add_def fun_eq_iff)
next
  case (Cons p ps)
  obtain k ob where p: "p = (k, ob)" by fastforce
  let ?v = "v(k := if key_expired now ob then None else Some (aobj ob))"
  have key: "fold (redo now) (key_cmds p) v = ?v" using key_rebuilt [of ob now v k] Cons.prems p by simp
  have rest: "fold (redo now) (concat (map key_cmds ps)) ?v = ?v ++ alive_keys now ps"
    by (rule Cons.IH) (use Cons.prems p in auto)
  have both: "?v ++ alive_keys now ps = v ++ alive_keys now (p # ps)"
    using Cons.prems(1,2) p
    by (auto simp: alive_keys_def map_add_def fun_eq_iff map_of_eq_None_iff [THEN iffD2] split: option.split)
  show ?case by (simp only: list.map concat.simps fold_append comp_apply key rest both)
qed

lemma stored_keys:
  assumes "dict_ok d"
  shows "distinct (map fst (rdb_keys d))" "map_of (rdb_keys d) = dict_get d"
    "p \<in> set (rdb_keys d) \<Longrightarrow> dict_get d (fst p) = Some (snd p)"
proof -
  show "distinct (map fst (rdb_keys d))" "map_of (rdb_keys d) = dict_get d"
    using dict_entries_distinct [OF assms] dict_entries_map [OF assms] by (simp_all add: rdb_keys_def comp_def pair_of_def)
  then show "dict_get d (fst p) = Some (snd p)" if "p \<in> set (rdb_keys d)"
    using that by (metis map_of_is_SomeI prod.collapse)
qed

lemma redo_spec:
  assumes "argv ! 0 \<in> set rewrite_names"
  obtains sp where "command_spec (argv ! 0) = Some (det sp)" "\<And>now v. redo now argv v = snd (sp argv now v)"
proof -
  from assms consider "argv ! 0 = ''SET''" | "argv ! 0 = ''RPUSH''" | "argv ! 0 = ''HSET''" | "argv ! 0 = ''SADD''"
    | "argv ! 0 = ''ZADD''" | "argv ! 0 = ''PEXPIREAT''"
    by (auto simp: rewrite_names_def)
  then show thesis using that rewrite_specs by cases (simp_all add: redo_def)
qed

text \<open>A command of a rewritten log as the replay reads it.\<close>

definition rewritten :: "command \<Rightarrow> bool" where
  "rewritten argv = (argv \<noteq> [] \<and> argv ! 0 \<in> set rewrite_names \<and> loggable argv \<and> (\<forall>a\<in>set argv. CHR 0x00 \<notin> set a))"

lemma replay_redo:
  assumes "st_ok (cur t)" "rewritten argv"
  shows "st_ok (cur (replay_step argv t))" "clock (cur (replay_step argv t)) = clock (cur t)"
    "view (cur (replay_step argv t)) = redo (clock (cur t)) argv (view (cur t))"
proof -
  have argv: "argv \<noteq> []" "argv ! 0 \<in> set rewrite_names" "map cstr argv = argv"
    using assms(2) by (auto simp: rewritten_def intro: map_idI)
  obtain sp where sp: "command_spec (argv ! 0) = Some (det sp)" "\<And>now v. redo now argv v = snd (sp argv now v)"
    using redo_spec [OF argv(2)] by blast
  have "gives (cur t) (cur (dispatch_command argv t)) (redo (clock (cur t)) argv (view (cur t)))
      (encode (fst (sp argv (clock (cur t)) (view (cur t)))))"
    using dispatch_ok [OF assms(1) argv(1) sp(1)] unfolding sp(2) det_def by (metis fst_conv snd_conv singletonD)
  then show "st_ok (cur (replay_step argv t))" "clock (cur (replay_step argv t)) = clock (cur t)"
    "view (cur (replay_step argv t)) = redo (clock (cur t)) argv (view (cur t))"
    using argv(3) by (simp_all add: replay_step_def gives_def)
qed

lemma replay_redo_all:
  "st_ok (cur t) \<Longrightarrow> \<forall>c\<in>set cmds. rewritten c \<Longrightarrow>
     st_ok (cur (fold replay_step cmds t)) \<and>
     view (cur (fold replay_step cmds t)) = fold (redo (clock (cur t))) cmds (view (cur t))"
  by (induction cmds arbitrary: t) (simp_all add: replay_redo)

lemma batches_name:
  "c \<in> set (batches cap base items argv) \<Longrightarrow> base \<noteq> [] \<Longrightarrow> argv \<noteq> [] \<Longrightarrow> argv ! 0 = base ! 0 \<Longrightarrow> c \<noteq> [] \<and> c ! 0 = base ! 0"
proof (induction items arbitrary: argv)
  case (Cons item items)
  have n: "(base @ item) ! 0 = base ! 0" "(argv @ item) ! 0 = base ! 0" using Cons.prems(2-4) by (simp_all add: nth_append)
  show ?case
  proof (cases "c = argv")
    case False
    then have "c \<in> set (batches cap base items (base @ item)) \<or> c \<in> set (batches cap base items (argv @ item))"
      using Cons.prems(1) by (auto split: if_splits)
    then show ?thesis using Cons.IH n Cons.prems(2,3) by blast
  qed (use Cons.prems in simp)
qed (auto split: if_splits)

lemma key_cmds_name: "c \<in> set (key_cmds p) \<Longrightarrow> c \<noteq> [] \<and> c ! 0 \<in> set rewrite_names"
  by (cases "ptr (snd p)") (auto simp: key_cmds_def rewrite_names_def dest!: batches_name split: if_splits)

section \<open>Properties\<close>

lemma replay_rewritten:
  assumes "\<forall>c\<in>set cmds. rewritten c" "cur t = db_create now mem sd rn" "read_file path (os t) = (Some (frames cmds), w)"
  shows "\<exists>t'. aof_replay path t = (0, t') \<and> st_ok (cur t') \<and> view (cur t') = fold (redo now) cmds Map.empty"
proof -
  have t: "st_ok (cur t)" "view (cur t) = Map.empty" using assms(2) db_create_ok by simp_all
  have l: "\<forall>c\<in>set cmds. loggable c" using assms(1) by (simp add: rewritten_def)
  have f: "frames cmds = frames cmds @ []" by simp
  show ?thesis
  proof (rule aof_replay_frames [OF assms(3) f l _ t(1)])
    fix t0 t1
    assume "aof_replay path t = (0, t1)" "st_ok (cur t0)" "view (cur t0) = view (cur t)"
      "view (cur t1) = view (cur (fold replay_step cmds t0))" "st_ok (cur (fold replay_step cmds t0)) \<Longrightarrow> st_ok (cur t1)"
      "clock (cur t0) = clock (cur t)"
    then show ?thesis using replay_redo_all [of t0 cmds] assms(1,2) t(2) by auto
  qed simp
qed

text \<open>
  C6. Rewriting the log. After a successful rewrite of a keyspace, replaying the new file into an
  empty keyspace gives, at the time of the replay, exactly the keyspace that was rewritten: every
  value of every type, in batches or not, with its expiration. This holds when no list, hash, set or
  sorted set is empty, no key or value holds a NUL byte, no score is subnormal or a NaN, and the time
  of every string that expires is still to come when the log is replayed; containers whose time has
  passed are gone, as they should be.
\<close>

theorem rewrite_rebuilds:
  assumes "st_ok s" "os_ok w" "aof_rewrite mem path (store s) w = (True, w')"
    "\<forall>p\<in>set (rdb_keys (store s)). rebuildable now (snd p)"
    "\<forall>c\<in>set (rewrite_cmds (store s)). loggable c \<and> (\<forall>a\<in>set c. CHR 0x00 \<notin> set a)"
    "cur t = db_create now mem' sd rn" "file_at path (os t) = file_at path w'" "sys_ok (os t) (sys_pos (os t))"
  shows "\<exists>t'. aof_replay path t = (0, t') \<and> st_ok (cur t') \<and> view (cur t') = view_of now (store s)"
proof -
  let ?d = "store s"
  have d: "dict_ok ?d" using assms(1) by (rule st_ok_store)
  have f: "file_at path (os t) = Some (frames (rewrite_cmds ?d))"
    using aof_rewrite_ok [OF assms(2,3)] assms(7) by (simp add: replaced_def)
  then obtain w1 where r: "read_file path (os t) = (Some (frames (rewrite_cmds ?d)), w1)"
    using assms(8) by (auto simp: file_at_def read_file_def sys_call_def)
  have "\<forall>c\<in>set (rewrite_cmds ?d). rewritten c"
    using assms(5) key_cmds_name by (auto simp: rewritten_def rewrite_cmds_def)
  note replay = replay_rewritten [OF this assms(6) r]
  have "\<forall>p\<in>set (rdb_keys ?d). payload_ok (ptr (snd p)) \<and> rebuildable now (snd p)"
    using assms(1,4) stored_keys(3) [OF d] unfolding st_ok_def by blast
  from keys_rebuilt [OF stored_keys(1) [OF d] _ this, of Map.empty]
  have "fold (redo now) (rewrite_cmds ?d) Map.empty = alive_keys now (rdb_keys ?d)" by (simp add: rewrite_cmds_def)
  also have "alive_keys now (rdb_keys ?d) = view_of now ?d"
    by (simp add: alive_keys_def view_of_def fun_eq_iff stored_keys(2) [OF d])
  finally show ?thesis using replay by simp
qed

text \<open>
  C37. A string whose expiration passes between the rewrite and the replay comes back for good:
  the rewritten log holds \<open>SET key value PXAT time\<close>, and replayed after that time this stores the
  key with no expiration at all, although it has expired.
\<close>

theorem rewrite_revives_string:
  assumes "ptr ob = PString x" "0 < expire_at ob" "expire_at ob < now" "expire_at ob \<le> LLONG_MAX"
    "\<forall>c\<in>set (key_cmds (k, ob)). loggable c \<and> (\<forall>a\<in>set c. CHR 0x00 \<notin> set a)"
    "cur t = db_create now mem sd rn" "read_file path (os t) = (Some (frames (key_cmds (k, ob))), w)"
  shows "key_expired now ob \<and>
    (\<exists>t'. aof_replay path t = (0, t') \<and> view (cur t') = [k \<mapsto> (AString x, - 1)])"
proof -
  have "\<forall>c\<in>set (key_cmds (k, ob)). rewritten c"
    using assms(5) key_cmds_name by (auto simp: rewritten_def)
  from replay_rewritten [OF this assms(6,7)] show ?thesis
    using assms(1-4) set_rebuilt(2) [of "expire_at ob" now k x Map.empty]
    by (auto simp: key_cmds_def key_expired_def)
qed

lemma demo_entries:
  obtains e where "dict_entries (store rdb_demo) = [e]" "pair_of e = (''k'', \<lparr>ptr = PString ''v'', expire_at = 5000\<rparr>)"
proof -
  have d: "dict_ok (store rdb_demo)" using rdb_demo_facts(1) by (rule st_ok_store)
  have "length (dict_entries (store rdb_demo)) = 1"
    using dict_size_correct [OF d] rdb_demo_facts(3) by (simp flip: pairs_of_entries [OF d])
  then obtain e where e: "dict_entries (store rdb_demo) = [e]" by (auto simp: length_Suc_conv)
  have "map_of [pair_of e] = [''k'' \<mapsto> \<lparr>ptr = PString ''v'', expire_at = 5000\<rparr>]"
    using stored_keys(2) [OF d] e rdb_demo_facts(2) by (simp add: rdb_keys_def)
  then have "pair_of e = (''k'', \<lparr>ptr = PString ''v'', expire_at = 5000\<rparr>)"
    by (metis map_of_eq_Some_iff [of "[pair_of e]"] fun_upd_same list.set_intros(1) list.set(1) list.set(2) singletonD
        distinct_singleton list.map(1) list.map(2))
  then show thesis using that e by blast
qed

theorem rewrite_rebuilds_witness:
  "\<exists>w' t'. aof_rewrite (\<lambda>_. CHR 0x00) ''a'' (store rdb_demo) good_os = (True, w') \<and>
     aof_replay ''a'' (demo_srv\<lparr>os := w'\<rparr>) = (0, t') \<and> view (cur t') ''k'' = Some (AString ''v'', 5000)"
proof -
  let ?ob = "\<lparr>ptr = PString ''v'', expire_at = 5000\<rparr>"
  obtain e where e: "dict_entries (store rdb_demo) = [e]" "pair_of e = (''k'', ?ob)" using demo_entries .
  then have k: "ekey e = ''k''" "evalue e = ?ob" "rdb_keys (store rdb_demo) = [(''k'', ?ob)]"
    by (simp_all add: pair_of_def rdb_keys_def)
  let ?r = "aof_rewrite (\<lambda>_. CHR 0x00) ''a'' (store rdb_demo) good_os"
  have r: "fst ?r" "sys_ok (snd ?r) = (\<lambda>_. True)"
    using e(1) k
    by (simp_all add: aof_rewrite_def open_trunc_def create_file_def good_os_def sys_call_def aof_rewrite_key_def
        aw_write_command_def write_file_def sync_and_rename_def rename_file_def)
  have o: "os_ok good_os" by (simp add: os_ok_def good_os_def)
  have b: "\<forall>p\<in>set (rdb_keys (store rdb_demo)). rebuildable 1000 (snd p)" using k(3) by (simp add: rebuildable_def)
  have l: "\<forall>c\<in>set (rewrite_cmds (store rdb_demo)). loggable c \<and> (\<forall>a\<in>set c. CHR 0x00 \<notin> set a)"
    using k(3) by (simp add: rewrite_cmds_def key_cmds_def loggable_def frame_ok_def MAX_ARGC_def MAX_BULK_LEN_def
        resp_frame_def bulk_frame_def crlf_def show_int_def show_nat.simps digit_char_def char_of_def bit_0)
  have p: "?r = (True, snd ?r)" using r(1) by (simp add: prod_eq_iff)
  have c: "cur (demo_srv\<lparr>os := snd ?r\<rparr>) = db_create 1000 (\<lambda>_. CHR 0x00) (\<lambda>_. replicate 16 (CHR 0x00)) (\<lambda>_. 0)"
    by (simp add: demo_srv_def demo_st_def)
  have f: "file_at ''a'' (os (demo_srv\<lparr>os := snd ?r\<rparr>)) = file_at ''a'' (snd ?r)"
    "sys_ok (os (demo_srv\<lparr>os := snd ?r\<rparr>)) (sys_pos (os (demo_srv\<lparr>os := snd ?r\<rparr>)))"
    using r(2) by simp_all
  have "view_of 1000 (store rdb_demo) ''k'' = Some (AString ''v'', 5000)"
    by (simp add: view_of_def rdb_demo_facts(2) key_expired_def aobj_def)
  then show ?thesis using rewrite_rebuilds [OF rdb_demo_facts(1) o p b l c f] p by (metis fst_conv)
qed

theorem rewrite_revives_string_witness:
  "let ob = \<lparr>ptr = PString ''v'', expire_at = 500\<rparr>
   in key_expired 1000 ob \<and>
      (\<exists>t'. aof_replay ''a'' (demo_srv\<lparr>os := good_os\<lparr>names := [''a'' \<mapsto> 0], inodes := (\<lambda>_. frames (key_cmds (''k'', ob)))\<rparr>\<rparr>) = (0, t') \<and>
         view (cur t') = [''k'' \<mapsto> (AString ''v'', - 1)])"
proof -
  let ?ob = "\<lparr>ptr = PString ''v'', expire_at = 500\<rparr>"
  let ?t = "demo_srv\<lparr>os := good_os\<lparr>names := [''a'' \<mapsto> 0], inodes := (\<lambda>_. frames (key_cmds (''k'', ?ob)))\<rparr>\<rparr>"
  have "\<forall>c\<in>set (key_cmds (''k'', ?ob)). loggable c \<and> (\<forall>a\<in>set c. CHR 0x00 \<notin> set a)"
    by (simp add: key_cmds_def loggable_def frame_ok_def MAX_ARGC_def MAX_BULK_LEN_def
        resp_frame_def bulk_frame_def crlf_def show_int_def show_nat.simps digit_char_def char_of_def bit_0)
  moreover have "cur ?t = db_create 1000 (\<lambda>_. CHR 0x00) (\<lambda>_. replicate 16 (CHR 0x00)) (\<lambda>_. 0)"
    by (simp add: demo_srv_def demo_st_def)
  moreover obtain w where "read_file ''a'' (os ?t) = (Some (frames (key_cmds (''k'', ?ob))), w)"
    by (simp add: read_file_def sys_call_def good_os_def)
  ultimately show ?thesis
    using rewrite_revives_string [of ?ob "''v''" 1000 "''k''" ?t] by (simp add: Let_def)
qed

end
