(* ===== verification/Background.thy ===== *)
theory Background
  imports Rewrite
begin

text \<open>
  Background children and what the server does when one ends (\<open>reap_children\<close> of \<open>src/server.c\<close>).
  The work of a child, its end and the signal are one step that may happen at any time between two
  commands; the server reaps later.
\<close>

definition child_exit :: "nat \<Rightarrow> srv \<Rightarrow> srv" where
  "child_exit j s =
     (if j < length (children s)
      then s\<lparr>os := (case children s ! j of
                      Child_save d \<Rightarrow>
                        (case g_rdb_path s of None \<Rightarrow> os s | Some path \<Rightarrow> snd (rdb_save (junk (cur s)) path d (os s)))
                    | Child_rewrite d \<Rightarrow>
                        (case g_aof_path s of None \<Rightarrow> os s | Some path \<Rightarrow> snd (aof_rewrite (junk (cur s)) path d (os s)))),
             children := take j (children s) @ drop (Suc j) (children s), g_sigchld := True\<rparr>
      else s)"

definition reap_children :: "srv \<Rightarrow> srv" where
  "reap_children s =
     (if \<not> g_sigchld s then s
      else let s1 = s\<lparr>g_sigchld := False\<rparr>
           in if g_aof_rewriting s1 then snd (aof_reopen (s1\<lparr>g_aof_rewriting := False\<rparr>)) else s1)"

section \<open>Commands while a rewrite is in flight\<close>

lemma logged_bg:
  assumes "logging i s" "dynbuf_ok (g_rewrite_buf s)"
  shows "dynbuf_ok (g_rewrite_buf (logged e argv s))" "g_sigchld (logged e argv s) = g_sigchld s"
    "contents (g_rewrite_buf (logged e argv s)) =
       contents (g_rewrite_buf s) @ (if g_aof_rewriting s \<and> is_write e then resp_frame argv else [])"
proof -
  obtain ok w where w: "write_file i (resp_frame argv) (os s) = (ok, w)" by fastforce
  moreover have "ok" using write_reliable(1) [OF _ w] assms(1) by (simp add: logging_def)
  ultimately show "dynbuf_ok (g_rewrite_buf (logged e argv s))" "g_sigchld (logged e argv s) = g_sigchld s"
    "contents (g_rewrite_buf (logged e argv s)) =
       contents (g_rewrite_buf s) @ (if g_aof_rewriting s \<and> is_write e then resp_frame argv else [])"
    using assms by (auto simp: logging_def logged_def aof_append_command_def Let_def ob.append_bytes ob.append_bytes_invar)
qed

lemma dispatch_bg:
  assumes "logging i s" "dynbuf_ok (g_rewrite_buf s)" "argv \<noteq> []" "command_spec (argv ! 0) \<noteq> None"
    "s' = dispatch_command argv s"
  shows "g_aof_path s' = g_aof_path s" "g_rdb_path s' = g_rdb_path s" "g_aof_rewriting s' = g_aof_rewriting s"
    "children s' = children s" "g_sigchld s' = g_sigchld s" "dynbuf_ok (g_rewrite_buf s')"
    "contents (g_rewrite_buf s') =
       contents (g_rewrite_buf s) @ (if g_aof_rewriting s then frames (filter write_cmd [argv]) else [])"
proof -
  let ?P = "g_aof_path s' = g_aof_path s \<and> g_rdb_path s' = g_rdb_path s \<and> g_aof_rewriting s' = g_aof_rewriting s \<and>
    children s' = children s \<and> g_sigchld s' = g_sigchld s \<and> dynbuf_ok (g_rewrite_buf s') \<and>
    contents (g_rewrite_buf s') =
      contents (g_rewrite_buf s) @ (if g_aof_rewriting s then frames (filter write_cmd [argv]) else [])"
  from assms(3) have ?P
  proof (cases rule: dispatch_cases [of argv s])
    case unknown
    then show ?thesis using assms(2,5) by (simp add: write_cmd_def answer_def)
  next
    case (db e f sp)
    then show ?thesis using logged_bg [OF assms(1,2), of e argv] assms(5) by (simp add: write_cmd_def on_db_def)
  next
    case (other e)
    then show ?thesis using assms(4) by simp
  qed
  then show "g_aof_path s' = g_aof_path s" "g_rdb_path s' = g_rdb_path s" "g_aof_rewriting s' = g_aof_rewriting s"
    "children s' = children s" "g_sigchld s' = g_sigchld s" "dynbuf_ok (g_rewrite_buf s')"
    "contents (g_rewrite_buf s') =
       contents (g_rewrite_buf s) @ (if g_aof_rewriting s then frames (filter write_cmd [argv]) else [])"
    by blast+
qed

text \<open>
  A run of the server with its children: keyspace commands are served, a child ends, the server
  reaps. The label is the list of the commands logged so far.
\<close>

inductive bg_run :: "srv \<Rightarrow> command list \<Rightarrow> srv \<Rightarrow> bool" where
  bg_start: "bg_run s [] s"
| bg_serve: "\<lbrakk>bg_run s ws s1; argv \<noteq> []; command_spec (argv ! 0) \<noteq> None\<rbrakk>
    \<Longrightarrow> bg_run s (ws @ filter write_cmd [argv]) (serve_at t argv s1)"
| bg_exit: "bg_run s ws s1 \<Longrightarrow> bg_run s ws (child_exit j s1)"
| bg_reap: "bg_run s ws s1 \<Longrightarrow> bg_run s ws (reap_children s1)"

definition bg_common :: "bytes \<Rightarrow> srv \<Rightarrow> bool" where
  "bg_common path s =
     (os_ok (os s) \<and> healthy (os s) \<and> \<not> g_aof_replaying s \<and> g_aof_path s = Some path \<and> dynbuf_ok (g_rewrite_buf s))"

text \<open>The child is at work; it has ended but is not reaped; it is reaped.\<close>

definition bg_working :: "bytes \<Rightarrow> nat \<Rightarrow> bytes \<Rightarrow> robj dict \<Rightarrow> command list \<Rightarrow> srv \<Rightarrow> bool" where
  "bg_working path i old d ws s =
     (g_aof_rewriting s \<and> children s = [Child_rewrite d] \<and> \<not> g_sigchld s \<and> g_aof_fd s = Some i \<and>
      names (os s) path = Some i \<and> inodes (os s) i = old @ frames ws \<and> contents (g_rewrite_buf s) = frames ws)"

definition bg_swapped :: "bytes \<Rightarrow> robj dict \<Rightarrow> command list \<Rightarrow> srv \<Rightarrow> bool" where
  "bg_swapped path d ws s =
     (g_aof_rewriting s \<and> children s = [] \<and> g_sigchld s \<and>
      (\<exists>i. g_aof_fd s = Some i \<and> names (os s) path \<noteq> Some i) \<and>
      file_at path (os s) = Some (frames (rewrite_cmds d)) \<and> contents (g_rewrite_buf s) = frames ws)"

definition bg_reaped :: "bytes \<Rightarrow> robj dict \<Rightarrow> command list \<Rightarrow> srv \<Rightarrow> bool" where
  "bg_reaped path d ws s =
     (\<not> g_aof_rewriting s \<and> children s = [] \<and> contents (g_rewrite_buf s) = [] \<and>
      (\<exists>i. g_aof_fd s = Some i \<and> names (os s) path = Some i \<and> inodes (os s) i = frames (rewrite_cmds d) @ frames ws))"

definition bg_inv :: "bytes \<Rightarrow> nat \<Rightarrow> bytes \<Rightarrow> robj dict \<Rightarrow> command list \<Rightarrow> srv \<Rightarrow> bool" where
  "bg_inv path i old d ws s =
     (bg_common path s \<and> (bg_working path i old d ws s \<or> bg_swapped path d ws s \<or> bg_reaped path d ws s))"

lemma healthy_reliable: "healthy w \<Longrightarrow> reliable w"
  by (simp add: healthy_def reliable_def)

lemma serve_bg:
  assumes "bg_common path s" "g_aof_fd s = Some i" "argv \<noteq> []" "command_spec (argv ! 0) \<noteq> None" "s' = serve_at t argv s"
  shows "bg_common path s'" "g_aof_fd s' = Some i" "g_aof_rewriting s' = g_aof_rewriting s"
    "children s' = children s" "g_sigchld s' = g_sigchld s" "appends i (frames (filter write_cmd [argv])) (os s) (os s')"
    "contents (g_rewrite_buf s') =
       contents (g_rewrite_buf s) @ (if g_aof_rewriting s then frames (filter write_cmd [argv]) else [])"
proof -
  let ?s = "s\<lparr>cur := (cur s)\<lparr>clock := t\<rparr>\<rparr>"
  have l: "logging i ?s" "dynbuf_ok (g_rewrite_buf ?s)"
    using assms(1,2) healthy_reliable by (simp_all add: bg_common_def logging_def)
  note d = dispatch_bg [OF l assms(3,4) refl] dispatch_log [OF l(1) assms(3,4)]
  show a: "appends i (frames (filter write_cmd [argv])) (os s) (os s')" using d assms(5) by (simp add: serve_at_def)
  have "healthy (os s')" using a same_calls_healthy assms(1) by (auto simp: appends_def bg_common_def)
  then show "bg_common path s'"
    using d assms(1,5) appends_ok [OF a] by (simp add: bg_common_def serve_at_def logging_def)
  show "g_aof_fd s' = Some i" "g_aof_rewriting s' = g_aof_rewriting s"
    "children s' = children s" "g_sigchld s' = g_sigchld s"
    "contents (g_rewrite_buf s') =
       contents (g_rewrite_buf s) @ (if g_aof_rewriting s then frames (filter write_cmd [argv]) else [])"
    using d assms(5) by (simp_all add: serve_at_def logging_def)
qed

lemma serve_keeps:
  assumes "bg_inv path i old d ws s" "argv \<noteq> []" "command_spec (argv ! 0) \<noteq> None"
  shows "bg_inv path i old d (ws @ filter write_cmd [argv]) (serve_at t argv s)"
proof -
  obtain fd where fd: "g_aof_fd s = Some fd" and c: "bg_common path s"
    using assms(1) by (auto simp: bg_inv_def bg_working_def bg_swapped_def bg_reaped_def)
  note s = serve_bg [OF c fd assms(2,3) refl, of t]
  have a: "names (os (serve_at t argv s)) = names (os s)"
    "inodes (os (serve_at t argv s)) = (inodes (os s))(fd := inodes (os s) fd @ frames (filter write_cmd [argv]))"
    using s(6) by (simp_all add: appends_def)
  from assms(1) consider "bg_working path i old d ws s" | "bg_swapped path d ws s" | "bg_reaped path d ws s"
    by (auto simp: bg_inv_def)
  then show ?thesis
  proof cases
    case 1
    then have "bg_working path i old d (ws @ filter write_cmd [argv]) (serve_at t argv s)"
      using s a fd by (simp add: bg_working_def)
    then show ?thesis using s(1) by (simp add: bg_inv_def)
  next
    case 2
    then have "bg_swapped path d (ws @ filter write_cmd [argv]) (serve_at t argv s)"
      using s a fd by (auto simp: bg_swapped_def file_at_def)
    then show ?thesis using s(1) by (simp add: bg_inv_def)
  next
    case 3
    then have "bg_reaped path d (ws @ filter write_cmd [argv]) (serve_at t argv s)"
      using s a fd by (simp add: bg_reaped_def)
    then show ?thesis using s(1) by (simp add: bg_inv_def)
  qed
qed

lemma exit_keeps:
  assumes "bg_inv path i old d ws s"
  shows "bg_inv path i old d ws (child_exit j s)"
proof (cases "bg_working path i old d ws s \<and> j = 0")
  case True
  then have s: "bg_common path s" "bg_working path i old d ws s" "j = 0" using assms by (auto simp: bg_inv_def)
  obtain rc w where w: "aof_rewrite (junk (cur s)) path d (os s) = (rc, w)" by fastforce
  have "os_ok (os s)" using s(1) by (simp add: bg_common_def)
  note r = aof_rewrite_ok [OF this w]
  have e: "child_exit j s = s\<lparr>os := w, children := [], g_sigchld := True\<rparr>"
    using s w by (simp add: child_exit_def bg_working_def bg_common_def)
  have h: "rc" "os_ok w" "healthy w" using r s(1) same_calls_healthy by (auto simp: replaced_def bg_common_def)
  then have "file_at path w = Some (frames (rewrite_cmds d))" "names w path \<noteq> Some i"
    using r s(2) by (auto simp: replaced_def bg_working_def)
  then have "bg_swapped path d ws (child_exit j s)" using s(2) e by (simp add: bg_working_def bg_swapped_def)
  moreover have "bg_common path (child_exit j s)" using s(1) h e by (simp add: bg_common_def)
  ultimately show ?thesis by (simp add: bg_inv_def)
next
  case False
  then have "j \<ge> length (children s)"
    using assms by (auto simp: bg_inv_def bg_working_def bg_swapped_def bg_reaped_def)
  then show ?thesis using assms by (simp add: child_exit_def)
qed

lemma reopen_bg:
  assumes "bg_common path s" "g_aof_fd s \<noteq> None" "names (os s) path = Some j"
  obtains s' where "aof_reopen s = (True, s')" "bg_common path s'" "g_aof_fd s' = Some j" "names (os s') = names (os s)"
    "inodes (os s') = (inodes (os s))(j := inodes (os s) j @ contents (g_rewrite_buf s))" "contents (g_rewrite_buf s') = []"
    "children s' = children s" "g_aof_rewriting s' = g_aof_rewriting s" "g_sigchld s' = g_sigchld s"
proof -
  let ?w = "snd (sys_call (snd (sys_call (os s))))"
  let ?s = "s\<lparr>os := ?w, g_aof_fd := Some j, aof_last_fsync_ms := clock (cur s)\<rparr>"
  have o: "open_append path (snd (sys_call (os s))) = (Some j, ?w)"
    using assms by (auto simp: open_append_def bg_common_def healthy_def sys_call_def)
  have h: "healthy ?w" "os_ok ?w" using assms(1) by (auto simp: bg_common_def healthy_def sys_call_def os_ok_def)
  show thesis
  proof (cases "dlen (g_rewrite_buf s) > 0")
    case False
    then have "aof_reopen s = (True, ?s)" "contents (g_rewrite_buf s) = []"
      using assms o by (auto simp: aof_reopen_def aof_open_def bg_common_def contents_def)
    then show thesis using that [of ?s] assms(1) h by (simp add: bg_common_def)
  next
    case True
    obtain ok w' where w': "write_file j (contents (g_rewrite_buf s)) ?w = (ok, w')" by fastforce
    let ?s' = "?s\<lparr>os := w', g_rewrite_buf := dynbuf_clear (g_rewrite_buf s)\<rparr>"
    have r: "aof_reopen s = (True, ?s')"
      using True assms o w' by (auto simp: aof_reopen_def aof_open_def bg_common_def Let_def)
    have a: "appends j (contents (g_rewrite_buf s)) ?w w'" using write_reliable(2) [OF healthy_reliable [OF h(1)] w'] .
    then have "healthy w'" "os_ok w'"
      using h same_calls_healthy [of ?w w'] appends_ok [OF a] by (simp_all only: appends_def)
    then show thesis using that [OF r] assms(1) a by (simp add: bg_common_def appends_def dynbuf_clear_ok)
  qed
qed

lemma reap_keeps:
  assumes "bg_inv path i old d ws s"
  shows "bg_inv path i old d ws (reap_children s)" "g_sigchld s \<Longrightarrow> \<not> g_aof_rewriting (reap_children s)"
proof -
  have "bg_inv path i old d ws (reap_children s) \<and> (g_sigchld s \<longrightarrow> \<not> g_aof_rewriting (reap_children s))"
  proof (cases "bg_swapped path d ws s")
    case True
    let ?s = "s\<lparr>g_sigchld := False, g_aof_rewriting := False\<rparr>"
    obtain j where j: "names (os s) path = Some j" "inodes (os s) j = frames (rewrite_cmds d)"
      using True by (auto simp: bg_swapped_def file_at_def)
    have c: "bg_common path ?s" using assms by (simp add: bg_inv_def bg_common_def)
    obtain s' where s': "aof_reopen ?s = (True, s')" "bg_common path s'" "g_aof_fd s' = Some j" "names (os s') = names (os s)"
      "inodes (os s') = (inodes (os s))(j := inodes (os s) j @ contents (g_rewrite_buf s))" "contents (g_rewrite_buf s') = []"
      "children s' = children s" "\<not> g_aof_rewriting s'"
      using reopen_bg [OF c, of j] j(1) True by (auto simp: bg_swapped_def)
    have "reap_children s = s'" using s'(1) True by (simp add: reap_children_def bg_swapped_def)
    moreover have "bg_reaped path d ws s'" using s' j True by (simp add: bg_reaped_def bg_swapped_def)
    ultimately show ?thesis using s'(2,8) by (simp add: bg_inv_def)
  next
    case False
    then show ?thesis
      using assms by (auto simp: bg_inv_def bg_working_def bg_reaped_def bg_common_def reap_children_def)
  qed
  then show "bg_inv path i old d ws (reap_children s)" "g_sigchld s \<Longrightarrow> \<not> g_aof_rewriting (reap_children s)" by blast+
qed

lemma bg_run_inv: "bg_run s ws s' \<Longrightarrow> bg_inv path i old d [] s \<Longrightarrow> bg_inv path i old d ws s'"
  by (induction rule: bg_run.induct) (simp_all add: serve_keeps exit_keeps reap_keeps(1) del: filter.simps)

section \<open>Properties\<close>

text \<open>A server that logs to its file, with no child and every system call succeeding.\<close>

definition log_ready :: "bytes \<Rightarrow> nat \<Rightarrow> srv \<Rightarrow> bool" where
  "log_ready path i s =
     (bg_common path s \<and> g_aof_fd s = Some i \<and> names (os s) path = Some i \<and> \<not> g_aof_rewriting s \<and>
      children s = [] \<and> \<not> g_sigchld s \<and> contents (g_rewrite_buf s) = [])"

lemma find_command: "find (\<lambda>e. strcaseeq (cname e) n) commands = find (\<lambda>e. cname e = map to_lower (cstr n)) commands"
proof -
  have "\<forall>e\<in>set commands. map to_lower (cstr (cname e)) = cname e"
    using table_meets specs_lower nth_mem [of _ specs] by (auto simp: list_all2_conv_all_nth in_set_conv_nth meets_def)
  then show ?thesis by (intro find_cong refl) (simp only: strcaseeq_def)
qed

lemma find_bgrewriteaof:
  "find (\<lambda>e. strcaseeq (cname e) ''BGREWRITEAOF'') commands = Some (entry ''bgrewriteaof'' False cmd_bgrewriteaof)"
proof -
  have "map to_lower (cstr ''BGREWRITEAOF'') = ''bgrewriteaof''" by code_simp
  then show ?thesis unfolding find_command by (simp only: commands_def entry_def) simp
qed

lemma bgrewrite_starts:
  assumes "log_ready path i s"
  shows "bg_inv path i (inodes (os s) i) (store (cur s)) [] (dispatch_command [''BGREWRITEAOF''] s)"
proof -
  let ?w = "snd (sys_call (os s))"
  have h: "healthy ?w" "os_ok ?w" using assms by (simp_all add: log_ready_def bg_common_def healthy_def sys_call_def os_ok_def)
  have "dispatch_command [''BGREWRITEAOF''] s = answer (reply_simple ''Background append only file rewriting started'')
      (s\<lparr>os := ?w, children := [Child_rewrite (store (cur s))], g_aof_rewriting := True\<rparr>)"
    using assms
    by (simp add: dispatch_command_def find_bgrewriteaof entry_def cmd_bgrewriteaof_def log_ready_def bg_common_def
        healthy_def split_def)
  then show ?thesis
    using assms h by (simp add: bg_inv_def bg_common_def bg_working_def log_ready_def answer_def)
qed

text \<open>
  C7. A background rewrite loses no write, provided that no other background job runs and no system
  call fails. \<open>BGREWRITEAOF\<close> is served while no child is at work; after it come any keyspace commands
  (any but \<open>QUIT\<close> and those that save or rewrite), and the child ends and is reaped at any moments in
  between. While the child works the old log grows as always; once it is reaped the log is the compact
  one followed by every command logged since the fork, and the open descriptor is that file; in
  between, the commands are all in the rewrite buffer. Reaping after the end of the child ends the
  rewrite.
\<close>

theorem bgrewrite_no_loss:
  assumes "log_ready path i s0" "bg_run (dispatch_command [''BGREWRITEAOF''] s0) ws s"
  shows "(g_aof_rewriting s \<and> children s \<noteq> [] \<longrightarrow> file_at path (os s) = Some (inodes (os s0) i @ frames ws)) \<and>
    (g_aof_rewriting s \<and> children s = [] \<longrightarrow>
       file_at path (os s) = Some (frames (rewrite_cmds (store (cur s0)))) \<and> contents (g_rewrite_buf s) = frames ws) \<and>
    (\<not> g_aof_rewriting s \<longrightarrow>
       file_at path (os s) = Some (frames (rewrite_cmds (store (cur s0))) @ frames ws) \<and> g_aof_fd s = names (os s) path) \<and>
    \<not> g_aof_rewriting (reap_children (child_exit 0 s))"
proof -
  let ?old = "inodes (os s0) i" and ?d = "store (cur s0)"
  have inv: "bg_inv path i ?old ?d ws s" using bg_run_inv [OF assms(2) bgrewrite_starts [OF assms(1)]] .
  have "g_sigchld (child_exit 0 s) \<or> \<not> g_aof_rewriting (child_exit 0 s)"
    using inv by (auto simp: bg_inv_def bg_working_def bg_swapped_def bg_reaped_def child_exit_def)
  then have "\<not> g_aof_rewriting (reap_children (child_exit 0 s))"
    using reap_keeps(2) [OF exit_keeps [OF inv]] by (auto simp: reap_children_def)
  then show ?thesis
    using inv by (auto simp: bg_inv_def bg_working_def bg_swapped_def bg_reaped_def file_at_def)
qed

text \<open>
  When another child ends first. Both children are at work; the server reaps the child of a
  \<open>BGSAVE\<close> and takes it for the end of the rewrite.
\<close>

lemma serve_all_bg:
  assumes "bg_common path s" "g_aof_fd s = Some i" "\<forall>c\<in>set cs. snd c \<noteq> [] \<and> command_spec (snd c ! 0) \<noteq> None"
  shows "bg_common path (serve_all cs s) \<and> g_aof_fd (serve_all cs s) = Some i \<and>
    g_aof_rewriting (serve_all cs s) = g_aof_rewriting s \<and> children (serve_all cs s) = children s \<and>
    names (os (serve_all cs s)) = names (os s) \<and> (\<forall>j. j \<noteq> i \<longrightarrow> inodes (os (serve_all cs s)) j = inodes (os s) j)"
  using assms
proof (induction cs arbitrary: s)
  case (Cons c cs)
  obtain t argv where c: "c = (t, argv)" by fastforce
  have "argv \<noteq> []" "command_spec (argv ! 0) \<noteq> None" using Cons.prems(3) c by auto
  note s = serve_bg [OF Cons.prems(1,2) this refl, of t]
  show ?case using Cons.IH [OF s(1,2)] s(3,4,6) Cons.prems(3) c by (simp add: appends_def)
qed simp

definition bg_astray :: "bytes \<Rightarrow> nat \<Rightarrow> robj dict \<Rightarrow> srv \<Rightarrow> bool" where
  "bg_astray path i d s =
     (bg_common path s \<and> g_aof_fd s = Some i \<and> names (os s) path = Some i \<and> \<not> g_aof_rewriting s \<and>
      children s = [Child_rewrite d])"

lemma wrong_reap:
  assumes "bg_common path s" "g_aof_fd s = Some i" "names (os s) path = Some i" "g_aof_rewriting s"
    "children s = [Child_rewrite d, Child_save d']" "g_rdb_path s = Some rp" "path \<notin> {rp, rdb_tmp rp}"
  shows "bg_astray path i d (reap_children (child_exit 1 s))"
proof -
  obtain rc w where w: "rdb_save (junk (cur s)) rp d' (os s) = (rc, w)" by fastforce
  have "os_ok (os s)" using assms(1) by (simp add: bg_common_def)
  note r = rdb_save_ok [OF this w]
  let ?s = "s\<lparr>os := w, children := [Child_rewrite d], g_sigchld := False, g_aof_rewriting := False\<rparr>"
  have "healthy w" "os_ok w" "names w path = Some i"
    using r assms(1,3,7) same_calls_healthy by (auto simp: replaced_def bg_common_def)
  then have c: "bg_common path ?s" "names (os ?s) path = Some i" using assms(1) by (simp_all add: bg_common_def)
  have e: "reap_children (child_exit 1 s) = snd (aof_reopen ?s)"
    using assms w by (simp add: child_exit_def reap_children_def)
  obtain s' where "aof_reopen ?s = (True, s')" "bg_common path s'" "g_aof_fd s' = Some i" "names (os s') = names (os ?s)"
    "children s' = children ?s" "g_aof_rewriting s' = g_aof_rewriting ?s"
    using reopen_bg [OF c(1) _ c(2)] assms(2) by auto
  then show ?thesis using e c(2) by (simp add: bg_astray_def)
qed

text \<open>
  C36. A background save that ends during a background rewrite makes the log lose writes. The server
  takes the signal for the end of the rewrite; when the rewrite really ends, it swaps in a log that
  holds the keyspace of the fork only, and the server keeps writing to the old, unlinked file: no
  command served after the wrong reaping ever reaches the log.
\<close>

theorem bgsave_breaks_rewrite:
  assumes "bg_common path s" "g_aof_fd s = Some i" "names (os s) path = Some i" "g_aof_rewriting s"
    "children s = [Child_rewrite d, Child_save d']" "g_rdb_path s = Some rp" "path \<notin> {rp, rdb_tmp rp}"
    "\<forall>c\<in>set (cs @ cs'). snd c \<noteq> [] \<and> command_spec (snd c ! 0) \<noteq> None"
    "s1 = reap_children (child_exit 1 s)" "s2 = reap_children (child_exit 0 (serve_all cs s1))"
  shows "file_at path (os (serve_all cs' s2)) = Some (frames (rewrite_cmds d)) \<and>
    names (os (serve_all cs' s2)) path \<noteq> g_aof_fd (serve_all cs' s2)"
proof -
  let ?t = "serve_all cs s1"
  have a: "bg_astray path i d s1" using wrong_reap [OF assms(1-7)] assms(9) by simp
  then have t: "bg_astray path i d ?t"
    using serve_all_bg [of path s1 i cs] assms(8) by (auto simp: bg_astray_def)
  obtain rc w where w: "aof_rewrite (junk (cur ?t)) path d (os ?t) = (rc, w)" by fastforce
  have "os_ok (os ?t)" using t by (simp add: bg_astray_def bg_common_def)
  note r = aof_rewrite_ok [OF this w]
  have h: "rc" "healthy w" "os_ok w" "names w path \<noteq> Some i" "file_at path w = Some (frames (rewrite_cmds d))"
    using r t same_calls_healthy by (auto simp: replaced_def bg_astray_def bg_common_def)
  have s2: "s2 = ?t\<lparr>os := w, children := [], g_sigchld := False\<rparr>"
    using t w assms(10) by (simp add: bg_astray_def bg_common_def child_exit_def reap_children_def)
  have c: "bg_common path s2" "g_aof_fd s2 = Some i" using t h s2 by (simp_all add: bg_astray_def bg_common_def)
  then show ?thesis
    using serve_all_bg [OF c, of cs'] assms(8) h(4,5) s2 by (auto simp: file_at_def)
qed

lemma write_cmd_set: "write_cmd [''SET'', ''k'', ''v'']"
proof -
  have "map to_lower (cstr ''SET'') = ''set''" by code_simp
  then have "find (\<lambda>e. strcaseeq (cname e) ''SET'') commands = Some (entry ''set'' True (on_db cmd_set))"
    unfolding find_command by (simp only: commands_def entry_def) simp
  then show ?thesis by (simp add: write_cmd_def entry_def)
qed

lemma log_srv_ready: "log_ready ''a'' 0 log_srv"
  by (simp add: log_ready_def bg_common_def log_srv_def demo_srv_def good_os_def os_ok_def healthy_def dynbuf_init_ok)

theorem bgrewrite_no_loss_witness:
  "file_at ''a'' (os (reap_children (child_exit 0 (serve_at 2000 [''SET'', ''k'', ''v'']
     (dispatch_command [''BGREWRITEAOF''] log_srv))))) =
   Some (frames (rewrite_cmds (store (cur log_srv))) @ frames [[''SET'', ''k'', ''v'']])"
proof -
  let ?start = "dispatch_command [''BGREWRITEAOF''] log_srv"
  let ?s = "serve_at 2000 [''SET'', ''k'', ''v''] ?start"
  have s: "bg_run ?start [[''SET'', ''k'', ''v'']] ?s"
    using bg_serve [OF bg_start [of ?start], of "[''SET'', ''k'', ''v'']" 2000] write_cmd_set command_spec_set by simp
  have "\<not> g_aof_rewriting (reap_children (child_exit 0 ?s))" using bgrewrite_no_loss [OF log_srv_ready s] by blast
  then show ?thesis using bgrewrite_no_loss [OF log_srv_ready bg_reap [OF bg_exit [OF s, of 0]]] by blast
qed

theorem bgsave_breaks_rewrite_witness:
  "let d = store demo_st;
       s = log_srv\<lparr>g_aof_rewriting := True, children := [Child_rewrite d, Child_save d], g_rdb_path := Some ''r''\<rparr>
   in file_at ''a'' (os (reap_children (child_exit 0 (serve_all [(2000, [''SET'', ''k'', ''v''])]
        (reap_children (child_exit 1 s)))))) = Some (frames (rewrite_cmds d))"
proof -
  let ?d = "store demo_st"
  let ?s = "log_srv\<lparr>g_aof_rewriting := True, children := [Child_rewrite ?d, Child_save ?d], g_rdb_path := Some ''r''\<rparr>"
  have c: "bg_common ''a'' ?s" "g_aof_fd ?s = Some 0" "names (os ?s) ''a'' = Some 0"
    using log_srv_ready by (simp_all add: log_ready_def bg_common_def)
  have "''a'' \<notin> {''r'', rdb_tmp ''r''}" by (simp add: rdb_tmp_def)
  from bgsave_breaks_rewrite [OF c _ _ _ this _ refl refl, of ?d ?d "[(2000, [''SET'', ''k'', ''v''])]" "[]"]
  show ?thesis using command_spec_set by (simp add: Let_def)
qed

end
