(* ===== verification/Spec2Isabelle.thy ===== *)
theory Spec2Isabelle
  imports Util Siphash Resp Zset Db_String Db_List Db_Hash Db_Set Db_Zset Db_Expire Background
begin

text \<open>
  A verification development for miniredis, a small Redis-compatible in-memory key/value server in
  C. Paths below are those of the repository's \<open>src/\<close> directory; C names are kept.

  \<^bold>\<open>The program.\<close> A client sends commands as RESP frames; \<open>resp.c\<close> decodes them from a growing
  buffer, \<open>dispatch_command\<close> of \<open>db.c\<close> looks the name up in a table, appends commands that write to
  the append-only file (\<open>aof.c\<close>) and calls the handler, which works on the keyspace and puts a reply
  into the output buffer of the client (\<open>dynbuf.c\<close>, the reply builders of \<open>server.c\<close>). The keyspace
  is a chained hash table (\<open>dict.c\<close>, hashing with \<open>siphash.c\<close>) of typed objects (\<open>object.c\<close>):
  strings, linked lists (\<open>list.c\<close>), hashes, sets and sorted sets (\<open>zskiplist.c\<close>), each with an optional
  expiration. Expired keys are removed when they are looked up and by a periodic cycle. Snapshots are
  written and read by \<open>rdb.c\<close>; the log can be rewritten, in the foreground or by a forked child.

  \<^bold>\<open>Conventions.\<close> Bytes are characters and buffers are lists of them; an element of \<open>argv\<close> is a C
  string, cut at the first NUL by the parser. \<open>long long\<close> arithmetic that can leave its range is
  written out with \<open>wrap64\<close> (signed overflow, undefined in C, is taken to wrap around), hashes and snapshot integers are words, a \<open>double\<close> is its 64 bits. Code
  that follows pointers works on an explicit store of nodes. Errors are values. What the environment
  decides is an argument or a field: the clock, the random bytes and numbers, the contents of fresh
  memory (\<open>junk\<close>), the outcome of every system call.

  \<^bold>\<open>The theories.\<close>

  \<^item> \<open>Prelude\<close>: bytes, C strings, integer conversions, decimal text, shared list lemmas.
  \<^item> \<open>Util\<close>: integer parsing and glob matching of \<open>util.c\<close>; the parser accepts exactly the signed
    decimals in range, the matcher implements the semantics of its pattern.
  \<^item> \<open>Siphash\<close>, \<open>Kv_Store\<close>, \<open>Dict\<close>: the hash function, the interface of a string-keyed store (locale
    \<open>kv_store\<close>) and the table that provides it; runs of the table refine runs on finite maps.
  \<^item> \<open>Resp\<close>: the parser, with the interface \<open>incremental_parser\<close>: a verdict never changes when more
    bytes arrive. Frames as the log writers build them are decoded exactly.
  \<^item> \<open>Dynbuf\<close>: growable buffers behind the interface \<open>byte_sink\<close>.
  \<^item> \<open>Linked_List\<close>: the doubly linked list behind the interface \<open>deque\<close>.
  \<^item> \<open>Double\<close>, \<open>Rounding\<close>, \<open>Double_Io\<close>: doubles, their order and sum, \<open>strtod\<close> and \<open>%.17g\<close> with
    correct rounding, and the text of a score read back.
  \<^item> \<open>Zskiplist\<close>, \<open>Zset\<close>: the skip list with its spans on an explicit heap, and the sorted set; runs
    refine maps from members to scores, ranks and ranges answer as on the sorted list.
  \<^item> \<open>Object\<close>, \<open>State\<close>, \<open>Db\<close>: objects, the state of the server as a handler sees it (record \<open>st\<close>), the
    reply builders, the invariant \<open>st_ok\<close>, the keyspace as a client sees it (\<open>view\<close>) and lookup with
    lazy expiration. \<open>implements\<close> and \<open>allows\<close> say that a handler meets a specification on views.
  \<^item> \<open>Db_String\<close>, \<open>Db_List\<close>, \<open>Db_Hash\<close>, \<open>Db_Set\<close>, \<open>Db_Zset\<close>: every handler of \<open>db.c\<close> and its
    specification, which it meets for all arguments and states, errors included. The specifications
    work on the view and parse options on their own; they share with the code only the parsers of
    single numbers (proved correct in \<open>Util\<close> and \<open>Double_Io\<close>), the glob matcher and fixed texts.
  \<^item> \<open>Db_Expire\<close>: the active expiration cycle: it terminates, touches no key that has not expired, and
    repeated cycles collect every expired key.
  \<^item> \<open>Rdb\<close>: the snapshot format with the interfaces \<open>codec\<close> and \<open>codec_pair\<close>; loading inverts saving,
    and a truncated snapshot gives exactly its complete keys.
  \<^item> \<open>Files\<close>, \<open>Persist\<close>: files as names of byte sequences with an oracle for the calls, \<open>rdb_save\<close>,
    \<open>rdb_load\<close> and the functions of \<open>aof.c\<close> on the server record \<open>srv\<close>; replacing a file is atomic
    however the calls fail.
  \<^item> \<open>Dispatch\<close>: the command table and the commands that save and rewrite; a dispatched command, and
    a whole session at increasing times, behaves as the specifications say, and no input breaks the
    invariant.
  \<^item> \<open>Typed\<close>: commands of one type refuse keys of another with the type error.
  \<^item> \<open>Replay\<close>: \<open>aof_replay\<close>; for commands that depend neither on the time nor on a random choice, a log
    cut anywhere replays to the keyspace of a prefix of the session, and where a replay stops in general.
  \<^item> \<open>Rewrite\<close>: a rewritten log rebuilds the keyspace under the conditions stated there; the interface \<open>batch_command\<close> covers the four
    container commands.
  \<^item> \<open>Background\<close>: forked children and \<open>reap_children\<close>; a background rewrite loses no write under any
    interleaving of keyspace commands, the end of the child and the reaping, as long as no system call
    fails and no other child is at work.

  \<^bold>\<open>Bounds.\<close> Loops are terminating functions. The one that takes fuel is \<open>expire_loop\<close>: the cycle gives
  it the number of buckets, and \<open>Db_Expire\<close> proves that it stops by itself before that runs out.
  Allocation and formatting do not fail. Sizes and reference
  counts are natural numbers; a frame is assumed to be shorter than 2 GB where the parser returns its
  length as an \<open>int\<close>. The results of \<open>write\<close> are a finite list per call, after which everything is
  written. Time stands still during one command and during one replay.

  \<^bold>\<open>What the code gets wrong\<close> is proved as well: a literal byte of 128 or more in a glob pattern
  never matches, \<open>SET\<close> with an absolute time in the past never expires and so a string can come back
  from a rewritten log for good, a failing \<open>HINCRBYFLOAT\<close> leaves an empty hash, \<open>ZRANGEBYSCORE\<close> with
  a large offset announces elements it does not send, and a \<open>BGSAVE\<close> that ends during a
  \<open>BGREWRITEAOF\<close> loses the writes after it.

  \<^bold>\<open>Not modelled.\<close> The event loops, sockets and the per-client input and output handling of
  \<open>server.c\<close> and the command line of \<open>main.c\<close>: what they do is mostly calls of the operating
  system. The channel registry of \<open>pubsub.c\<close>, which no command of the table reaches. Logging, the allocation
  wrappers, the clock and the random sources of \<open>util.c\<close>, which are the environment of the model,
  and the functions that only release memory.
\<close>

end
